(* ===== verification/Prelude.thy ===== *)
theory Prelude
  imports Main "HOL-Library.Multiset"
begin

text \<open>
  Shared vocabulary of the development: the collections that steer the simplifier, the
  wrap-around of Go's signed 64-bit integers, decimal printing as \<open>fmt.Sprintf("%d")\<close> does it,
  and the facts on lists and multisets that several components use.
\<close>

named_theorems go_defs \<open>definitions of the model that a proof unfolds to reach the code\<close>
named_theorems go_branch \<open>one equation per branch of an operation\<close>
named_theorems inv_rules \<open>an operation keeps a component's invariant\<close>

section \<open>Signed 64-bit integers\<close>

text \<open>
  An \<open>int64\<close> of the source is an \<^typ>\<open>int\<close> here. Where the source adds or subtracts quantities that a
  client or a setting chooses, the result goes through \<open>i64\<close>, which wraps around as Go's two's complement
  arithmetic does. What only counts up by one from a start in the program is left without wrap-around, and
  each theory says so: the timestamps of \<open>Clock\<close> and the counters of \<open>LoadBot\<close>.
\<close>

type_synonym int64 = int

definition i64 :: "int \<Rightarrow> int64" where
  "i64 x = (x + 2 ^ 63) mod 2 ^ 64 - 2 ^ 63"

definition int64_range :: "int \<Rightarrow> bool" where
  "int64_range x \<longleftrightarrow> - (2 ^ 63) \<le> x \<and> x < 2 ^ 63"

lemma i64_range: "int64_range (i64 x)"
proof -
  have "0 \<le> (x + 2 ^ 63) mod 2 ^ 64" "(x + 2 ^ 63) mod 2 ^ 64 < 2 ^ 64"
    by (rule pos_mod_sign pos_mod_bound; simp)+
  then show ?thesis by (simp add: i64_def int64_range_def)
qed

lemma i64_id: "int64_range x \<Longrightarrow> i64 x = x"
  by (simp add: i64_def int64_range_def)

lemma i64_sub_min:
  assumes "0 < a" "a < 2 ^ 63" "0 < b" "b < 2 ^ 63"
  shows "i64 (a - min a b) = a - min a b"
  using assms by (intro i64_id) (auto simp: int64_range_def min_def)

section \<open>Decimal printing\<close>

definition digit_char :: "nat \<Rightarrow> char" where
  "digit_char d = char_of (48 + d)"

fun show_nat :: "nat \<Rightarrow> string" where
  "show_nat n = (if n < 10 then [digit_char n] else show_nat (n div 10) @ [digit_char (n mod 10)])"

declare show_nat.simps [simp del]

text \<open>\<open>%d\<close> of a signed integer: a minus sign in front of the digits of the absolute value.\<close>

definition show_int :: "int \<Rightarrow> string" where
  "show_int i = (if i < 0 then CHR ''-'' # show_nat (nat (- i)) else show_nat (nat i))"

text \<open>Different numbers print differently, in digits only.\<close>

lemma show_nat_chars: "c \<in> set (show_nat n) \<Longrightarrow> 48 \<le> (of_char c :: nat) \<and> (of_char c :: nat) \<le> 57"
proof (induction n rule: show_nat.induct)
  case (1 n)
  have "of_char (digit_char d) = 48 + d" if "d < 10" for d :: nat
    using that by (simp add: digit_char_def of_char_of)
  then have "of_char (digit_char (n mod 10)) = 48 + n mod 10" "n < 10 \<Longrightarrow> of_char (digit_char n) = 48 + n"
    by simp_all
  with 1 show ?case by (subst (asm) (2) show_nat.simps) (fastforce split: if_splits)
qed

lemma show_nat_neq_Nil: "show_nat n \<noteq> []"
  by (subst show_nat.simps) simp

lemma digit_char_inj: "d < 10 \<Longrightarrow> e < 10 \<Longrightarrow> digit_char d = digit_char e \<Longrightarrow> d = e"
proof -
  assume "d < 10" "e < 10" "digit_char d = digit_char e"
  then have "(of_char (digit_char d) :: nat) = of_char (digit_char e)" by simp
  with \<open>d < 10\<close> \<open>e < 10\<close> show "d = e" by (simp add: digit_char_def of_char_of)
qed

lemma show_nat_inj: "show_nat m = show_nat n \<Longrightarrow> m = n"
proof (induction m arbitrary: n rule: less_induct)
  case (less m)
  note eq = less.prems[unfolded show_nat.simps[of m] show_nat.simps[of n]]
  consider "m < 10" "n < 10" | "m < 10" "\<not> n < 10" | "\<not> m < 10" "n < 10" | "\<not> m < 10" "\<not> n < 10" by blast
  then show ?case
  proof cases
    case 1 with eq show ?thesis by (simp add: digit_char_inj)
  next
    case 2 with eq show_nat_neq_Nil[of "n div 10"] show ?thesis by (cases "show_nat (n div 10)") auto
  next
    case 3 with eq show_nat_neq_Nil[of "m div 10"] show ?thesis by (cases "show_nat (m div 10)") auto
  next
    case 4
    with eq have "show_nat (m div 10) = show_nat (n div 10)" "digit_char (m mod 10) = digit_char (n mod 10)"
      by auto
    moreover have "m div 10 < m" using 4 by simp
    ultimately have "m div 10 = n div 10" "m mod 10 = n mod 10"
      using less.IH digit_char_inj[of "m mod 10" "n mod 10"] by auto
    then show ?thesis by (metis div_mult_mod_eq)
  qed
qed

lemma show_int_inj: "show_int i = show_int j \<Longrightarrow> i = j"
proof -
  have minus: "show_nat n \<noteq> CHR ''-'' # xs" for n xs
  proof
    assume "show_nat n = CHR ''-'' # xs"
    then have "CHR ''-'' \<in> set (show_nat n)" by simp
    from show_nat_chars[OF this] show False by simp
  qed
  assume "show_int i = show_int j"
  then show "i = j" using minus minus[symmetric] by (auto simp: show_int_def dest: show_nat_inj split: if_splits)
qed

section \<open>Lists and multisets\<close>

definition swapl :: "'a list \<Rightarrow> nat \<Rightarrow> nat \<Rightarrow> 'a list" where
  "swapl xs i j = xs[i := xs ! j, j := xs ! i]"

lemma length_swapl [simp]: "length (swapl xs i j) = length xs"
  by (simp add: swapl_def)

lemma swapl_Nil [simp]: "swapl xs i j = [] \<longleftrightarrow> xs = []"
  by (simp add: swapl_def)

lemma nth_swapl:
  "i < length xs \<Longrightarrow> j < length xs \<Longrightarrow> k < length xs \<Longrightarrow>
    swapl xs i j ! k = (if k = j then xs ! i else if k = i then xs ! j else xs ! k)"
  by (auto simp: swapl_def nth_list_update)

lemma mset_swapl [simp]:
  "i < length xs \<Longrightarrow> j < length xs \<Longrightarrow> mset (swapl xs i j) = mset xs"
  using mset_swap[of j xs i] by (simp add: swapl_def)

lemma set_swapl [simp]: "i < length xs \<Longrightarrow> j < length xs \<Longrightarrow> set (swapl xs i j) = set xs"
  by (metis mset_swapl set_mset_mset)

lemma distinct_swapl [simp]:
  "i < length xs \<Longrightarrow> j < length xs \<Longrightarrow> distinct (swapl xs i j) = distinct xs"
  by (simp add: swapl_def)

lemma map_swapl:
  "i < length xs \<Longrightarrow> j < length xs \<Longrightarrow> map f (swapl xs i j) = swapl (map f xs) i j"
  by (simp add: swapl_def map_update)

lemma swapl_same [simp]: "swapl xs i i = xs"
  by (simp add: swapl_def)

lemma mset_butlast: "xs \<noteq> [] \<Longrightarrow> mset (butlast xs) = mset xs - {# last xs #}"
  by (cases xs rule: rev_cases) auto

section \<open>Sorting by a key that tells all entries apart\<close>

lemma sort_key_unique:
  assumes "mset zs = mset xs" "sorted (map f zs)" "distinct (map f xs)"
  shows "sort_key f xs = zs"
proof -
  have s: "mset (sort_key f xs) = mset zs" using assms(1) by simp
  then have "mset (map f (sort_key f xs)) = mset (map f zs)" by (simp only: mset_map)
  then have "sort (map f zs) = map f (sort_key f xs)"
    by (intro properties_for_sort) simp_all
  then have eq: "map f (sort_key f xs) = map f zs"
    using assms(2) by (simp add: sorted_sort_id)
  have "inj_on f (set (sort_key f xs) \<union> set zs)"
    using assms(1,3) mset_eq_setD[OF assms(1)] by (simp add: distinct_map)
  from map_inj_on[OF eq this] show ?thesis .
qed

lemma sort_key_mset_cong:
  "mset xs = mset ys \<Longrightarrow> distinct (map f ys) \<Longrightarrow> sort_key f xs = sort_key f ys"
  by (metis mset_sort sort_key_unique sorted_sort_key)

lemma sort_key_head:
  assumes "mset ys = mset xs - {# x #}" "x \<in> set xs" "distinct (map f xs)" "\<forall>y \<in> set xs. f x \<le> f y"
  shows "sort_key f xs = x # sort_key f ys"
proof (rule sort_key_unique)
  show "mset (x # sort_key f ys) = mset xs" using assms(1,2) by simp
  have "set ys \<subseteq> set xs" using assms(1) by (metis in_diffD set_mset_mset subsetI)
  then show "sorted (map f (x # sort_key f ys))" using assms(4) by auto
qed (rule assms(3))

lemma sort_key_insert:
  assumes "mset ys = add_mset x (mset xs)" "distinct (map f ys)"
  shows "sort_key f ys = insort_key f x (sort_key f xs)"
  using assms by (intro sort_key_unique) (simp_all add: sorted_insort_key)

lemma sort_key_delete:
  assumes "mset ys = mset xs - {# x #}" "x \<in> set xs" "distinct (map f xs)"
  shows "sort_key f ys = filter (\<lambda>y. y \<noteq> x) (sort_key f xs)"
proof (rule sort_key_unique)
  have dx: "distinct xs" using assms(3) by (simp add: distinct_map)
  then show "mset (filter (\<lambda>y. y \<noteq> x) (sort_key f xs)) = mset ys"
    using assms(1,2) by (simp add: mset_filter  multiset_eq_iff distinct_count_atmost_1)
  show "sorted (map f (filter (\<lambda>y. y \<noteq> x) (sort_key f xs)))"
    by (rule sorted_filter) simp
  have "mset (map f xs) = mset (f x # map f ys)"
    using assms(1,2) by (simp add: image_mset_Diff)
  then have "distinct (f x # map f ys)" using assms(3) by (metis mset_eq_imp_distinct_iff)
  then show "distinct (map f ys)" by simp
qed
end
