(* ===== verification/Float64.thy ===== *)
theory Float64
  imports Complex_Main "HOL-Library.Log_Nat" Prelude
begin

text \<open>
  Go's \<open>float64\<close>: IEEE 754 double precision with rounding to nearest, ties to even. A finite
  non-zero value is the rational it stands for; zero keeps its sign. Every operation is the exact
  one followed by \<open>rnd64\<close>. (The model rounds after every operation, as the Go compiler does for
  amd64 at its default level; it does not fuse a multiplication with an addition.)
\<close>

section \<open>Values and rounding\<close>

datatype float64 = Fin rat | NegZero | PInf | NInf | NaN

definition pow2 :: "int \<Rightarrow> rat" where
  "pow2 e = (if 0 \<le> e then 2 ^ nat e else inverse (2 ^ nat (- e)))"

lemma pow2_pos [simp]: "0 < pow2 e"
  by (simp add: pow2_def)

lemma pow2_nonzero [simp]: "pow2 e \<noteq> 0"
  using pow2_pos[of e] by linarith

lemma pow2_Suc: "pow2 (e + 1) = 2 * pow2 e"
proof (cases "0 \<le> e")
  case True
  then have "nat (e + 1) = Suc (nat e)" by simp
  with True show ?thesis by (simp add: pow2_def)
next
  case False
  then have "nat (- e) = Suc (nat (- (e + 1)))" by simp
  with False show ?thesis by (cases "e = - 1") (simp_all add: pow2_def)
qed

lemma pow2_add: "pow2 (a + b) = pow2 a * pow2 b"
proof (induction b rule: int_induct[of _ 0])
  case base
  show ?case by (simp add: pow2_def)
next
  case (step1 i)
  then show ?case using pow2_Suc[of "a + i"] pow2_Suc[of i] by (simp add: add.assoc)
next
  case (step2 i)
  then show ?case using pow2_Suc[of "a + (i - 1)"] pow2_Suc[of "i - 1"] by (simp add: add.assoc algebra_simps)
qed

lemma pow2_mono: "a \<le> b \<Longrightarrow> pow2 a \<le> pow2 b"
proof -
  assume "a \<le> b"
  then have "pow2 b = pow2 a * pow2 (b - a)" by (simp add: pow2_add[symmetric])
  moreover have "1 \<le> pow2 (b - a)" using \<open>a \<le> b\<close> by (simp add: pow2_def)
  ultimately show ?thesis by simp
qed

lemma pow2_less_iff: "pow2 a < pow2 b \<longleftrightarrow> a < b"
proof -
  have "pow2 a < pow2 b" if "a < b" for a b
  proof -
    have "pow2 a < 2 * pow2 a" using pow2_pos[of a] by linarith
    also have "2 * pow2 a \<le> pow2 b" using pow2_mono[of "a + 1" b] that pow2_Suc[of a] by simp
    finally show ?thesis .
  qed
  then show ?thesis using pow2_mono[of b a] by (meson not_le)
qed

text \<open>The exponent of a positive rational: the binary digits of its two parts give it up to one.\<close>

definition expo :: "rat \<Rightarrow> int" where
  "expo x = (let (n, d) = quotient_of x; e = bitlen n - bitlen d
     in if pow2 e \<le> x then e else e - 1)"

lemma bitlen_pow2_bounds: "0 < n \<Longrightarrow> pow2 (bitlen n - 1) \<le> of_int n \<and> of_int n < pow2 (bitlen n)"
proof -
  assume n: "0 < n"
  then have b: "1 \<le> bitlen n" by (simp add: bitlen_alt_def)
  have "of_int (2 ^ nat (bitlen n - 1)) \<le> (of_int n :: rat)" "(of_int n :: rat) < of_int (2 ^ nat (bitlen n))"
    using bitlen_bounds[OF n] by (simp_all only: of_int_le_iff of_int_less_iff)
  then show ?thesis using b by (simp add: pow2_def)
qed

lemma expo_bounds:
  assumes "0 < x"
  shows "pow2 (expo x) \<le> x" "x < pow2 (expo x + 1)"
proof -
  obtain n d where q: "quotient_of x = (n, d)" by (cases "quotient_of x")
  have d: "0 < d" using quotient_of_denom_pos[OF q] .
  have x: "x = of_int n / of_int d" using quotient_of_div[OF q] .
  have n: "0 < n" using assms d unfolding x by (simp add: zero_less_divide_iff)
  note bn = bitlen_pow2_bounds[OF n] and bd = bitlen_pow2_bounds[OF d]
  define e where "e = bitlen n - bitlen d"
  have "x < pow2 (bitlen n) / pow2 (bitlen d - 1)"
    unfolding x using bn bd d n by (intro frac_less) auto
  also have "\<dots> = pow2 (e + 1)"
    using pow2_add[of "e + 1" "bitlen d - 1"] by (simp add: e_def field_simps)
  finally have up: "x < pow2 (e + 1)" .
  have "pow2 (bitlen n - 1) / pow2 (bitlen d) \<le> x"
    unfolding x using bn bd d n by (intro frac_le) auto
  moreover have "pow2 (bitlen n - 1) / pow2 (bitlen d) = pow2 (e - 1)"
    using pow2_add[of "e - 1" "bitlen d"] by (simp add: e_def field_simps)
  ultimately have low: "pow2 (e - 1) \<le> x" by simp
  show "pow2 (expo x) \<le> x" "x < pow2 (expo x + 1)"
    using up low by (auto simp: expo_def q e_def[symmetric] Let_def not_le)
qed

lemma expo_unique: "pow2 e \<le> x \<Longrightarrow> x < pow2 (e + 1) \<Longrightarrow> expo x = e"
proof -
  assume e: "pow2 e \<le> x" "x < pow2 (e + 1)"
  then have x: "0 < x" using pow2_pos[of e] by linarith
  have "pow2 e < pow2 (expo x + 1)" "pow2 (expo x) < pow2 (e + 1)"
    using expo_bounds[OF x] e by linarith+
  then show "expo x = e" unfolding pow2_less_iff by simp
qed

definition round_even :: "rat \<Rightarrow> int" where
  "round_even m = (let f = \<lfloor>m\<rfloor>; d = m - of_int f
     in if d < 1 / 2 then f else if d > 1 / 2 then f + 1 else if even f then f else f + 1)"

lemma round_even_bounds: "of_int k \<le> m \<Longrightarrow> k \<le> round_even m" "m \<le> of_int k \<Longrightarrow> round_even m \<le> k"
proof -
  assume "of_int k \<le> m"
  then have "k \<le> \<lfloor>m\<rfloor>" by (simp add: le_floor_iff)
  then show "k \<le> round_even m" by (simp add: round_even_def Let_def)
next
  assume m: "m \<le> of_int k"
  show "round_even m \<le> k"
  proof (cases "m = of_int k")
    case False
    with m have "\<lfloor>m\<rfloor> < k" by (simp add: floor_less_iff)
    then show ?thesis by (simp add: round_even_def Let_def)
  qed (simp add: round_even_def)
qed

lemma round_even_int [simp]: "round_even (of_int k) = k"
  by (simp add: round_even_def)

lemma round_evenI: "of_int k - 1 / 2 < m \<Longrightarrow> m < of_int k + 1 / 2 \<Longrightarrow> round_even m = k"
proof -
  assume m: "of_int k - 1 / 2 < m" "m < of_int k + 1 / 2"
  show ?thesis
  proof (cases "of_int k \<le> m")
    case True
    with m have "\<lfloor>m\<rfloor> = k" by (simp add: floor_eq_iff)
    with m show ?thesis by (simp add: round_even_def Let_def)
  next
    case False
    with m have "\<lfloor>m\<rfloor> = k - 1" by (simp add: floor_eq_iff)
    with m show ?thesis by (simp add: round_even_def Let_def)
  qed
qed

lemma round_even_tie: "m = of_int k + 1 / 2 \<Longrightarrow> round_even m = (if even k then k else k + 1)"
proof -
  assume m: "m = of_int k + 1 / 2"
  then have "\<lfloor>m\<rfloor> = k" by (simp add: floor_eq_iff)
  with m show ?thesis by (simp add: round_even_def Let_def)
qed

text \<open>The spacing of the doubles around \<open>x\<close>: 53 significant bits, and none below \<open>2\<^sup>-\<^sup>1\<^sup>0\<^sup>7\<^sup>4\<close>.\<close>

definition quantum :: "rat \<Rightarrow> rat" where
  "quantum x = pow2 (max (expo x - 52) (- 1074))"

definition rnd_mag :: "rat \<Rightarrow> rat" where
  "rnd_mag x = of_int (round_even (x / quantum x)) * quantum x"

definition rnd64 :: "rat \<Rightarrow> float64" where
  "rnd64 x =
     (if x = 0 then Fin 0
      else let m = rnd_mag \<bar>x\<bar> in
        if m \<ge> pow2 1024 then (if x > 0 then PInf else NInf)
        else if m = 0 then (if x > 0 then Fin 0 else NegZero)
        else Fin (if x > 0 then m else - m))"

lemma quantum_pos [simp]: "0 < quantum x"
  by (simp add: quantum_def)

text \<open>A multiple of the spacing at \<open>x\<close> bounds the rounded value when it bounds \<open>x\<close>.\<close>

lemma rnd_mag_bounds:
  shows "x \<le> of_int k * quantum x \<Longrightarrow> rnd_mag x \<le> of_int k * quantum x"
    "of_int k * quantum x \<le> x \<Longrightarrow> of_int k * quantum x \<le> rnd_mag x"
  using round_even_bounds[where k = k and m = "x / quantum x"] quantum_pos[of x]
  by (auto simp: rnd_mag_def pos_divide_le_eq pos_le_divide_eq mult_right_mono)

lemma rnd_mag_exact: "x = of_int k * quantum x \<Longrightarrow> rnd_mag x = x"
  using rnd_mag_bounds[where x = x and k = k] by simp

lemma rnd_mag_nonneg: "0 \<le> x \<Longrightarrow> 0 \<le> rnd_mag x"
  using rnd_mag_bounds(2)[where k = 0 and x = x] by simp

lemma rnd_mag_le_pow2:
  assumes "0 < x" "x \<le> pow2 e" "- 1074 \<le> e"
  shows "rnd_mag x \<le> pow2 e"
proof -
  have "pow2 (expo x) \<le> pow2 e" using expo_bounds(1)[OF assms(1)] assms(2) by linarith
  then have "expo x \<le> e" using pow2_less_iff[of e "expo x"] by linarith
  then have le: "max (expo x - 52) (- 1074) \<le> e" using assms(3) by simp
  define j where "j = e - max (expo x - 52) (- 1074)"
  have j: "0 \<le> j" using le by (simp add: j_def)
  have "pow2 e = pow2 j * quantum x" by (simp add: quantum_def j_def pow2_add[symmetric])
  also have "pow2 j = of_int (2 ^ nat j)" using j by (simp add: pow2_def)
  finally have "pow2 e = of_int (2 ^ nat j) * quantum x" .
  with assms(2) show ?thesis by (metis rnd_mag_bounds(1))
qed

lemma rnd_mag_int:
  fixes k :: int
  assumes "0 < k" "k \<le> 2 ^ 53"
  shows "rnd_mag (of_int k) = of_int k"
proof (cases "k = 2 ^ 53")
  case True
  have "expo (of_int k) = 53" unfolding True by (rule expo_unique) (simp_all add: pow2_def)
  then have "quantum (of_int k) = 2" by (simp add: quantum_def pow2_def)
  with True have "of_int k = of_int (2 ^ 52) * quantum (of_int k)" by simp
  then show ?thesis by (rule rnd_mag_exact)
next
  case False
  have x: "0 < (of_int k :: rat)" using assms by simp
  have "(of_int k :: rat) < of_int (2 ^ 53)" using assms False by (simp only: of_int_less_iff)
  then have "pow2 (expo (of_int k)) < pow2 53"
    using expo_bounds(1)[OF x] by (simp add: pow2_def)
  then have e: "expo (of_int k) \<le> 52" unfolding pow2_less_iff by simp
  define j where "j = - max (expo (of_int k) - 52) (- 1074)"
  have "0 \<le> j" using e by (simp add: j_def)
  then have "quantum (of_int k) = 1 / of_int (2 ^ nat j)"
    by (cases "j = 0") (auto simp: quantum_def j_def pow2_def field_simps)
  then have "of_int k = of_int (k * 2 ^ nat j) * quantum (of_int k)" by simp
  then show ?thesis by (rule rnd_mag_exact)
qed

lemma rnd64_int: "\<bar>k\<bar> \<le> 2 ^ 53 \<Longrightarrow> rnd64 (of_int k) = Fin (of_int k)"
proof -
  assume k: "\<bar>k\<bar> \<le> 2 ^ 53"
  show ?thesis
  proof (cases "k = 0")
    case False
    have "rnd_mag \<bar>of_int k\<bar> = of_int \<bar>k\<bar>" using rnd_mag_int[of "\<bar>k\<bar>"] False k by simp
    moreover have "(of_int \<bar>k\<bar> :: rat) < pow2 1024"
    proof -
      have "(of_int \<bar>k\<bar> :: rat) \<le> of_int (2 ^ 53)" using k by (simp only: of_int_le_iff)
      also have "\<dots> = pow2 53" by (simp add: pow2_def)
      also have "\<dots> < pow2 1024" by (simp add: pow2_less_iff)
      finally show ?thesis .
    qed
    ultimately show ?thesis using False by (auto simp: rnd64_def Let_def abs_if)
  qed (simp add: rnd64_def)
qed

text \<open>Rounding is monotone.\<close>

lemma round_even_mono: "m \<le> m' \<Longrightarrow> round_even m \<le> round_even m'"
proof -
  assume le: "m \<le> m'"
  show ?thesis
  proof (cases "\<lfloor>m\<rfloor> = \<lfloor>m'\<rfloor>")
    case True
    with le show ?thesis by (auto simp: round_even_def Let_def)
  next
    case False
    then have "\<lfloor>m\<rfloor> + 1 \<le> \<lfloor>m'\<rfloor>" using floor_mono[OF le] by simp
    moreover have "round_even m \<le> \<lfloor>m\<rfloor> + 1" "\<lfloor>m'\<rfloor> \<le> round_even m'"
      by (simp_all add: round_even_def Let_def)
    ultimately show ?thesis by linarith
  qed
qed

lemma expo_mono: "0 < x \<Longrightarrow> x \<le> y \<Longrightarrow> expo x \<le> expo y"
proof -
  assume "0 < x" "x \<le> y"
  then have "pow2 (expo x) < pow2 (expo y + 1)"
    using expo_bounds(1)[of x] expo_bounds(2)[of y] by linarith
  then show ?thesis unfolding pow2_less_iff by simp
qed

lemma rnd_mag_mono:
  assumes "0 < x" "x \<le> y"
  shows "rnd_mag x \<le> rnd_mag y"
proof (cases "quantum x = quantum y")
  case True
  have "x / quantum y \<le> y / quantum y" using assms by (simp add: divide_right_mono less_imp_le)
  then show ?thesis unfolding rnd_mag_def True by (intro mult_right_mono) (simp_all add: round_even_mono less_imp_le)
next
  case False
  let ?e = "expo y"
  have "max (expo x - 52) (- 1074) \<noteq> max (?e - 52) (- 1074)" using False by (auto simp: quantum_def)
  then have e: "expo x < ?e" "- 1074 \<le> ?e" using expo_mono[OF assms] by (auto simp: max_def split: if_splits)
  have "x < pow2 (expo x + 1)" using expo_bounds(2)[OF assms(1)] .
  also have "\<dots> \<le> pow2 ?e" using e by (intro pow2_mono) simp
  finally have "rnd_mag x \<le> pow2 ?e" using rnd_mag_le_pow2[OF assms(1) _ e(2)] by simp
  also have "pow2 ?e \<le> rnd_mag y"
  proof -
    define j where "j = ?e - max (?e - 52) (- 1074)"
    have j: "0 \<le> j" using e by (simp add: j_def)
    have "pow2 ?e = pow2 j * quantum y" by (simp add: quantum_def j_def pow2_add[symmetric])
    also have "pow2 j = of_int (2 ^ nat j)" using j by (simp add: pow2_def)
    finally have eq: "pow2 ?e = of_int (2 ^ nat j) * quantum y" .
    moreover have "pow2 ?e \<le> y" using expo_bounds(1)[of y] assms by linarith
    ultimately show ?thesis using rnd_mag_bounds(2)[of "2 ^ nat j" y] by simp
  qed
  finally show ?thesis .
qed

lemma rnd64_nonneg_mono:
  assumes "0 \<le> x" "x \<le> y" "rnd64 y = Fin s"
  shows "\<exists>r. rnd64 x = Fin r \<and> 0 \<le> r \<and> r \<le> s"
proof (cases "x = 0")
  case True
  have "0 \<le> s" using assms rnd_mag_nonneg[of y] by (auto simp: rnd64_def Let_def split: if_splits)
  with True show ?thesis by (simp add: rnd64_def)
next
  case False
  with assms have xy: "0 < x" "0 < y" by auto
  have m: "rnd_mag x \<le> rnd_mag y" using rnd_mag_mono[OF xy(1) assms(2)] .
  have y: "rnd_mag y < pow2 1024" "s = rnd_mag y"
    using assms(3) xy by (auto simp: rnd64_def Let_def not_le split: if_splits)
  then show ?thesis using xy m rnd_mag_nonneg[of x] by (auto simp: rnd64_def Let_def)
qed

section \<open>Operations\<close>

fun sign_bit :: "float64 \<Rightarrow> bool" where
  "sign_bit (Fin x) = (x < 0)"
| "sign_bit NegZero = True"
| "sign_bit PInf = False"
| "sign_bit NInf = True"
| "sign_bit NaN = False"

fun fval :: "float64 \<Rightarrow> rat" where
  "fval (Fin x) = x"
| "fval _ = 0"

fun is_fin :: "float64 \<Rightarrow> bool" where
  "is_fin (Fin x) = True"
| "is_fin NegZero = True"
| "is_fin _ = False"

definition fzero :: "bool \<Rightarrow> float64" where
  "fzero neg = (if neg then NegZero else Fin 0)"

definition finf :: "bool \<Rightarrow> float64" where
  "finf neg = (if neg then NInf else PInf)"

fun fneg :: "float64 \<Rightarrow> float64" where
  "fneg (Fin x) = (if x = 0 then NegZero else Fin (- x))"
| "fneg NegZero = Fin 0"
| "fneg PInf = NInf"
| "fneg NInf = PInf"
| "fneg NaN = NaN"

definition fadd :: "float64 \<Rightarrow> float64 \<Rightarrow> float64" where
  "fadd x y =
     (if x = NaN \<or> y = NaN then NaN
      else if is_fin x \<and> is_fin y then
        if x = NegZero \<and> y = NegZero then NegZero else rnd64 (fval x + fval y)
      else if is_fin x then y
      else if is_fin y \<or> x = y then x
      else NaN)"

definition fsub :: "float64 \<Rightarrow> float64 \<Rightarrow> float64" where
  "fsub x y = fadd x (fneg y)"

definition fmul :: "float64 \<Rightarrow> float64 \<Rightarrow> float64" where
  "fmul x y =
     (let neg = (sign_bit x \<noteq> sign_bit y) in
      if x = NaN \<or> y = NaN then NaN
      else if is_fin x \<and> is_fin y then
        if fval x = 0 \<or> fval y = 0 then fzero neg else rnd64 (fval x * fval y)
      else if is_fin x \<and> fval x = 0 \<or> is_fin y \<and> fval y = 0 then NaN
      else finf neg)"

definition fdiv :: "float64 \<Rightarrow> float64 \<Rightarrow> float64" where
  "fdiv x y =
     (let neg = (sign_bit x \<noteq> sign_bit y) in
      if x = NaN \<or> y = NaN then NaN
      else if is_fin x \<and> is_fin y then
        if fval y = 0 then (if fval x = 0 then NaN else finf neg)
        else if fval x = 0 then fzero neg
        else rnd64 (fval x / fval y)
      else if is_fin x then fzero neg
      else if is_fin y then finf neg
      else NaN)"

fun flt :: "float64 \<Rightarrow> float64 \<Rightarrow> bool" where
  "flt NaN _ = False"
| "flt _ NaN = False"
| "flt PInf _ = False"
| "flt _ NInf = False"
| "flt NInf _ = True"
| "flt _ PInf = True"
| "flt x y = (fval x < fval y)"

definition feq :: "float64 \<Rightarrow> float64 \<Rightarrow> bool" where
  "feq x y \<longleftrightarrow> x \<noteq> NaN \<and> (x = y \<or> is_fin x \<and> is_fin y \<and> fval x = fval y)"

definition fle :: "float64 \<Rightarrow> float64 \<Rightarrow> bool" where
  "fle x y \<longleftrightarrow> flt x y \<or> feq x y"

definition fabs :: "float64 \<Rightarrow> float64" where
  "fabs x = (if sign_bit x then fneg x else x)"

text \<open>\<open>math.Max\<close> and \<open>math.Min\<close>, with their special cases in the order of the library.\<close>

definition fmax :: "float64 \<Rightarrow> float64 \<Rightarrow> float64" where
  "fmax x y =
     (if x = PInf \<or> y = PInf then PInf
      else if x = NaN \<or> y = NaN then NaN
      else if feq x (Fin 0) \<and> feq x y then (if sign_bit x then y else x)
      else if flt y x then x else y)"

definition fmin :: "float64 \<Rightarrow> float64 \<Rightarrow> float64" where
  "fmin x y =
     (if x = NInf \<or> y = NInf then NInf
      else if x = NaN \<or> y = NaN then NaN
      else if feq x (Fin 0) \<and> feq x y then (if sign_bit x then x else y)
      else if flt x y then x else y)"

definition of_int64 :: "int64 \<Rightarrow> float64" where
  "of_int64 k = rnd64 (of_int k)"

section \<open>Values between 0 and 1\<close>

definition unit_float :: "float64 \<Rightarrow> bool" where
  "unit_float x \<longleftrightarrow> (\<exists>r. x = Fin r \<and> 0 \<le> r \<and> r \<le> 1)"

text \<open>Clamping as the code writes it gives a number between 0 and 1, or NaN for NaN.\<close>

definition clamp01 :: "float64 \<Rightarrow> float64" where
  "clamp01 x = fmax (Fin 0) (fmin (Fin 1) x)"

lemma clamp01_cases:
  "clamp01 NaN = NaN" "clamp01 PInf = Fin 1" "clamp01 NInf = Fin 0" "clamp01 NegZero = Fin 0"
  "clamp01 (Fin r) = Fin (if r < 0 then 0 else if 1 < r then 1 else r)"
  by (auto simp: clamp01_def fmax_def fmin_def feq_def)

lemma clamp01_unit: "x \<noteq> NaN \<Longrightarrow> unit_float (clamp01 x)"
  by (cases x) (auto simp: clamp01_cases unit_float_def)

lemma clamp01_id: "unit_float x \<Longrightarrow> clamp01 x = x"
  by (auto simp: unit_float_def clamp01_cases)

lemma fmul_weight:
  assumes "unit_float x" "0 < w" "rnd64 w = Fin w"
  shows "\<exists>r. fmul x (Fin w) = Fin r \<and> 0 \<le> r \<and> r \<le> w"
proof -
  obtain a where a: "x = Fin a" "0 \<le> a" "a \<le> 1" using assms(1) by (auto simp: unit_float_def)
  show ?thesis
  proof (cases "a = 0")
    case True
    with a assms show ?thesis by (simp add: fmul_def fzero_def)
  next
    case False
    have "0 \<le> a * w" "a * w \<le> w" using a assms(2) by (simp_all add: mult_left_le_one_le)
    from rnd64_nonneg_mono[OF this assms(3)] show ?thesis using a False assms(2) by (simp add: fmul_def)
  qed
qed

lemma fadd_bound:
  assumes "x = Fin a" "0 \<le> a" "a \<le> s" "y = Fin b" "0 \<le> b" "b \<le> t" "rnd64 (s + t) = Fin m"
  shows "\<exists>r. fadd x y = Fin r \<and> 0 \<le> r \<and> r \<le> m"
proof -
  have "0 \<le> a + b" "a + b \<le> s + t" using assms by simp_all
  from rnd64_nonneg_mono[OF this assms(7)] show ?thesis using assms by (simp add: fadd_def)
qed

end
