(* ===== verification/Scoring.thy ===== *)
theory Scoring
  imports Float64
begin

text \<open>
  The composite score of the telemetry ingester, \<open>computeScore\<close> of
  \<open>services/telemetry-ingester/ingester.go\<close>, in double precision, and the check of its
  configuration in \<open>NewIngester\<close>.
\<close>

text \<open>The \<open>BotMetrics\<close> event, as far as the ingester reads it.\<close>

record BotMetricsEvent =
  SubmissionId :: string
  TeamName :: string
  TestRunId :: string
  EmittedAt :: int64
  Tps :: float64
  AckP50Us :: int64
  AckP90Us :: int64
  AckP99Us :: int64
  OrdersSent :: int64
  RejectsRecv :: int64
  DurationMs :: int64
  CorrectnessScore :: float64

record scoring_config =
  maxAcceptableLatencyUS :: float64
  maxAcceptableTPS :: float64

text \<open>A decimal constant of the source is the double nearest to it.\<close>

abbreviation decimal :: "rat \<Rightarrow> float64" where "decimal \<equiv> rnd64"

definition weightedLatencyUS :: "BotMetricsEvent \<Rightarrow> float64" where
  "weightedLatencyUS event =
     fadd (fadd (fmul (of_int64 (AckP50Us event)) (decimal (2 / 10)))
                (fmul (of_int64 (AckP90Us event)) (decimal (3 / 10))))
          (fmul (of_int64 (AckP99Us event)) (decimal (5 / 10)))"

definition latencyScore :: "scoring_config \<Rightarrow> BotMetricsEvent \<Rightarrow> float64" where
  "latencyScore cfg event =
     (let s = fsub (Fin 1) (fdiv (weightedLatencyUS event) (maxAcceptableLatencyUS cfg))
      in fmax (Fin 0) (fmin (Fin 1) s))"

definition throughputScore :: "scoring_config \<Rightarrow> BotMetricsEvent \<Rightarrow> float64" where
  "throughputScore cfg event =
     (let s = fdiv (Tps event) (maxAcceptableTPS cfg) in fmax (Fin 0) (fmin (Fin 1) s))"

definition correctnessScore :: "BotMetricsEvent \<Rightarrow> float64" where
  "correctnessScore event = fmax (Fin 0) (fmin (Fin 1) (CorrectnessScore event))"

definition computeScore :: "scoring_config \<Rightarrow> BotMetricsEvent \<Rightarrow> float64" where
  "computeScore cfg event =
     fadd (fadd (fmul (latencyScore cfg event) (decimal (35 / 100)))
                (fmul (throughputScore cfg event) (decimal (35 / 100))))
          (fmul (correctnessScore event) (decimal (30 / 100)))"

text \<open>\<open>NewIngester\<close> refuses the configuration when this holds.\<close>

definition config_refused :: "scoring_config \<Rightarrow> bool" where
  "config_refused cfg \<longleftrightarrow> fle (maxAcceptableLatencyUS cfg) (Fin 0)"

section \<open>When no operand is NaN, no result is\<close>

lemma rnd64_not_NaN [simp]: "rnd64 x \<noteq> NaN"
  by (simp add: rnd64_def Let_def)

lemma of_int64_not_NaN [simp]: "of_int64 k \<noteq> NaN"
  by (simp add: of_int64_def)

definition finite_or_pos :: "float64 \<Rightarrow> bool" where
  "finite_or_pos x \<longleftrightarrow> x \<noteq> NaN \<and> x \<noteq> NInf"

text \<open>The rounded value of something small is finite.\<close>

lemma rnd64_fin:
  assumes "\<bar>x\<bar> \<le> pow2 1000"
  shows "is_fin (rnd64 x)"
proof (cases "x = 0")
  case False
  then have "0 < \<bar>x\<bar>" by simp
  from rnd_mag_le_pow2[OF this assms] have "rnd_mag \<bar>x\<bar> \<le> pow2 1000" by simp
  also have "\<dots> < pow2 1024" by (simp add: pow2_less_iff)
  finally show ?thesis using False by (simp add: rnd64_def Let_def)
qed (simp add: rnd64_def)

lemma rnd64_abs_le:
  assumes "\<bar>x\<bar> \<le> pow2 e" "- 1074 \<le> e" "e \<le> 1000"
  shows "is_fin (rnd64 x) \<and> \<bar>fval (rnd64 x)\<bar> \<le> pow2 e"
proof (cases "x = 0")
  case False
  then have "0 < \<bar>x\<bar>" by simp
  from rnd_mag_le_pow2[OF this assms(1,2)] have m: "rnd_mag \<bar>x\<bar> \<le> pow2 e" .
  have "pow2 e < pow2 1024" using assms(3) by (simp add: pow2_less_iff)
  moreover have "0 \<le> rnd_mag \<bar>x\<bar>" by (rule rnd_mag_nonneg) simp
  ultimately show ?thesis using False m pow2_pos[of e] by (auto simp: rnd64_def Let_def)
qed (simp add: rnd64_def less_imp_le)

lemma fmul_abs_le:
  assumes "is_fin x" "\<bar>fval x\<bar> \<le> pow2 a" "is_fin y" "\<bar>fval y\<bar> \<le> 1" "- 1074 \<le> a" "a \<le> 1000"
  shows "is_fin (fmul x y) \<and> \<bar>fval (fmul x y)\<bar> \<le> pow2 a"
proof -
  have nn: "x \<noteq> NaN" "y \<noteq> NaN" using assms by auto
  have "\<bar>fval x * fval y\<bar> \<le> pow2 a * 1" unfolding abs_mult using assms by (intro mult_mono) auto
  then have "is_fin (rnd64 (fval x * fval y)) \<and> \<bar>fval (rnd64 (fval x * fval y))\<bar> \<le> pow2 a"
    using assms by (intro rnd64_abs_le) auto
  then show ?thesis
    using assms nn pow2_pos[of a] by (auto simp: fmul_def Let_def fzero_def less_imp_le)
qed

lemma fadd_abs_le:
  assumes "is_fin x" "\<bar>fval x\<bar> \<le> pow2 a" "is_fin y" "\<bar>fval y\<bar> \<le> pow2 a" "- 1074 \<le> a" "a < 1000"
  shows "is_fin (fadd x y) \<and> \<bar>fval (fadd x y)\<bar> \<le> pow2 (a + 1)"
proof -
  have nn: "x \<noteq> NaN" "y \<noteq> NaN" using assms by auto
  have "\<bar>fval x + fval y\<bar> \<le> pow2 (a + 1)" using assms unfolding pow2_Suc by linarith
  then have "is_fin (rnd64 (fval x + fval y)) \<and> \<bar>fval (rnd64 (fval x + fval y))\<bar> \<le> pow2 (a + 1)"
    using assms by (intro rnd64_abs_le) auto
  then show ?thesis using assms nn pow2_pos[of "a + 1"] by (auto simp: fadd_def less_imp_le)
qed

lemma of_int64_abs_le: "int64_range k \<Longrightarrow> is_fin (of_int64 k) \<and> \<bar>fval (of_int64 k)\<bar> \<le> pow2 63"
proof -
  assume "int64_range k"
  then have "\<bar>k\<bar> \<le> 2 ^ 63" by (auto simp: int64_range_def)
  then have "(of_int \<bar>k\<bar> :: rat) \<le> of_int (2 ^ 63)" by (simp only: of_int_le_iff)
  then show ?thesis unfolding of_int64_def by (intro rnd64_abs_le) (simp_all add: pow2_def)
qed

lemma decimal_abs_le: "\<bar>x\<bar> \<le> 1 \<Longrightarrow> is_fin (decimal x) \<and> \<bar>fval (decimal x)\<bar> \<le> 1"
  using rnd64_abs_le[of x 0] by (simp add: pow2_def)

lemma weightedLatencyUS_fin:
  assumes "int64_range (AckP50Us e)" "int64_range (AckP90Us e)" "int64_range (AckP99Us e)"
  shows "is_fin (weightedLatencyUS e)"
proof -
  have part: "is_fin (fmul (of_int64 k) (decimal d)) \<and> \<bar>fval (fmul (of_int64 k) (decimal d))\<bar> \<le> pow2 63"
    if "int64_range k" "\<bar>d\<bar> \<le> 1" for k d
    using of_int64_abs_le[OF that(1)] decimal_abs_le[OF that(2)] by (intro fmul_abs_le) auto
  let ?a = "fmul (of_int64 (AckP50Us e)) (decimal (2 / 10))"
  let ?b = "fmul (of_int64 (AckP90Us e)) (decimal (3 / 10))"
  let ?c = "fmul (of_int64 (AckP99Us e)) (decimal (5 / 10))"
  have p: "is_fin ?a \<and> \<bar>fval ?a\<bar> \<le> pow2 63" "is_fin ?b \<and> \<bar>fval ?b\<bar> \<le> pow2 63" "is_fin ?c \<and> \<bar>fval ?c\<bar> \<le> pow2 63"
    by (rule part; use assms in simp)+
  have ab: "is_fin (fadd ?a ?b) \<and> \<bar>fval (fadd ?a ?b)\<bar> \<le> pow2 (63 + 1)"
    using p by (intro fadd_abs_le) auto
  have c: "\<bar>fval ?c\<bar> \<le> pow2 (63 + 1)" using p(3) pow2_mono[of 63 "63 + 1"] by linarith
  have "is_fin (fadd (fadd ?a ?b) ?c) \<and> \<bar>fval (fadd (fadd ?a ?b) ?c)\<bar> \<le> pow2 (63 + 1 + 1)"
    using ab c p(3) by (intro fadd_abs_le) auto
  then show ?thesis by (simp add: weightedLatencyUS_def)
qed

lemma fsub_one_not_NaN: "x \<noteq> NaN \<Longrightarrow> fsub (Fin 1) x \<noteq> NaN"
  by (cases x) (auto simp: fsub_def fadd_def)

lemma latencyScore_unit:
  assumes "int64_range (AckP50Us e)" "int64_range (AckP90Us e)" "int64_range (AckP99Us e)"
    "maxAcceptableLatencyUS cfg \<noteq> NaN" "\<not> config_refused cfg"
  shows "unit_float (latencyScore cfg e)"
proof -
  let ?w = "weightedLatencyUS e" and ?m = "maxAcceptableLatencyUS cfg"
  have w: "is_fin ?w" "?w \<noteq> NaN" using weightedLatencyUS_fin[OF assms(1-3)] by auto
  have "fval ?m \<noteq> 0 \<or> ?m = PInf"
    using assms(4,5) by (cases ?m) (auto simp: config_refused_def fle_def feq_def)
  then have "fdiv ?w ?m \<noteq> NaN" using w assms(4) by (cases ?m) (auto simp: fdiv_def Let_def fzero_def finf_def)
  from clamp01_unit[OF fsub_one_not_NaN[OF this]] show ?thesis
    by (simp add: latencyScore_def clamp01_def Let_def)
qed

lemma throughputScore_unit:
  assumes "is_fin (Tps e)" "maxAcceptableTPS cfg = Fin m" "0 < m"
  shows "unit_float (throughputScore cfg e)"
proof -
  have "Tps e \<noteq> NaN" using assms(1) by auto
  then have "fdiv (Tps e) (Fin m) \<noteq> NaN" using assms(1,3) by (auto simp: fdiv_def Let_def fzero_def)
  from clamp01_unit[OF this] show ?thesis by (simp add: throughputScore_def clamp01_def Let_def assms(2))
qed

section \<open>The weights\<close>

text \<open>The doubles of the weights: 35 and 30 hundredths, both a little below.\<close>

definition w35 :: rat where "w35 = 6305039478318694 / 2 ^ 54"
definition w30 :: rat where "w30 = 5404319552844595 / 2 ^ 54"

lemma rnd_mag_at:
  assumes "pow2 e \<le> x" "x < pow2 (e + 1)" "- 1022 \<le> e"
  shows "rnd_mag x = of_int (round_even (x / pow2 (e - 52))) * pow2 (e - 52)"
proof -
  have "expo x = e" using assms by (intro expo_unique)
  then have "quantum x = pow2 (e - 52)" using assms(3) by (simp add: quantum_def)
  then show ?thesis by (simp add: rnd_mag_def)
qed

lemma rnd64_at:
  assumes "pow2 e \<le> x" "x < pow2 (e + 1)" "- 1022 \<le> e" "e < 1023"
    "round_even (x / pow2 (e - 52)) = k" "0 < k" "of_int k * pow2 (e - 52) = y"
  shows "rnd64 x = Fin y"
proof -
  have x: "0 < x" using assms(1) pow2_pos[of e] by linarith
  have y: "rnd_mag x = y" using rnd_mag_at[OF assms(1-3)] assms(5,7) by simp
  have "0 < y" using assms(6,7) pow2_pos[of "e - 52"] by (metis mult_pos_pos of_int_0_less_iff)
  moreover have "y \<le> pow2 (e + 1)" using rnd_mag_le_pow2[OF x, of "e + 1"] assms(2,3) y by simp
  moreover have "pow2 (e + 1) < pow2 1024" using assms(4) by (simp add: pow2_less_iff)
  ultimately show ?thesis using x y by (simp add: rnd64_def Let_def)
qed

lemma weights: "decimal (35 / 100) = Fin w35" "decimal (30 / 100) = Fin w30"
proof -
  have "round_even (35 / 100 / pow2 (- 2 - 52)) = 6305039478318694"
    by (rule round_evenI) (simp_all add: pow2_def)
  then show "decimal (35 / 100) = Fin w35"
    by (rule rnd64_at[rotated 4]) (simp_all add: pow2_def w35_def)
  have "round_even (30 / 100 / pow2 (- 2 - 52)) = 5404319552844595"
    by (rule round_evenI) (simp_all add: pow2_def)
  then show "decimal (30 / 100) = Fin w30"
    by (rule rnd64_at[rotated 4]) (simp_all add: pow2_def w30_def)
qed

text \<open>Their sums: \<open>w35 + w35\<close> is exact, and adding \<open>w30\<close> rounds to 1.\<close>

lemma weight_sums: "rnd64 (w35 + w35) = Fin (w35 + w35)" "rnd64 (w35 + w35 + w30) = Fin 1"
proof -
  have "round_even ((w35 + w35) / pow2 (- 1 - 52)) = 6305039478318694"
    by (rule round_evenI) (simp_all add: pow2_def w35_def)
  then show "rnd64 (w35 + w35) = Fin (w35 + w35)"
    by (rule rnd64_at[rotated 4]) (simp_all add: pow2_def w35_def)
  have "(w35 + w35 + w30) / pow2 (- 1 - 52) = of_int 9007199254740991 + 1 / 2"
    by (simp add: pow2_def w35_def w30_def)
  from round_even_tie[OF this] have "round_even ((w35 + w35 + w30) / pow2 (- 1 - 52)) = 9007199254740992"
    by simp
  then show "rnd64 (w35 + w35 + w30) = Fin 1"
    by (rule rnd64_at[rotated 4]) (simp_all add: pow2_def w35_def w30_def)
qed

lemma weight_exact: "rnd64 w35 = Fin w35" "rnd64 w30 = Fin w30"
proof -
  have "round_even (w35 / pow2 (- 2 - 52)) = 6305039478318694"
    by (rule round_evenI) (simp_all add: pow2_def w35_def)
  then show "rnd64 w35 = Fin w35"
    by (rule rnd64_at[rotated 4]) (simp_all add: pow2_def w35_def)
  have "round_even (w30 / pow2 (- 2 - 52)) = 5404319552844595"
    by (rule round_evenI) (simp_all add: pow2_def w30_def)
  then show "rnd64 w30 = Fin w30"
    by (rule rnd64_at[rotated 4]) (simp_all add: pow2_def w30_def)
qed

text \<open>The composite of three scores between 0 and 1 is between 0 and 1.\<close>

lemma composite_unit:
  assumes "unit_float l" "unit_float t" "unit_float c"
  shows "unit_float (fadd (fadd (fmul l (decimal (35 / 100))) (fmul t (decimal (35 / 100)))) (fmul c (decimal (30 / 100))))"
proof -
  have w: "0 < w35" "0 < w30" by (simp_all add: w35_def w30_def)
  obtain a where a: "fmul l (Fin w35) = Fin a" "0 \<le> a" "a \<le> w35"
    using fmul_weight[OF assms(1) w(1) weight_exact(1)] by blast
  obtain b where b: "fmul t (Fin w35) = Fin b" "0 \<le> b" "b \<le> w35"
    using fmul_weight[OF assms(2) w(1) weight_exact(1)] by blast
  obtain d where d: "fmul c (Fin w30) = Fin d" "0 \<le> d" "d \<le> w30"
    using fmul_weight[OF assms(3) w(2) weight_exact(2)] by blast
  obtain ab where ab: "fadd (Fin a) (Fin b) = Fin ab" "0 \<le> ab" "ab \<le> w35 + w35"
    using fadd_bound[OF refl a(2,3) refl b(2,3) weight_sums(1)] by blast
  obtain r where "fadd (Fin ab) (Fin d) = Fin r" "0 \<le> r" "r \<le> 1"
    using fadd_bound[OF refl ab(2,3) refl d(2,3) weight_sums(2)] by blast
  then show ?thesis unfolding weights a(1) b(1) d(1) ab(1) unit_float_def by simp
qed

lemma computeScore_unit:
  assumes "int64_range (AckP50Us e)" "int64_range (AckP90Us e)" "int64_range (AckP99Us e)"
    "maxAcceptableLatencyUS cfg \<noteq> NaN" "\<not> config_refused cfg"
    "is_fin (Tps e)" "maxAcceptableTPS cfg = Fin m" "0 < m" "CorrectnessScore e \<noteq> NaN"
  shows "unit_float (computeScore cfg e)"
  unfolding computeScore_def
  using latencyScore_unit[OF assms(1-5)] throughputScore_unit[OF assms(6-8)] clamp01_unit[OF assms(9)]
  by (intro composite_unit) (simp_all add: correctnessScore_def clamp01_def)

end
