(* ===== verification/Ingester.thy ===== *)
theory Ingester
  imports Scoring "HOL-Library.Sublist"
begin

text \<open>
  The telemetry ingester (\<open>services/telemetry-ingester\<close>): records from the topic become events,
  an event is scored, buffered for the database and shown on the Redis leaderboard; the flush
  loop writes the buffer in batches with three attempts. The database, Redis and the clock are
  parameters: whether a batch is committed, whether its sender is told so, whether the context of a
  flush is done, what time it is. A batch runs in one implicit transaction (\<open>pgx\<close> documents
  this), so it takes effect as a whole or not at all, but a failed attempt may be one that was
  committed.
\<close>

section \<open>Connecting with backoff\<close>

text \<open>
  How a round of \<open>connectRedis\<close> ends: the ping works; it fails with the context done; the context
  is done while waiting; or the wait passes and there is another round. The result is whether
  a connection was made, with the waits that went by, in seconds.
\<close>

datatype ping = PingOk | PingFailedDone | WaitDone | PingFailed

fun connectRedis :: "int \<Rightarrow> ping list \<Rightarrow> (bool \<times> int list) option" where
  "connectRedis backoff [] = None"
| "connectRedis backoff (PingOk # ps) = Some (True, [])"
| "connectRedis backoff (PingFailedDone # ps) = Some (False, [])"
| "connectRedis backoff (WaitDone # ps) = Some (False, [])"
| "connectRedis backoff (PingFailed # ps) =
     map_option (\<lambda>(ok, waits). (ok, backoff # waits)) (connectRedis (if backoff < 30 then backoff * 2 else backoff) ps)"

text \<open>\<open>connectPostgres\<close>: a round may also fail to create the pool, which leads to the same wait.\<close>

datatype pg_round = PoolFailedDone | PoolFailedWaitDone | PoolFailed | Pool ping

fun connectPostgres :: "int \<Rightarrow> pg_round list \<Rightarrow> (bool \<times> int list) option" where
  "connectPostgres backoff [] = None"
| "connectPostgres backoff (r # rs) =
     (if r = Pool PingOk then Some (True, [])
      else if r \<in> {PoolFailedDone, PoolFailedWaitDone, Pool PingFailedDone, Pool WaitDone} then Some (False, [])
      else map_option (\<lambda>(ok, waits). (ok, backoff # waits))
             (connectPostgres (if backoff < 30 then backoff * 2 else backoff) rs))"

lemma connectRedis_waits:
  "0 < b \<Longrightarrow> b < 60 \<Longrightarrow> connectRedis b ps = Some (ok, waits) \<Longrightarrow> \<forall>w \<in> set waits. b \<le> w \<and> w < 60"
proof (induction ps arbitrary: b ok waits)
  case (Cons p ps)
  show ?case
  proof (cases p)
    case PingFailed
    let ?b = "if b < 30 then b * 2 else b"
    obtain ws where ws: "connectRedis ?b ps = Some (ok, ws)" "waits = b # ws"
      using Cons.prems(3) PingFailed by auto
    have "0 < ?b" "?b < 60" "b \<le> ?b" using Cons.prems(1,2) by auto
    with Cons.IH[OF _ _ ws(1)] Cons.prems(1,2) ws(2) show ?thesis by fastforce
  qed (use Cons.prems in auto)
qed simp

lemma connectPostgres_waits:
  "0 < b \<Longrightarrow> b < 60 \<Longrightarrow> connectPostgres b rs = Some (ok, waits) \<Longrightarrow> \<forall>w \<in> set waits. b \<le> w \<and> w < 60"
proof (induction rs arbitrary: b ok waits)
  case (Cons r rs)
  show ?case
  proof (cases "r = Pool PingOk \<or> r \<in> {PoolFailedDone, PoolFailedWaitDone, Pool PingFailedDone, Pool WaitDone}")
    case True
    with Cons.prems(3) show ?thesis by auto
  next
    case False
    let ?b = "if b < 30 then b * 2 else b"
    obtain ws where ws: "connectPostgres ?b rs = Some (ok, ws)" "waits = b # ws"
      using Cons.prems(3) False by (auto split: if_splits)
    have "0 < ?b" "?b < 60" "b \<le> ?b" using Cons.prems(1,2) by auto
    with Cons.IH[OF _ _ ws(1)] Cons.prems(1,2) ws(2) show ?thesis by fastforce
  qed
qed simp

section \<open>The tables\<close>

type_synonym EventScorePair = "BotMetricsEvent \<times> float64"

record telemetry_row =
  tr_time :: int64
  tr_submission :: string
  tr_bot :: string
  tr_type :: string
  tr_latency :: int64

record score_row =
  sr_team :: string
  sr_p50 :: int64
  sr_p90 :: int64
  sr_p99 :: int64
  sr_tps :: float64
  sr_correctness :: float64
  sr_composite :: float64
  sr_scored_at :: int64

record tables =
  telemetry_events :: "telemetry_row list"
  submission_scores :: "string \<rightharpoonup> score_row"

definition telemetry_row_of :: "EventScorePair \<Rightarrow> telemetry_row" where
  "telemetry_row_of p = (let e = fst p in
     \<lparr>tr_time = EmittedAt e, tr_submission = SubmissionId e, tr_bot = TestRunId e, tr_type = ''bot.metrics'',
      tr_latency = AckP90Us e\<rparr>)"

definition score_row_of :: "EventScorePair \<Rightarrow> int64 \<Rightarrow> score_row" where
  "score_row_of p scored = (let (e, score) = p in
     \<lparr>sr_team = TeamName e, sr_p50 = AckP50Us e, sr_p90 = AckP90Us e, sr_p99 = AckP99Us e, sr_tps = Tps e,
      sr_correctness = CorrectnessScore e, sr_composite = score, sr_scored_at = scored\<rparr>)"

text \<open>\<open>ON CONFLICT (submission_id) DO UPDATE\<close> sets every column but the team name.\<close>

definition upsert :: "string \<Rightarrow> score_row \<Rightarrow> (string \<rightharpoonup> score_row) \<Rightarrow> (string \<rightharpoonup> score_row)" where
  "upsert k new scores = scores(k \<mapsto> (case scores k of None \<Rightarrow> new | Some old \<Rightarrow> new\<lparr>sr_team := sr_team old\<rparr>))"

text \<open>The statements of a batch: two per pair, in order. \<open>scored_at\<close> is the time of each.\<close>

fun writeBatch :: "(EventScorePair \<Rightarrow> int64) \<Rightarrow> EventScorePair list \<Rightarrow> tables \<Rightarrow> tables" where
  "writeBatch scored_at [] db = db"
| "writeBatch scored_at (p # ps) db =
     writeBatch scored_at ps
       (db\<lparr>telemetry_events := telemetry_events db @ [telemetry_row_of p],
           submission_scores := upsert (SubmissionId (fst p)) (score_row_of p (scored_at p)) (submission_scores db)\<rparr>)"

section \<open>Flushing\<close>

text \<open>
  What happens around a flush: \<open>ctx_done k\<close> says that the context is done in the wait before
  attempt \<open>k\<close>, \<open>committed k\<close> that the database commits the batch of attempt \<open>k\<close>, \<open>answered k\<close>
  that \<open>writeBatch\<close> returns no error there, \<open>clock_at k\<close> the times that attempt writes. pgx runs
  the statements of a batch in one implicit transaction, so a batch takes effect as a whole or
  not at all; but whether it did and what the client is told are two things. A connection that
  is lost, or a context that ends, after the commit gives an error for a batch that is written;
  and a commit that fails after every statement was answered shows in \<open>br.Close\<close> only, whose
  error is logged and not returned, which gives no error for a batch that is not. By the time an
  attempt returns its batch is taken to be committed or rolled back: a transaction that the
  server ends later than that is not modelled.
\<close>

record flush_world =
  ctx_done :: "nat \<Rightarrow> bool"
  committed :: "nat \<Rightarrow> bool"
  answered :: "nat \<Rightarrow> bool"
  clock_at :: "nat \<Rightarrow> EventScorePair \<Rightarrow> int64"

datatype flush_result = NothingToFlush | Flushed | FlushCancelled | FlushDropped

text \<open>What the batch of an attempt does to the tables.\<close>

definition send_batch :: "flush_world \<Rightarrow> EventScorePair list \<Rightarrow> nat \<Rightarrow> tables \<Rightarrow> tables" where
  "send_batch w ps attempt db = (if committed w attempt then writeBatch (clock_at w attempt) ps db else db)"

fun flush_attempts :: "flush_world \<Rightarrow> nat \<Rightarrow> nat \<Rightarrow> EventScorePair list \<Rightarrow> tables \<Rightarrow> tables \<times> flush_result" where
  "flush_attempts w attempt 0 ps db = (db, FlushDropped)"
| "flush_attempts w attempt (Suc left) ps db =
     (if attempt > 0 \<and> ctx_done w attempt then (db, FlushCancelled)
      else let db = send_batch w ps attempt db in
        if \<not> answered w attempt then flush_attempts w (attempt + 1) left ps db
        else (db, Flushed))"

record Ingester =
  config :: scoring_config
  eventBuffer :: "EventScorePair list"
  db :: tables

definition flush :: "flush_world \<Rightarrow> Ingester \<Rightarrow> Ingester \<times> flush_result" where
  "flush w i =
     (if eventBuffer i = [] then (i, NothingToFlush)
      else
        let bufferToFlush = eventBuffer i;
            i = i\<lparr>eventBuffer := []\<rparr>;
            (tables, result) = flush_attempts w 0 3 bufferToFlush (db i)
        in (i\<lparr>db := tables\<rparr>, result))"

text \<open>
  \<open>Close\<close> makes the flush loop flush once more, under the lifecycle context. When that is done
  already, no batch is sent under it (there is no connection for it) and the wait for a second attempt ends at once.
\<close>

definition under_ctx :: "bool \<Rightarrow> flush_world \<Rightarrow> flush_world" where
  "under_ctx lifecycle_done w = (if lifecycle_done
     then w\<lparr>ctx_done := (\<lambda>_. True), committed := (\<lambda>_. False), answered := (\<lambda>_. False)\<rparr> else w)"

definition Close :: "bool \<Rightarrow> flush_world \<Rightarrow> Ingester \<Rightarrow> Ingester" where
  "Close lifecycle_done w i = fst (flush (under_ctx lifecycle_done w) i)"

text \<open>The attempts that a flush makes, and how many of them leave their rows.\<close>

fun attempts_made :: "flush_world \<Rightarrow> nat \<Rightarrow> nat \<Rightarrow> nat list" where
  "attempts_made w attempt 0 = []"
| "attempts_made w attempt (Suc left) =
     (if attempt > 0 \<and> ctx_done w attempt then []
      else attempt # (if answered w attempt then [] else attempts_made w (attempt + 1) left))"

definition copies :: "flush_world \<Rightarrow> nat" where
  "copies w = length (filter (committed w) (attempts_made w 0 3))"

text \<open>Every attempt made was answered without an error exactly when its batch was committed.\<close>

definition truthful :: "flush_world \<Rightarrow> bool" where
  "truthful w \<longleftrightarrow> (\<forall>k \<in> set (attempts_made w 0 3). answered w k = committed w k)"

lemma flush_attempts_result:
  "fst (flush_attempts w k n ps t) = fold (send_batch w ps) (attempts_made w k n) t \<and>
   snd (flush_attempts w k n ps t) \<in> {Flushed, FlushCancelled, FlushDropped} \<and>
   length (filter (answered w) (attempts_made w k n)) =
     (if snd (flush_attempts w k n ps t) = Flushed then 1 else 0)"
proof (induction w k n ps t rule: flush_attempts.induct)
  case (2 w attempt left ps db)
  show ?case
    using 2 by (cases "attempt > 0 \<and> ctx_done w attempt"; cases "answered w attempt") auto
qed simp

lemma attempts_made_length: "length (attempts_made w k n) \<le> n"
proof (induction w k n rule: attempts_made.induct)
  case (2 w attempt left)
  then show ?case by (cases "attempt > 0 \<and> ctx_done w attempt"; cases "answered w attempt") auto
qed simp

lemma copies_bound: "copies w \<le> 3"
  unfolding copies_def using attempts_made_length[of w 0 3] length_filter_le[of "committed w"]
  by (meson order_trans)

lemma flush_result:
  assumes f: "flush w i = (i', r)"
  shows "eventBuffer i' = [] \<and> config i' = config i \<and>
    (r = NothingToFlush \<and> eventBuffer i = [] \<and> db i' = db i \<or>
     r \<noteq> NothingToFlush \<and> eventBuffer i \<noteq> [] \<and>
       db i' = fold (send_batch w (eventBuffer i)) (attempts_made w 0 3) (db i) \<and>
       (truthful w \<longrightarrow> copies w = (if r = Flushed then 1 else 0)))"
proof (cases "eventBuffer i = []")
  case True
  then show ?thesis using f by (auto simp: flush_def)
next
  case False
  note fr = flush_attempts_result[of w 0 3 "eventBuffer i" "db i"]
  have "r = snd (flush_attempts w 0 3 (eventBuffer i) (db i))"
    "i' = i\<lparr>eventBuffer := [], db := fst (flush_attempts w 0 3 (eventBuffer i) (db i))\<rparr>"
    using f False by (auto simp: flush_def Let_def split: prod.splits)
  moreover have "truthful w \<Longrightarrow> filter (committed w) (attempts_made w 0 3) = filter (answered w) (attempts_made w 0 3)"
    by (auto simp: truthful_def intro: filter_cong)
  ultimately show ?thesis using fr False by (auto simp: copies_def)
qed

section \<open>The leaderboard\<close>

record leaderboardEntry =
  le_SubmissionID :: string
  le_TeamName :: string
  le_Score :: float64
  le_TPS :: float64
  le_AckP50US :: int64
  le_AckP90US :: int64
  le_AckP99US :: int64
  le_OrdersSent :: int64
  le_RejectsRecv :: int64
  le_Correctness :: float64
  le_DurationMS :: int64
  le_Timestamp :: string

text \<open>Redis: the sorted set, the hash of details, and what was published.\<close>

record board =
  leaderboard :: "string \<rightharpoonup> float64"
  leaderboard_details :: "string \<rightharpoonup> leaderboardEntry"
  leaderboard_updates :: "leaderboardEntry list"

definition entry_of :: "string \<Rightarrow> BotMetricsEvent \<Rightarrow> float64 \<Rightarrow> leaderboardEntry" where
  "entry_of stamp event score =
     \<lparr>le_SubmissionID = SubmissionId event, le_TeamName = TeamName event, le_Score = score, le_TPS = Tps event,
      le_AckP50US = AckP50Us event, le_AckP90US = AckP90Us event, le_AckP99US = AckP99Us event,
      le_OrdersSent = OrdersSent event, le_RejectsRecv = RejectsRecv event,
      le_Correctness = fmax (Fin 0) (fmin (Fin 1) (CorrectnessScore event)),
      le_DurationMS = DurationMs event, le_Timestamp = stamp\<rparr>"

text \<open>\<open>encoding/json\<close> has no NaN and no infinity.\<close>

definition marshals :: "leaderboardEntry \<Rightarrow> bool" where
  "marshals e \<longleftrightarrow> is_fin (le_Score e) \<and> is_fin (le_TPS e) \<and> is_fin (le_Correctness e)"

datatype update_error = MarshalFailed | RedisFailed

text \<open>The script runs in Redis as one step, or not at all.\<close>

definition updateLeaderboard :: "string \<Rightarrow> bool \<Rightarrow> BotMetricsEvent \<Rightarrow> float64 \<Rightarrow> board \<Rightarrow>
    update_error option \<times> board" where
  "updateLeaderboard stamp redis_ok event score b =
     (let entry = entry_of stamp event score in
      if \<not> marshals entry then (Some MarshalFailed, b)
      else if \<not> redis_ok then (Some RedisFailed, b)
      else (None, \<lparr>leaderboard = (leaderboard b)(SubmissionId event \<mapsto> fmul score (Fin 1000)),
                   leaderboard_details = (leaderboard_details b)(SubmissionId event \<mapsto> entry),
                   leaderboard_updates = leaderboard_updates b @ [entry]\<rparr>))"

definition Handle :: "string \<Rightarrow> bool \<Rightarrow> BotMetricsEvent \<Rightarrow> Ingester \<times> board \<Rightarrow> Ingester \<times> board" where
  "Handle stamp redis_ok event s =
     (let (i, b) = s;
          score = computeScore (config i) event;
          i = i\<lparr>eventBuffer := eventBuffer i @ [(event, score)]\<rparr>;
          (err, b) = updateLeaderboard stamp redis_ok event score b
      in (i, b))"

section \<open>Records from the topic\<close>

text \<open>
  A record's value is a list of bytes; \<open>decode\<close> is the registry's decoder, which may fail or give
  a message of another type (\<open>Some None\<close>).
\<close>

definition handle_record :: "(nat list \<Rightarrow> BotMetricsEvent option option) \<Rightarrow> nat list \<Rightarrow> BotMetricsEvent option" where
  "handle_record decode v =
     (if length v < 5 \<or> v ! 0 \<noteq> 0 then None
      else (case decode v of None \<Rightarrow> None | Some None \<Rightarrow> None | Some (Some e) \<Rightarrow> Some e))"

definition consume :: "(nat list \<Rightarrow> BotMetricsEvent option option) \<Rightarrow> nat list list \<Rightarrow> BotMetricsEvent list" where
  "consume decode vs = List.map_filter (handle_record decode) vs"

section \<open>A run of the ingester\<close>

text \<open>
  What the ingester goes through: events and flushes, in any order. Beside the state, the run
  keeps the scored events and the flushes that had something to write: their batch, what happened
  around them, and how they ended. (A flush copies the buffer under the mutex and then works on
  the copy, so an event that arrives meanwhile may as well arrive after it.)
\<close>

datatype ing_event = Arrives string bool BotMetricsEvent | FlushTick flush_world

record flushed_batch =
  fb_pairs :: "EventScorePair list"
  fb_world :: flush_world
  fb_result :: flush_result

record ing_run =
  ingester :: Ingester
  redis :: board
  handled :: "EventScorePair list"
  flushes :: "flushed_batch list"

fun ing_step :: "ing_event \<Rightarrow> ing_run \<Rightarrow> ing_run" where
  "ing_step (Arrives stamp ok e) r =
     (let (i, b) = Handle stamp ok e (ingester r, redis r)
      in r\<lparr>ingester := i, redis := b, handled := handled r @ [(e, computeScore (config (ingester r)) e)]\<rparr>)"
| "ing_step (FlushTick w) r =
     (let (i, result) = flush w (ingester r)
      in r\<lparr>ingester := i,
           flushes := flushes r @ (if result = NothingToFlush then []
             else [\<lparr>fb_pairs = eventBuffer (ingester r), fb_world = w, fb_result = result\<rparr>])\<rparr>)"

definition ing_start :: "scoring_config \<Rightarrow> ing_run" where
  "ing_start cfg = \<lparr>ingester = \<lparr>config = cfg, eventBuffer = [],
       db = \<lparr>telemetry_events = [], submission_scores = Map.empty\<rparr>\<rparr>,
     redis = \<lparr>leaderboard = Map.empty, leaderboard_details = Map.empty, leaderboard_updates = []\<rparr>,
     handled = [], flushes = []\<rparr>"

text \<open>The pairs the database has been given, in the order of the commits.\<close>

definition written :: "ing_run \<Rightarrow> EventScorePair list" where
  "written r = concat (map (\<lambda>f. concat (replicate (copies (fb_world f)) (fb_pairs f))) (flushes r))"

definition ing_after :: "scoring_config \<Rightarrow> ing_event list \<Rightarrow> ing_run" where
  "ing_after cfg evs = fold ing_step evs (ing_start cfg)"

lemma ing_after_snoc: "ing_after cfg (evs @ [e]) = ing_step e (ing_after cfg evs)"
  by (simp add: ing_after_def)

lemma Handle_fst: "fst (Handle stamp ok e (i, b)) = i\<lparr>eventBuffer := eventBuffer i @ [(e, computeScore (config i) e)]\<rparr>"
  by (auto simp: Handle_def Let_def split: prod.splits)

lemma Handle_snd: "snd (Handle stamp ok e (i, b)) = snd (updateLeaderboard stamp ok e (computeScore (config i) e) b)"
  by (auto simp: Handle_def Let_def split: prod.splits)

lemma ing_arrives:
  "ing_step (Arrives stamp ok e) r =
    r\<lparr>ingester := (ingester r)\<lparr>eventBuffer := eventBuffer (ingester r) @ [(e, computeScore (config (ingester r)) e)]\<rparr>,
      redis := snd (updateLeaderboard stamp ok e (computeScore (config (ingester r)) e) (redis r)),
      handled := handled r @ [(e, computeScore (config (ingester r)) e)]\<rparr>"
  using Handle_fst[of stamp ok e "ingester r" "redis r"] Handle_snd[of stamp ok e "ingester r" "redis r"]
  by (cases "Handle stamp ok e (ingester r, redis r)") simp

text \<open>The rows a list of written pairs leaves: the events in order, and one score row per submission.\<close>

lemma writeBatch_events: "telemetry_events (writeBatch f ps t) = telemetry_events t @ map telemetry_row_of ps"
  by (induction f ps t rule: writeBatch.induct) simp_all

definition of_submission :: "string \<Rightarrow> EventScorePair list \<Rightarrow> EventScorePair list" where
  "of_submission k ps = filter (\<lambda>p. SubmissionId (fst p) = k) ps"

text \<open>What the score row of a submission says, its time apart: the last pair, under the first team name.\<close>

definition scores_ok :: "EventScorePair list \<Rightarrow> (string \<rightharpoonup> score_row) \<Rightarrow> bool" where
  "scores_ok ps scores \<longleftrightarrow> (\<forall>k. case scores k of
       None \<Rightarrow> of_submission k ps = []
     | Some row \<Rightarrow> of_submission k ps \<noteq> [] \<and>
         row\<lparr>sr_scored_at := 0\<rparr> = (score_row_of (last (of_submission k ps)) 0)
           \<lparr>sr_team := TeamName (fst (hd (of_submission k ps)))\<rparr>)"

lemma scores_ok_upsert:
  assumes "scores_ok ps scores"
  shows "scores_ok (ps @ [p]) (upsert (SubmissionId (fst p)) (score_row_of p scored) scores)"
proof -
  obtain e score where p: "p = (e, score)" by (cases p)
  have old: "case scores k of None \<Rightarrow> of_submission k ps = []
     | Some row \<Rightarrow> of_submission k ps \<noteq> [] \<and>
         row\<lparr>sr_scored_at := 0\<rparr> = (score_row_of (last (of_submission k ps)) 0)
           \<lparr>sr_team := TeamName (fst (hd (of_submission k ps)))\<rparr>" for k
    using assms by (simp add: scores_ok_def)
  have team: "sr_team row = TeamName (fst (hd (of_submission k ps)))" if "scores k = Some row" for k row
    using old[of k] that by (cases row) (auto simp: score_row_of_def split: prod.splits)
  show ?thesis
    unfolding scores_ok_def
  proof
    fix k
    show "case upsert (SubmissionId (fst p)) (score_row_of p scored) scores k of
        None \<Rightarrow> of_submission k (ps @ [p]) = []
      | Some row \<Rightarrow> of_submission k (ps @ [p]) \<noteq> [] \<and>
          row\<lparr>sr_scored_at := 0\<rparr> = (score_row_of (last (of_submission k (ps @ [p]))) 0)
            \<lparr>sr_team := TeamName (fst (hd (of_submission k (ps @ [p]))))\<rparr>"
    proof (cases "SubmissionId e = k")
      case True
      show ?thesis
        using old[of k] team[of k] True
        by (cases "scores k") (auto simp: p upsert_def of_submission_def score_row_of_def hd_append)
    next
      case False
      then have eq: "of_submission k (ps @ [p]) = of_submission k ps" by (simp add: p of_submission_def)
      show ?thesis unfolding eq using old[of k] False by (simp add: p upsert_def)
    qed
  qed
qed

lemma writeBatch_scores:
  "scores_ok ps0 (submission_scores t) \<Longrightarrow> scores_ok (ps0 @ ps) (submission_scores (writeBatch f ps t))"
proof (induction ps arbitrary: ps0 t)
  case (Cons p ps)
  let ?t = "t\<lparr>telemetry_events := telemetry_events t @ [telemetry_row_of p],
      submission_scores := upsert (SubmissionId (fst p)) (score_row_of p (f p)) (submission_scores t)\<rparr>"
  have "scores_ok (ps0 @ [p]) (submission_scores ?t)"
    using scores_ok_upsert[OF Cons.prems, of p "f p"] by simp
  from Cons.IH[OF this] show ?case by simp
qed simp

text \<open>What the attempts of a flush leave in the tables.\<close>

lemma send_batches:
  shows "telemetry_events (fold (send_batch w ps) js t) =
      telemetry_events t @ map telemetry_row_of (concat (replicate (length (filter (committed w) js)) ps))"
    and "scores_ok ps0 (submission_scores t) \<Longrightarrow>
      scores_ok (ps0 @ concat (replicate (length (filter (committed w) js)) ps))
        (submission_scores (fold (send_batch w ps) js t))"
proof (induction js arbitrary: t ps0)
  case (Cons j js)
  { case 1 show ?case using Cons(1)[of "send_batch w ps j t"] by (simp add: send_batch_def writeBatch_events) }
  { case 2 show ?case
    proof (cases "committed w j")
      case True
      then show ?thesis using Cons(2)[of "ps0 @ ps" "send_batch w ps j t"] writeBatch_scores[OF 2, of ps "clock_at w j"]
        by (simp add: send_batch_def)
    next
      case False
      then show ?thesis using Cons(2)[OF 2] by (simp add: send_batch_def)
    qed }
qed simp_all

text \<open>The accounts of a run.\<close>

definition run_ok :: "ing_run \<Rightarrow> bool" where
  "run_ok r \<longleftrightarrow>
     handled r = concat (map fb_pairs (flushes r)) @ eventBuffer (ingester r) \<and>
     telemetry_events (db (ingester r)) = map telemetry_row_of (written r) \<and>
     scores_ok (written r) (submission_scores (db (ingester r))) \<and>
     (\<forall>f \<in> set (flushes r). truthful (fb_world f) \<longrightarrow>
       copies (fb_world f) = (if fb_result f = Flushed then 1 else 0))"

lemma run_ok_start: "run_ok (ing_start cfg)"
  by (simp add: run_ok_def ing_start_def scores_ok_def of_submission_def written_def)

lemma run_ok_step: "run_ok r \<Longrightarrow> run_ok (ing_step e r)"
proof (induction e r rule: ing_step.induct)
  case (1 stamp ok e r)
  then show ?case unfolding run_ok_def ing_arrives by (simp add: written_def)
next
  case (2 w r)
  obtain i res where f: "flush w (ingester r) = (i, res)" by (cases "flush w (ingester r)")
  note fr = flush_result[OF f] and sb = send_batches[where js = "attempts_made w 0 3" and w = w, folded copies_def]
  show ?case
  proof (cases "res = NothingToFlush")
    case True
    then show ?thesis using 2 fr f by (auto simp: run_ok_def written_def)
  next
    case False
    then show ?thesis
      using 2 fr f sb(1)[of "eventBuffer (ingester r)" "db (ingester r)"]
        sb(2)[of "written r" "db (ingester r)" "eventBuffer (ingester r)"]
      by (auto simp: run_ok_def written_def)
  qed
qed

lemma run_ok_after: "run_ok (ing_after cfg evs)"
  by (induction evs rule: rev_induct) (simp_all add: ing_after_def run_ok_start run_ok_step)

text \<open>The leaderboard: the sorted set and the hash agree.\<close>

definition board_ok :: "board \<Rightarrow> bool" where
  "board_ok b \<longleftrightarrow> (\<forall>k. case leaderboard_details b k of
       None \<Rightarrow> leaderboard b k = None
     | Some e \<Rightarrow> le_SubmissionID e = k \<and> marshals e \<and> leaderboard b k = Some (fmul (le_Score e) (Fin 1000)) \<and>
         e \<in> set (leaderboard_updates b))"

lemma board_ok_update: "board_ok b \<Longrightarrow> board_ok (snd (updateLeaderboard stamp ok e score b))"
proof -
  assume b: "board_ok b"
  let ?e = "entry_of stamp e score"
  show ?thesis
  proof (cases "marshals ?e \<and> ok")
    case False
    with b show ?thesis by (auto simp: updateLeaderboard_def Let_def)
  next
    case True
    have "le_SubmissionID ?e = SubmissionId e" "le_Score ?e = score" by (simp_all add: entry_of_def)
    moreover have "case leaderboard_details b k of
        None \<Rightarrow> leaderboard b k = None
      | Some e \<Rightarrow> le_SubmissionID e = k \<and> marshals e \<and> leaderboard b k = Some (fmul (le_Score e) (Fin 1000)) \<and>
          e \<in> set (leaderboard_updates b)" for k using b unfolding board_ok_def by blast
    ultimately show ?thesis unfolding board_ok_def
    proof (intro allI, goal_cases)
      case (1 k)
      show ?case using 1(3)[of k] 1(1,2) True
        by (cases "leaderboard_details b k") (auto simp: updateLeaderboard_def Let_def)
    qed
  qed
qed

lemma board_ok_after: "board_ok (redis (ing_after cfg evs))"
proof (induction evs rule: rev_induct)
  case Nil
  show ?case by (simp add: ing_after_def ing_start_def board_ok_def)
next
  case (snoc e evs)
  show ?case
  proof (cases e)
    case (Arrives stamp ok ev)
    show ?thesis unfolding ing_after_snoc Arrives ing_arrives using board_ok_update[OF snoc] by simp
  next
    case (FlushTick w)
    with snoc show ?thesis unfolding ing_after_snoc by (simp add: Let_def split: prod.splits)
  qed
qed

section \<open>Properties\<close>

definition demo_config :: scoring_config where
  "demo_config = \<lparr>maxAcceptableLatencyUS = Fin 50000, maxAcceptableTPS = Fin 1000\<rparr>"

definition demo_event :: "string \<Rightarrow> string \<Rightarrow> float64 \<Rightarrow> BotMetricsEvent" where
  "demo_event sub team tps = \<lparr>SubmissionId = sub, TeamName = team, TestRunId = sub, EmittedAt = 1, Tps = tps,
     AckP50Us = 100, AckP90Us = 200, AckP99Us = 400, OrdersSent = 10, RejectsRecv = 0, DurationMs = 1000,
     CorrectnessScore = Fin 1\<rparr>"

text \<open>C13: The composite score is a number between 0 and 1: for a configuration that \<open>NewIngester\<close>
  accepts with a latency limit that is not NaN and a finite positive TPS ceiling, and an event
  with a finite TPS and a correctness that is not NaN, rounding included.\<close>

theorem composite_score_in_unit:
  assumes "int64_range (AckP50Us e)" "int64_range (AckP90Us e)" "int64_range (AckP99Us e)"
    "maxAcceptableLatencyUS cfg \<noteq> NaN" "\<not> config_refused cfg"
    "is_fin (Tps e)" "maxAcceptableTPS cfg = Fin m" "0 < m" "CorrectnessScore e \<noteq> NaN"
  shows "\<exists>r. computeScore cfg e = Fin r \<and> 0 \<le> r \<and> r \<le> 1"
  using computeScore_unit[OF assms] by (simp add: unit_float_def)

theorem composite_score_in_unit_witness:
  "\<exists>r. computeScore demo_config (demo_event ''s'' ''t'' (Fin 500)) = Fin r \<and> 0 \<le> r \<and> r \<le> 1"
  by (rule composite_score_in_unit[where m = 1000])
    (simp_all add: demo_config_def demo_event_def int64_range_def config_refused_def fle_def feq_def)

text \<open>Two configurations that \<open>NewIngester\<close> accepts give scores that are no number: a latency
  limit that is NaN (no comparison with 0 refuses it) makes every score NaN, and a TPS ceiling of
  0 makes the score of an event with no throughput NaN; such an event never reaches the
  leaderboard, because its entry does not marshal.\<close>

lemma accepted_config_nan_score:
  "(maxAcceptableLatencyUS cfg = NaN \<longrightarrow> \<not> config_refused cfg \<and> computeScore cfg e = NaN) \<and>
   (maxAcceptableTPS cfg = Fin 0 \<and> Tps e = Fin 0 \<longrightarrow> computeScore cfg e = NaN) \<and>
   (computeScore cfg e = NaN \<longrightarrow>
     updateLeaderboard stamp ok e (computeScore cfg e) b = (Some MarshalFailed, b))"
proof (intro conjI impI)
  assume "maxAcceptableLatencyUS cfg = NaN"
  then show "\<not> config_refused cfg" "computeScore cfg e = NaN"
    by (simp_all add: config_refused_def fle_def feq_def computeScore_def latencyScore_def fdiv_def fsub_def
        fadd_def fmin_def fmax_def fmul_def)
next
  assume "maxAcceptableTPS cfg = Fin 0 \<and> Tps e = Fin 0"
  then show "computeScore cfg e = NaN"
    by (simp add: computeScore_def throughputScore_def fdiv_def fadd_def fmin_def fmax_def fmul_def)
qed (simp add: updateLeaderboard_def Let_def marshals_def entry_of_def)

text \<open>C14: What becomes of every scored event. After any run the scored events, in the order of
  their arrival, are the batches of the flushes followed by the buffer, so that each is in exactly
  one flush or still waiting. The telemetry rows are those of the batches in the order of the
  flushes, each batch as often as the database committed one of its at most three attempts. For a
  flush whose attempts were each told the truth that is once when it ended well and never when it
  was cancelled or given up; a commit whose answer is lost makes it more (the rows are inserted
  again, or are there although the flush is logged as dropped), and a commit that fails unseen
  makes it none. The score row of a submission shows its last written pair, under the team name of
  its first.\<close>

theorem ingester_accounts:
  defines "r \<equiv> ing_after"
  shows "handled (r cfg evs) = concat (map fb_pairs (flushes (r cfg evs))) @ eventBuffer (ingester (r cfg evs)) \<and>
    telemetry_events (db (ingester (r cfg evs))) = map telemetry_row_of
      (concat (map (\<lambda>f. concat (replicate (copies (fb_world f)) (fb_pairs f))) (flushes (r cfg evs)))) \<and>
    (\<forall>f \<in> set (flushes (r cfg evs)). copies (fb_world f) \<le> 3 \<and>
       (truthful (fb_world f) \<longrightarrow> copies (fb_world f) = (if fb_result f = Flushed then 1 else 0))) \<and>
    (case submission_scores (db (ingester (r cfg evs))) k of
       None \<Rightarrow> of_submission k (written (r cfg evs)) = []
     | Some row \<Rightarrow> \<exists>e score. (e, score) = last (of_submission k (written (r cfg evs))) \<and>
         sr_composite row = score \<and> sr_p99 row = AckP99Us e \<and> sr_tps row = Tps e \<and>
         sr_team row = TeamName (fst (hd (of_submission k (written (r cfg evs))))))"
proof -
  have ok: "run_ok (r cfg evs)" unfolding r_def by (rule run_ok_after)
  then have s: "scores_ok (written (r cfg evs)) (submission_scores (db (ingester (r cfg evs))))"
    by (simp add: run_ok_def)
  have "case submission_scores (db (ingester (r cfg evs))) k of
       None \<Rightarrow> of_submission k (written (r cfg evs)) = []
     | Some row \<Rightarrow> \<exists>e score. (e, score) = last (of_submission k (written (r cfg evs))) \<and>
         sr_composite row = score \<and> sr_p99 row = AckP99Us e \<and> sr_tps row = Tps e \<and>
         sr_team row = TeamName (fst (hd (of_submission k (written (r cfg evs)))))"
  proof (cases "submission_scores (db (ingester (r cfg evs))) k")
    case (Some row)
    obtain e score where l: "last (of_submission k (written (r cfg evs))) = (e, score)" by fastforce
    have "row\<lparr>sr_scored_at := 0\<rparr> = (score_row_of (e, score) 0)
           \<lparr>sr_team := TeamName (fst (hd (of_submission k (written (r cfg evs)))))\<rparr>"
      using s[unfolded scores_ok_def, rule_format, of k] Some l by simp
    then show ?thesis using Some l by (cases row) (auto simp: score_row_of_def)
  qed (use s[unfolded scores_ok_def, rule_format, of k] in simp)
  with ok copies_bound show ?thesis unfolding run_ok_def written_def[symmetric] by blast
qed

text \<open>An event whose first batch is refused and whose second goes through: one flush, one row.\<close>

definition refused_then_written :: flush_world where
  "refused_then_written = \<lparr>ctx_done = (\<lambda>_. False), committed = (\<lambda>k. k = 1), answered = (\<lambda>k. k = 1),
     clock_at = (\<lambda>_ _. 7)\<rparr>"

text \<open>The first batch is committed, but its answer is lost.\<close>

definition answer_lost_once :: flush_world where
  "answer_lost_once = refused_then_written\<lparr>committed := (\<lambda>_. True)\<rparr>"

text \<open>Every batch is committed, and no answer comes.\<close>

definition no_answer :: flush_world where
  "no_answer = answer_lost_once\<lparr>answered := (\<lambda>_. False)\<rparr>"

definition one_flush :: "flush_world \<Rightarrow> ing_run" where
  "one_flush w = ing_after demo_config [Arrives [] True (demo_event ''s'' ''t'' (Fin 500)), FlushTick w]"

lemma one_flush_result: "map fb_world (flushes (one_flush w)) = [w]"
  "map fb_result (flushes (one_flush w)) = [snd (flush_attempts w 0 3 [(demo_event ''s'' ''t'' (Fin 500),
     computeScore demo_config (demo_event ''s'' ''t'' (Fin 500)))] \<lparr>telemetry_events = [], submission_scores = Map.empty\<rparr>)]"
proof -
  note fr = flush_attempts_result[of w 0 3 "[(demo_event ''s'' ''t'' (Fin 500),
    computeScore demo_config (demo_event ''s'' ''t'' (Fin 500)))]" "\<lparr>telemetry_events = [], submission_scores = Map.empty\<rparr>"]
  show "map fb_world (flushes (one_flush w)) = [w]"
    and "map fb_result (flushes (one_flush w)) = [snd (flush_attempts w 0 3 [(demo_event ''s'' ''t'' (Fin 500),
     computeScore demo_config (demo_event ''s'' ''t'' (Fin 500)))] \<lparr>telemetry_events = [], submission_scores = Map.empty\<rparr>)]"
    using fr
    by (auto simp: one_flush_def ing_after_def ing_arrives ing_start_def flush_def Let_def
        simp del: ing_step.simps(1) split: prod.splits)
qed

text \<open>What lost answers do: a flush that ends well leaves the row of its one event twice, and one
  that is logged as dropped leaves it three times.\<close>

lemma lost_answer_duplicates:
  "map fb_result (flushes (one_flush answer_lost_once)) = [Flushed] \<and>
   length (telemetry_events (db (ingester (one_flush answer_lost_once)))) = 2"
  "map fb_result (flushes (one_flush no_answer)) = [FlushDropped] \<and>
   length (telemetry_events (db (ingester (one_flush no_answer)))) = 3"
  by (simp_all add: one_flush_def ing_after_def ing_arrives ing_start_def flush_def Let_def numeral_3_eq_3
      send_batch_def answer_lost_once_def no_answer_def refused_then_written_def del: ing_step.simps(1))

theorem ingester_accounts_witness:
  "length (telemetry_events (db (ingester (one_flush refused_then_written)))) = 1"
proof -
  let ?r = "one_flush refused_then_written"
  have w: "truthful refused_then_written"
    by (simp add: truthful_def refused_then_written_def numeral_3_eq_3)
  have res: "map fb_result (flushes ?r) = [Flushed]"
    by (simp add: one_flush_result refused_then_written_def numeral_3_eq_3 Let_def)
  obtain f where f: "flushes ?r = [f]" "fb_world f = refused_then_written" "fb_result f = Flushed"
    using one_flush_result(1)[of refused_then_written] res by auto
  have "eventBuffer (ingester ?r) = []" "length (handled ?r) = 1"
    by (simp_all add: one_flush_def ing_after_def ing_arrives ing_start_def flush_def Let_def
        del: ing_step.simps(1) split: prod.splits)
  with f w ingester_accounts[of demo_config "[Arrives [] True (demo_event ''s'' ''t'' (Fin 500)), FlushTick refused_then_written]"]
  show ?thesis unfolding one_flush_def[symmetric] by simp
qed

text \<open>\<open>Close\<close> loses the buffer. The ingester is closed when its consumer has returned, which is
  when the lifecycle context is done, and the last flush runs under that context: whatever the
  database would do, nothing is written and the buffer is empty.\<close>

lemma close_drops_buffer:
  "db (Close True w i) = db i \<and> eventBuffer (Close True w i) = []"
proof -
  obtain i' r where f: "flush (under_ctx True w) i = (i', r)" by (cases "flush (under_ctx True w) i")
  have "db i' = db i"
    using f by (auto simp: flush_def Let_def under_ctx_def send_batch_def numeral_3_eq_3 split: if_splits)
  with flush_result[OF f] f show ?thesis by (simp add: Close_def)
qed

text \<open>C15: The two Redis structures of the leaderboard agree after any run: a submission is in the
  sorted set exactly when it has details, its score there is a thousand times the score of its
  details (as doubles), the details are its own, are finite, and were published.\<close>

theorem leaderboard_consistent:
  "case leaderboard_details (redis (ing_after cfg evs)) k of
     None \<Rightarrow> leaderboard (redis (ing_after cfg evs)) k = None
   | Some e \<Rightarrow> le_SubmissionID e = k \<and> is_fin (le_Score e) \<and>
       leaderboard (redis (ing_after cfg evs)) k = Some (fmul (le_Score e) (Fin 1000)) \<and>
       e \<in> set (leaderboard_updates (redis (ing_after cfg evs)))"
  using board_ok_after[of cfg evs] unfolding board_ok_def marshals_def
  by (auto split: option.splits dest: spec[of _ k])

end
