(* ===== verification/LeaderboardWs.thy ===== *)
theory LeaderboardWs
  imports Ingester
begin

text \<open>
  The reading side of the leaderboard (\<open>services/leaderboard-ws\<close>): \<open>leaderboardHandler\<close> answers
  \<open>GET /api/leaderboard\<close>, \<open>buildSnapshot\<close> makes the first message of a WebSocket. Redis is a
  parameter: the answer to \<open>ZREVRANGE\<close> is a list of members with scores, \<open>HGET\<close> gives nothing (or an
  error), text that is no entry, or an entry. The contract between the two services is the
  locale \<open>leaderboard_store\<close>.
\<close>

section \<open>Entries and members\<close>

record ranked_entry = leaderboardEntry +
  le_Rank :: int

text \<open>\<open>Member\<close> is an interface value; \<open>None\<close> stands for one that is no string.\<close>

record zmember =
  z_Member :: "string option"
  z_Score :: float64

datatype hget_result = NoBlob | BadBlob | Blob ranked_entry

datatype 'a redis_reply = RedisDown | Reply 'a

text \<open>\<open>strings.SplitN(s, ":", 2)\<close>.\<close>

definition SplitN2 :: "string \<Rightarrow> string list" where
  "SplitN2 s = (if CHR '':'' \<in> set s
     then [takeWhile (\<lambda>c. c \<noteq> CHR '':'') s, tl (dropWhile (\<lambda>c. c \<noteq> CHR '':'') s)] else [s])"

definition minimal_entry :: "string list \<Rightarrow> float64 \<Rightarrow> int \<Rightarrow> ranked_entry" where
  "minimal_entry parts score rank =
     \<lparr>le_SubmissionID = parts ! 0, le_TeamName = (if length parts = 2 then parts ! 1 else []),
      le_Score = fdiv score (Fin 1000), le_TPS = Fin 0, le_AckP50US = 0, le_AckP90US = 0, le_AckP99US = 0,
      le_OrdersSent = 0, le_RejectsRecv = 0, le_Correctness = Fin 0, le_DurationMS = 0, le_Timestamp = [],
      le_Rank = rank\<rparr>"

section \<open>The two readers\<close>

text \<open>
  \<open>leaderboardHandler\<close> asks for the details of one member after the other; \<open>hget i\<close> is what Redis
  holds when it asks for member \<open>i\<close>. \<open>entries_from\<close> is its loop.
\<close>

fun entries_from :: "(nat \<Rightarrow> string \<Rightarrow> hget_result) \<Rightarrow> nat \<Rightarrow> zmember list \<Rightarrow> ranked_entry list" where
  "entries_from hget rank [] = []"
| "entries_from hget rank (z # zs) =
     (case z_Member z of
        None \<Rightarrow> entries_from hget (rank + 1) zs
      | Some memberStr \<Rightarrow>
          let submissionID = SplitN2 memberStr ! 0
          in case hget rank submissionID of
               NoBlob \<Rightarrow> minimal_entry (SplitN2 memberStr) (z_Score z) (int rank + 1) # entries_from hget (rank + 1) zs
             | BadBlob \<Rightarrow> entries_from hget (rank + 1) zs
             | Blob entry \<Rightarrow> entry\<lparr>le_Rank := int rank + 1\<rparr> # entries_from hget (rank + 1) zs)"

text \<open>Encoding fails on a number that is not finite; the handler then writes nothing.\<close>

definition entry_marshals :: "ranked_entry \<Rightarrow> bool" where
  "entry_marshals e \<longleftrightarrow> is_fin (le_Score e) \<and> is_fin (le_TPS e) \<and> is_fin (le_Correctness e)"

datatype http_reply = InternalError | NothingWritten | JsonArray "ranked_entry list"

definition leaderboardHandler :: "zmember list redis_reply \<Rightarrow> (nat \<Rightarrow> string \<Rightarrow> hget_result) \<Rightarrow> http_reply" where
  "leaderboardHandler zrev hget =
     (case zrev of
        RedisDown \<Rightarrow> InternalError
      | Reply ms \<Rightarrow>
          let entries = entries_from hget 0 ms
          in if list_all entry_marshals entries then JsonArray entries else NothingWritten)"

text \<open>
  \<open>buildSnapshot\<close> fetches all details in one pipeline first: a command for every member that is a
  string, then a second loop over the members reads the results.
\<close>

definition queue_cmds :: "(string \<Rightarrow> hget_result) \<Rightarrow> zmember list \<Rightarrow> hget_result option list" where
  "queue_cmds hget ms = map (\<lambda>z. map_option (\<lambda>m. hget (SplitN2 m ! 0)) (z_Member z)) ms"

fun read_cmds :: "hget_result option list \<Rightarrow> nat \<Rightarrow> zmember list \<Rightarrow> ranked_entry list" where
  "read_cmds cmds i [] = []"
| "read_cmds cmds i (z # zs) =
     (case z_Member z of
        None \<Rightarrow> read_cmds cmds (i + 1) zs
      | Some memberStr \<Rightarrow>
          (case cmds ! i of
             Some BadBlob \<Rightarrow> read_cmds cmds (i + 1) zs
           | Some (Blob entry) \<Rightarrow> entry\<lparr>le_Rank := int i + 1\<rparr> # read_cmds cmds (i + 1) zs
           | _ \<Rightarrow> minimal_entry (SplitN2 memberStr) (z_Score z) (int i + 1) # read_cmds cmds (i + 1) zs))"

datatype snapshot_error = ZrevrangeFailed | SnapshotMarshal

definition buildSnapshot :: "zmember list redis_reply \<Rightarrow> (string \<Rightarrow> hget_result) \<Rightarrow> snapshot_error + ranked_entry list" where
  "buildSnapshot zrev hget =
     (case zrev of
        RedisDown \<Rightarrow> Inl ZrevrangeFailed
      | Reply ms \<Rightarrow>
          if ms = [] then Inr []
          else let entries = read_cmds (queue_cmds hget ms) 0 ms
               in if list_all entry_marshals entries then Inr entries else Inl SnapshotMarshal)"

section \<open>What they show\<close>

lemma SplitN2_plain: "CHR '':'' \<notin> set s \<Longrightarrow> SplitN2 s = [s]"
  by (simp add: SplitN2_def)

lemma SplitN2_pair: "CHR '':'' \<notin> set s \<Longrightarrow> SplitN2 (s @ CHR '':'' # t) = [s, t]"
  proof -
  assume s: "CHR '':'' \<notin> set s"
  then have "takeWhile (\<lambda>c. c \<noteq> CHR '':'') (s @ CHR '':'' # t) = s"
    "dropWhile (\<lambda>c. c \<noteq> CHR '':'') (s @ CHR '':'' # t) = CHR '':'' # t"
    by (induction s) auto
  then show ?thesis by (simp add: SplitN2_def)
qed

text \<open>What is shown of the member at place \<open>i\<close>: its details, or a minimal entry, with its place as rank.\<close>

definition shown :: "(string \<Rightarrow> hget_result) \<Rightarrow> nat \<Rightarrow> zmember \<Rightarrow> ranked_entry option" where
  "shown hget i z =
     (case z_Member z of None \<Rightarrow> None
      | Some m \<Rightarrow> (case hget (SplitN2 m ! 0) of
          NoBlob \<Rightarrow> Some (minimal_entry (SplitN2 m) (z_Score z) (int i + 1))
        | BadBlob \<Rightarrow> None
        | Blob e \<Rightarrow> Some (e\<lparr>le_Rank := int i + 1\<rparr>)))"

lemma entries_from_shown:
  "entries_from hget k ms = List.map_filter (\<lambda>(i, z). shown (hget i) i z) (List.enumerate k ms)"
  by (induction ms arbitrary: k)
    (auto simp: shown_def Let_def List.map_filter_simps split: option.splits hget_result.splits)

lemma read_cmds_shown:
  "length pre = i \<Longrightarrow> read_cmds (pre @ queue_cmds hget ms) i ms = entries_from (\<lambda>_. hget) i ms"
proof (induction ms arbitrary: pre i)
  case (Cons z zs)
  let ?c = "map_option (\<lambda>m. hget (SplitN2 m ! 0)) (z_Member z)"
  have q: "pre @ queue_cmds hget (z # zs) = (pre @ [?c]) @ queue_cmds hget zs" by (simp add: queue_cmds_def)
  have nth: "((pre @ [?c]) @ queue_cmds hget zs) ! i = ?c" using Cons.prems by (simp add: nth_append)
  have IH: "read_cmds ((pre @ [?c]) @ queue_cmds hget zs) (i + 1) zs = entries_from (\<lambda>_. hget) (i + 1) zs"
    by (rule Cons.IH) (use Cons.prems in simp)
  show ?case unfolding q read_cmds.simps entries_from.simps nth IH
    by (simp add: Let_def split: option.splits hget_result.splits)
qed simp

lemma shown_rank: "shown h i z = Some e \<Longrightarrow> le_Rank e = int i + 1"
  by (auto simp: shown_def minimal_entry_def split: option.splits hget_result.splits)

lemma entries_from_ranks:
  "sorted_wrt (<) (map le_Rank (entries_from hget k ms)) \<and>
   (\<forall>e \<in> set (entries_from hget k ms). int k < le_Rank e \<and> le_Rank e \<le> int k + int (length ms))"
proof (induction ms arbitrary: k)
  case (Cons z zs)
  have "entries_from hget k (z # zs) =
      (case shown (hget k) k z of None \<Rightarrow> [] | Some e \<Rightarrow> [e]) @ entries_from hget (Suc k) zs"
    by (simp add: entries_from_shown List.map_filter_simps split: option.splits)
  with Cons.IH[of "Suc k"] shown_rank[of "hget k" k z] show ?case
    by (fastforce split: option.splits)
qed simp

section \<open>The contract with the ingester\<close>

text \<open>
  What \<open>ZREVRANGE 0 -1 WITHSCORES\<close> promises of a sorted set: every member once, with its score, the
  larger scores first. \<open>decode_details\<close> reads back what the ingester encoded; it wrote no rank.
\<close>

definition is_zrevrange :: "(string \<rightharpoonup> float64) \<Rightarrow> zmember list \<Rightarrow> bool" where
  "is_zrevrange lb ms \<longleftrightarrow>
     (\<exists>ks. map z_Member ms = map Some ks \<and> distinct ks \<and> set ks = dom lb \<and>
        map (\<lambda>z. Some (z_Score z)) ms = map lb ks) \<and>
     sorted_wrt (\<lambda>z w. fle (z_Score w) (z_Score z)) ms"

definition with_rank :: "leaderboardEntry \<Rightarrow> int \<Rightarrow> ranked_entry" where
  "with_rank e r = leaderboardEntry.extend e \<lparr>le_Rank = r\<rparr>"

lemma with_rank_simps [simp]:
  "le_SubmissionID (with_rank e r) = le_SubmissionID e" "le_Score (with_rank e r) = le_Score e"
  "le_TPS (with_rank e r) = le_TPS e" "le_Correctness (with_rank e r) = le_Correctness e"
  "le_Rank (with_rank e r) = r" "(with_rank e r)\<lparr>le_Rank := q\<rparr> = with_rank e q"
  by (simp_all add: with_rank_def leaderboardEntry.defs)

definition decode_details :: "(string \<rightharpoonup> leaderboardEntry) \<Rightarrow> string \<Rightarrow> hget_result" where
  "decode_details det k = (case det k of None \<Rightarrow> NoBlob | Some e \<Rightarrow> Blob (with_rank e 0))"

locale leaderboard_store =
  fixes lb :: "string \<rightharpoonup> float64" and det :: "string \<rightharpoonup> leaderboardEntry"
  assumes same_members: "dom lb = dom det"
    and own_details: "det k = Some e \<Longrightarrow> le_SubmissionID e = k"
    and same_score: "det k = Some e \<Longrightarrow> lb k = Some (fmul (le_Score e) (Fin 1000))"
    and encodes: "det k = Some e \<Longrightarrow> marshals e"
begin

lemma entries_of_store:
  assumes "map z_Member ms = map Some ks" "set ks \<subseteq> dom lb" and no_colon: "\<forall>k \<in> dom lb. CHR '':'' \<notin> set k"
  shows "entries_from (\<lambda>_. decode_details det) i ms =
    map (\<lambda>(j, k). with_rank (the (det k)) (int j + 1)) (List.enumerate i ks)"
  using assms(1,2)
proof (induction ms arbitrary: ks i)
  case (Cons z zs)
  then obtain k ks' where ks: "ks = k # ks'" "z_Member z = Some k" "map z_Member zs = map Some ks'"
    by (cases ks) auto
  with Cons.prems(2) have k: "k \<in> dom lb" by simp
  then obtain e where e: "det k = Some e" using same_members by auto
  have "shown (decode_details det) i z = Some (with_rank (the (det k)) (int i + 1))"
    using ks(2) e k no_colon by (simp add: shown_def SplitN2_plain decode_details_def)
  then show ?case using Cons.IH[OF ks(3)] Cons.prems(2) ks(1)
    by (simp add: entries_from_shown List.map_filter_simps)
qed simp

text \<open>Every submission is shown once, with its own details, in the order of the scores.\<close>

lemma handler_shows_store:
  assumes "is_zrevrange lb ms" "\<forall>k \<in> dom lb. CHR '':'' \<notin> set k"
  shows "\<exists>es. leaderboardHandler (Reply ms) (\<lambda>_. decode_details det) = JsonArray es \<and>
    map le_Rank es = map int [1..<length es + 1] \<and> distinct (map le_SubmissionID es) \<and>
    le_SubmissionID ` set es = dom lb \<and>
    (\<forall>e \<in> set es. \<exists>d. det (le_SubmissionID e) = Some d \<and> e = with_rank d (le_Rank e)) \<and>
    sorted_wrt (\<lambda>a b. fle (fmul (le_Score b) (Fin 1000)) (fmul (le_Score a) (Fin 1000))) es"
proof -
  obtain ks where ks: "map z_Member ms = map Some ks" "distinct ks" "set ks = dom lb"
    "map (\<lambda>z. Some (z_Score z)) ms = map lb ks" using assms(1) by (auto simp: is_zrevrange_def)
  let ?es = "map (\<lambda>(j, k). with_rank (the (det k)) (int j + 1)) (List.enumerate 0 ks)"
  have es: "entries_from (\<lambda>_. decode_details det) 0 ms = ?es" by (rule entries_of_store) (use ks assms(2) in simp_all)
  have det: "\<exists>e. det k = Some e \<and> le_SubmissionID e = k \<and> marshals e \<and> lb k = Some (fmul (le_Score e) (Fin 1000))"
    if "k \<in> set ks" for k
    using that ks(3) same_members own_details encodes same_score by auto
  have mem: "\<exists>d. x = with_rank d (le_Rank x) \<and> det (le_SubmissionID d) = Some d \<and> marshals d" if "x \<in> set ?es" for x
  proof -
    from that obtain n where n: "n < length ks" "x = with_rank (the (det (ks ! n))) (int n + 1)"
      by (auto simp: in_set_enumerate_eq)
    then have "ks ! n \<in> set ks" by simp
    from det[OF this] n(2) show ?thesis by auto
  qed
  have m: "list_all entry_marshals ?es"
    unfolding list_all_iff
  proof
    fix x assume "x \<in> set ?es"
    from mem[OF this] obtain d where "x = with_rank d (le_Rank x)" "marshals d" by blast
    then show "entry_marshals x" unfolding entry_marshals_def marshals_def by (metis with_rank_simps(2-4))
  qed
  have nth: "?es ! n = with_rank (the (det (ks ! n))) (int n + 1)" if "n < length ks" for n
    using that by (simp add: nth_enumerate_eq)
  have ids: "map le_SubmissionID ?es = ks"
  proof (rule nth_equalityI)
    fix n assume "n < length (map le_SubmissionID ?es)"
    then have n: "n < length ks" by simp
    then have "ks ! n \<in> set ks" by simp
    from det[OF this] n show "map le_SubmissionID ?es ! n = ks ! n" by (auto simp: nth_enumerate_eq)
  qed simp
  have "sorted_wrt (\<lambda>a b. fle (fmul (le_Score b) (Fin 1000)) (fmul (le_Score a) (Fin 1000))) ?es"
    unfolding sorted_wrt_iff_nth_less
  proof (intro allI impI)
    fix i j assume ij: "i < j" "j < length ?es"
    then have l: "i < length ms" "j < length ms" using arg_cong[OF ks(1), of length] by auto
    have sc: "Some (z_Score (ms ! n)) = lb (ks ! n)" if "n < length ms" for n
      using arg_cong[OF ks(4), of "\<lambda>xs. xs ! n"] that arg_cong[OF ks(1), of length] by simp
    have v: "z_Score (ms ! n) = fmul (le_Score (?es ! n)) (Fin 1000)" if "n < length ms" for n
    proof -
      have n: "n < length ks" using that arg_cong[OF ks(1), of length] by simp
      then have "ks ! n \<in> set ks" by simp
      from det[OF this] sc[OF that] n show ?thesis by (auto simp: nth_enumerate_eq)
    qed
    have "fle (z_Score (ms ! j)) (z_Score (ms ! i))"
      using assms ij l by (simp add: is_zrevrange_def sorted_wrt_iff_nth_less)
    then show "fle (fmul (le_Score (?es ! j)) (Fin 1000)) (fmul (le_Score (?es ! i)) (Fin 1000))"
      using v l by simp
  qed
  moreover have "map le_Rank ?es = map int [1..<length ?es + 1]"
    by (intro nth_equalityI) (simp_all add: nth_enumerate_eq del: upt_Suc map_map)
  moreover have "\<forall>e \<in> set ?es. \<exists>d. det (le_SubmissionID e) = Some d \<and> e = with_rank d (le_Rank e)"
  proof
    fix x assume "x \<in> set ?es"
    from mem[OF this] show "\<exists>d. det (le_SubmissionID x) = Some d \<and> x = with_rank d (le_Rank x)"
      by (metis with_rank_simps(1))
  qed
  moreover have "distinct (map le_SubmissionID ?es)" "le_SubmissionID ` set ?es = dom lb"
    using ids ks(2,3) by (metis, metis list.set_map)
  ultimately show ?thesis
    using m by (intro exI[of _ ?es]) (simp add: leaderboardHandler_def es)
qed

end

text \<open>The ingester provides the contract after every run.\<close>

interpretation ingested: leaderboard_store "leaderboard (redis (ing_after cfg evs))"
    "leaderboard_details (redis (ing_after cfg evs))" for cfg evs
proof unfold_locales
  have ok: "case leaderboard_details (redis (ing_after cfg evs)) k of
      None \<Rightarrow> leaderboard (redis (ing_after cfg evs)) k = None
    | Some e \<Rightarrow> le_SubmissionID e = k \<and> marshals e \<and>
        leaderboard (redis (ing_after cfg evs)) k = Some (fmul (le_Score e) (Fin 1000)) \<and>
        e \<in> set (leaderboard_updates (redis (ing_after cfg evs)))" for k
    using board_ok_after[of cfg evs] unfolding board_ok_def by blast
  show "dom (leaderboard (redis (ing_after cfg evs))) = dom (leaderboard_details (redis (ing_after cfg evs)))"
  proof (rule set_eqI)
    fix k
    show "k \<in> dom (leaderboard (redis (ing_after cfg evs))) \<longleftrightarrow> k \<in> dom (leaderboard_details (redis (ing_after cfg evs)))"
      using ok[of k] by (auto split: option.splits)
  qed
  show "le_SubmissionID e = k" "leaderboard (redis (ing_after cfg evs)) k = Some (fmul (le_Score e) (Fin 1000))" "marshals e"
    if "leaderboard_details (redis (ing_after cfg evs)) k = Some e" for k e
    using ok[of k] that by simp_all
qed

section \<open>Properties\<close>

text \<open>C16: The page and the first WebSocket message agree: when Redis answers both with the same
  members and details, \<open>buildSnapshot\<close>, which fetches all details in one pipeline and reads them in a
  second loop, gives the entries of \<open>leaderboardHandler\<close>, and each fails exactly when the other does.\<close>

theorem snapshot_equals_page:
  "case buildSnapshot zrev hget of
     Inr es \<Rightarrow> leaderboardHandler zrev (\<lambda>_. hget) = JsonArray es
   | Inl ZrevrangeFailed \<Rightarrow> leaderboardHandler zrev (\<lambda>_. hget) = InternalError
   | Inl SnapshotMarshal \<Rightarrow> leaderboardHandler zrev (\<lambda>_. hget) = NothingWritten"
  using read_cmds_shown[of "[]" 0 hget]
  by (auto simp: buildSnapshot_def leaderboardHandler_def Let_def split: redis_reply.splits)

text \<open>C17: The page shows the ingester's leaderboard. After any run of the ingester whose
  submission ids hold no colon, the handler returns each submission exactly once, with the
  details of its last event, ranked 1, 2, 3 and so on by descending score.\<close>

theorem page_shows_leaderboard:
  assumes "is_zrevrange (leaderboard (redis (ing_after cfg evs))) ms"
    "\<forall>k \<in> dom (leaderboard (redis (ing_after cfg evs))). CHR '':'' \<notin> set k"
  shows "\<exists>es. leaderboardHandler (Reply ms) (\<lambda>_. decode_details (leaderboard_details (redis (ing_after cfg evs)))) = JsonArray es \<and>
    map le_Rank es = map int [1..<length es + 1] \<and> distinct (map le_SubmissionID es) \<and>
    le_SubmissionID ` set es = dom (leaderboard (redis (ing_after cfg evs))) \<and>
    (\<forall>e \<in> set es. \<exists>d. leaderboard_details (redis (ing_after cfg evs)) (le_SubmissionID e) = Some d \<and> e = with_rank d (le_Rank e)) \<and>
    sorted_wrt (\<lambda>a b. fle (fmul (le_Score b) (Fin 1000)) (fmul (le_Score a) (Fin 1000))) es"
  by (rule ingested.handler_shows_store[OF assms])

definition one_team :: ing_run where
  "one_team = ing_after demo_config [Arrives ''now'' True (demo_event ''s1'' ''t1'' (Fin 1000))]"

theorem page_shows_leaderboard_witness:
  "\<exists>score es. leaderboardHandler (Reply [\<lparr>z_Member = Some ''s1'', z_Score = score\<rparr>])
     (\<lambda>_. decode_details (leaderboard_details (redis one_team))) = JsonArray es \<and> map le_Rank es = map int [1..<length es + 1]"
proof -
  let ?ev = "demo_event ''s1'' ''t1'' (Fin 1000)"
  have "unit_float (computeScore demo_config ?ev)"
    by (rule computeScore_unit[where m = 1000])
      (simp_all add: demo_config_def demo_event_def int64_range_def config_refused_def fle_def feq_def)
  then have "marshals (entry_of ''now'' ?ev (computeScore demo_config ?ev))"
    by (auto simp: marshals_def entry_of_def unit_float_def demo_event_def fmax_def fmin_def feq_def)
  then have lb: "leaderboard (redis one_team) = [''s1'' \<mapsto> fmul (computeScore demo_config ?ev) (Fin 1000)]"
    unfolding one_team_def ing_after_def
    by (simp add: ing_arrives ing_start_def updateLeaderboard_def Let_def demo_event_def del: ing_step.simps)
  have "is_zrevrange (leaderboard (redis one_team))
      [\<lparr>z_Member = Some ''s1'', z_Score = fmul (computeScore demo_config ?ev) (Fin 1000)\<rparr>]"
    unfolding is_zrevrange_def lb by (simp add: exI[of _ "[''s1'']"])
  moreover have "\<forall>k \<in> dom (leaderboard (redis one_team)). CHR '':'' \<notin> set k" unfolding lb by simp
  ultimately show ?thesis unfolding one_team_def by (blast dest: page_shows_leaderboard)
qed

text \<open>Ranks on the page are strictly increasing and never exceed the number of members, whatever
  Redis holds; a member whose details cannot be read leaves a gap, so that the ranks of the
  others are their places in the sorted set.\<close>

lemma page_ranks:
  assumes "leaderboardHandler (Reply ms) hget = JsonArray es"
  shows "sorted_wrt (<) (map le_Rank es) \<and> (\<forall>e \<in> set es. 1 \<le> le_Rank e \<and> le_Rank e \<le> int (length ms)) \<and>
    (\<forall>e \<in> set es. shown (hget (nat (le_Rank e - 1))) (nat (le_Rank e - 1)) (ms ! nat (le_Rank e - 1)) = Some e)"
proof -
  have es: "es = entries_from hget 0 ms"
    using assms by (auto simp: leaderboardHandler_def Let_def split: if_splits)
  have "shown (hget (nat (le_Rank e - 1))) (nat (le_Rank e - 1)) (ms ! nat (le_Rank e - 1)) = Some e" if "e \<in> set es" for e
  proof -
    from that obtain i where i: "i < length ms" "shown (hget i) i (ms ! i) = Some e"
      unfolding es entries_from_shown List.map_filter_def by (auto simp: in_set_enumerate_eq)
    with shown_rank[OF i(2)] show ?thesis by simp
  qed
  with entries_from_ranks[of hget 0 ms] show ?thesis unfolding es by fastforce
qed

end
