(* ===== verification/LeaderboardHub.thy ===== *)
theory LeaderboardHub
  imports Prelude "HOL-Library.Sublist"
begin

text \<open>
  The fan-out hub of the leaderboard service (\<open>services/leaderboard-ws/hub.go\<close>): the event loop
  \<open>run\<close>, \<open>broadcast\<close>, and the handler, the writer and the end of each WebSocket. A client is a
  number; its channel \<open>send\<close> is a list of messages with a flag for closed. What the scheduler, the
  network and Redis do is a choice of steps. Sending on a closed channel and closing one twice
  panic in Go, and are recorded as such.
\<close>

section \<open>State\<close>

text \<open>
  Where the handler of a client is: before \<open>Accept\<close>; accepted, with its deferred clean-up set;
  registered, before the snapshot; reading from the socket; gone, the clean-up run.
\<close>

datatype phase = Absent | Accepted | Registered | Reading | Gone

record Hub =
  clients :: "nat set"
  regCh :: "nat list"
  unregCh :: "nat list"
  msgCh :: "string list"
  quit :: bool
  stopped :: bool
  phase_of :: "nat \<Rightarrow> phase"
  c_send :: "nat \<Rightarrow> string list"
  c_closed :: "nat \<Rightarrow> bool"
  c_writer :: "nat \<Rightarrow> bool"
  c_written :: "nat \<Rightarrow> string list"
  fanned :: "string list"
  panicked :: bool

definition newHub :: Hub where
  "newHub = \<lparr>clients = {}, regCh = [], unregCh = [], msgCh = [], quit = False, stopped = False,
     phase_of = (\<lambda>_. Absent), c_send = (\<lambda>_. []), c_closed = (\<lambda>_. False), c_writer = (\<lambda>_. False),
     c_written = (\<lambda>_. []), fanned = [], panicked = False\<rparr>"

text \<open>A send with a \<open>default\<close> case on a channel of some capacity.\<close>

definition offer :: "nat \<Rightarrow> 'a \<Rightarrow> 'a list \<Rightarrow> 'a list" where
  "offer cap x ch = (if length ch < cap then ch @ [x] else ch)"

text \<open>The same on the channel of a client, which may be closed.\<close>

definition offer_client :: "nat \<Rightarrow> string \<Rightarrow> Hub \<Rightarrow> Hub" where
  "offer_client c m h =
     (if c_closed h c then h\<lparr>panicked := True\<rparr>
      else h\<lparr>c_send := (c_send h)(c := offer 256 m (c_send h c))\<rparr>)"

section \<open>The event loop\<close>

definition on_register :: "nat \<Rightarrow> Hub \<Rightarrow> Hub" where
  "on_register c h = h\<lparr>clients := insert c (clients h)\<rparr>"

definition on_unregister :: "nat \<Rightarrow> Hub \<Rightarrow> Hub" where
  "on_unregister c h =
     (if c \<in> clients h
      then if c_closed h c then h\<lparr>clients := clients h - {c}, panicked := True\<rparr>
           else h\<lparr>clients := clients h - {c}, c_closed := (c_closed h)(c := True)\<rparr>
      else h)"

text \<open>The range over the map of clients, in the order \<open>cs\<close> in which Go visits it.\<close>

definition on_broadcast :: "nat list \<Rightarrow> string \<Rightarrow> Hub \<Rightarrow> Hub" where
  "on_broadcast cs m h = fold (\<lambda>c. offer_client c m) cs (h\<lparr>fanned := fanned h @ [m]\<rparr>)"

section \<open>Broadcast and clients\<close>

definition broadcast :: "string \<Rightarrow> Hub \<Rightarrow> Hub" where
  "broadcast m h = h\<lparr>msgCh := offer 256 m (msgCh h)\<rparr>"

text \<open>The deferred clean-up of a handler: the context is cancelled, the client offered to \<open>unregCh\<close>.\<close>

definition leave :: "nat \<Rightarrow> Hub \<Rightarrow> Hub" where
  "leave c h = h\<lparr>phase_of := (phase_of h)(c := Gone), unregCh := offer 64 c (unregCh h)\<rparr>"

definition register :: "nat \<Rightarrow> Hub \<Rightarrow> Hub" where
  "register c h =
     (if length (regCh h) < 64
      then h\<lparr>regCh := regCh h @ [c], phase_of := (phase_of h)(c := Registered)\<rparr>
      else leave c h)"

text \<open>The snapshot is offered to the client's channel if it could be built; then the writer starts.\<close>

definition start_streaming :: "nat \<Rightarrow> string option \<Rightarrow> Hub \<Rightarrow> Hub" where
  "start_streaming c snapshot h =
     (let h = (case snapshot of None \<Rightarrow> h | Some m \<Rightarrow> offer_client c m h)
      in h\<lparr>c_writer := (c_writer h)(c := True), phase_of := (phase_of h)(c := Reading)\<rparr>)"

text \<open>
  The writer takes a message. The write fails when \<open>ok\<close> is false, and always once the handler has
  cancelled the context; then the writer returns.
\<close>

definition write_one :: "nat \<Rightarrow> bool \<Rightarrow> Hub \<Rightarrow> Hub" where
  "write_one c ok h =
     (case c_send h c of
        [] \<Rightarrow> if c_closed h c then h\<lparr>c_writer := (c_writer h)(c := False)\<rparr> else h
      | m # ms \<Rightarrow>
          if ok \<and> phase_of h c \<noteq> Gone
          then h\<lparr>c_send := (c_send h)(c := ms), c_written := (c_written h)(c := c_written h c @ [m])\<rparr>
          else h\<lparr>c_send := (c_send h)(c := ms), c_writer := (c_writer h)(c := False)\<rparr>)"

inductive hub_step :: "Hub \<Rightarrow> Hub \<Rightarrow> bool" where
  run_quit: "\<not> stopped h \<Longrightarrow> quit h \<Longrightarrow> hub_step h (h\<lparr>stopped := True\<rparr>)"
| run_register: "\<not> stopped h \<Longrightarrow> regCh h = c # cs \<Longrightarrow> hub_step h (on_register c (h\<lparr>regCh := cs\<rparr>))"
| run_unregister: "\<not> stopped h \<Longrightarrow> unregCh h = c # cs \<Longrightarrow> hub_step h (on_unregister c (h\<lparr>unregCh := cs\<rparr>))"
| run_message: "\<not> stopped h \<Longrightarrow> msgCh h = m # ms \<Longrightarrow> set cs = clients h \<Longrightarrow> distinct cs \<Longrightarrow>
    hub_step h (on_broadcast cs m (h\<lparr>msgCh := ms\<rparr>))"
| shutdown: "hub_step h (h\<lparr>quit := True\<rparr>)"
| published: "hub_step h (broadcast m h)"
| accept: "phase_of h c = Absent \<Longrightarrow> hub_step h (h\<lparr>phase_of := (phase_of h)(c := Accepted)\<rparr>)"
| handler_register: "phase_of h c = Accepted \<Longrightarrow> hub_step h (register c h)"
| handler_snapshot: "phase_of h c = Registered \<Longrightarrow> hub_step h (start_streaming c snapshot h)"
| handler_leaves: "phase_of h c = Reading \<Longrightarrow> hub_step h (leave c h)"
| writer: "c_writer h c \<Longrightarrow> hub_step h (write_one c ok h)"
| writer_stops: "c_writer h c \<Longrightarrow> hub_step h (h\<lparr>c_writer := (c_writer h)(c := False)\<rparr>)"

inductive hub_reachable :: "Hub \<Rightarrow> bool" where
  start: "hub_reachable newHub"
| step: "hub_reachable h \<Longrightarrow> hub_step h h' \<Longrightarrow> hub_reachable h'"

inductive hub_steps :: "Hub \<Rightarrow> Hub \<Rightarrow> bool" where
  refl: "hub_steps h h"
| more: "hub_steps h h' \<Longrightarrow> hub_step h' h'' \<Longrightarrow> hub_steps h h''"

text \<open>\<open>subscribeRedis\<close> passes on one message after the other.\<close>

definition subscribeRedis :: "string list \<Rightarrow> Hub \<Rightarrow> Hub" where
  "subscribeRedis payloads h = fold broadcast payloads h"

lemma subscribeRedis_steps: "hub_steps h0 h \<Longrightarrow> hub_steps h0 (subscribeRedis payloads h)"
proof (induction payloads arbitrary: h)
  case (Cons m ms)
  from Cons.IH[OF hub_steps.intros(2)[OF Cons.prems hub_step.published[of h m]]] show ?case by (simp add: subscribeRedis_def)
qed (simp add: subscribeRedis_def)

lemma hub_reachable_steps: "hub_steps h h' \<Longrightarrow> hub_reachable h \<Longrightarrow> hub_reachable h'"
  by (induction rule: hub_steps.induct) (auto intro: hub_reachable.step)

section \<open>Invariant\<close>

text \<open>
  Each client is in \<open>regCh\<close> or in the map at most once in its life, and leaves through \<open>unregCh\<close> at
  most once; its channel is closed only when it is gone, and then it is in neither. What was
  written to a client, followed by what is in its channel, is a part of the messages of the hub
  in their order, with at most one more message, its snapshot, somewhere.
\<close>

definition stream_ok :: "string list \<Rightarrow> bool \<Rightarrow> string list \<Rightarrow> bool" where
  "stream_ok out snapped hubmsgs \<longleftrightarrow>
     (\<exists>xs ins ys. hubmsgs = xs @ ys \<and> length ins \<le> (if snapped then 1 else 0) \<and> subseq out (xs @ ins @ ys))"

definition client_ok :: "Hub \<Rightarrow> nat \<Rightarrow> bool" where
  "client_ok h c \<longleftrightarrow>
     (phase_of h c \<in> {Absent, Accepted} \<longrightarrow> c \<notin> set (regCh h) \<and> c \<notin> clients h \<and> c_send h c = [] \<and> c_written h c = []) \<and>
     (c_closed h c \<longrightarrow> phase_of h c = Gone \<and> c \<notin> set (regCh h) \<and> c \<notin> clients h) \<and>
     (c \<in> set (regCh h) \<longrightarrow> c \<notin> clients h) \<and>
     (c \<in> set (unregCh h) \<longrightarrow> phase_of h c = Gone) \<and>
     (c_writer h c \<longrightarrow> phase_of h c \<in> {Reading, Gone}) \<and>
     length (c_send h c) \<le> 256 \<and>
     stream_ok (c_written h c @ c_send h c) (phase_of h c \<in> {Reading, Gone}) (fanned h)"

definition hub_ok :: "Hub \<Rightarrow> bool" where
  "hub_ok h \<longleftrightarrow> \<not> panicked h \<and> finite (clients h) \<and> distinct (regCh h) \<and> distinct (unregCh h) \<and>
     length (regCh h) \<le> 64 \<and> length (unregCh h) \<le> 64 \<and> length (msgCh h) \<le> 256 \<and> (\<forall>c. client_ok h c)"

lemma stream_ok_Nil [simp]: "stream_ok [] b f"
  unfolding stream_ok_def by (rule exI[of _ f], rule exI[of _ "[]"], rule exI[of _ "[]"]) simp

lemma stream_ok_skip: "stream_ok out b f \<Longrightarrow> stream_ok out b (f @ [m])"
proof -
  assume "stream_ok out b f"
  then obtain xs ins ys where "f = xs @ ys" "length ins \<le> (if b then 1 else 0)" "subseq out (xs @ ins @ ys)"
    unfolding stream_ok_def by blast
  then show ?thesis unfolding stream_ok_def
    by (intro exI[of _ xs] exI[of _ ins] exI[of _ "ys @ [m]"]) (auto intro: subseq_order.trans)
qed

lemma stream_ok_add: "stream_ok out b f \<Longrightarrow> stream_ok (out @ [m]) b (f @ [m])"
proof -
  assume "stream_ok out b f"
  then obtain xs ins ys where "f = xs @ ys" "length ins \<le> (if b then 1 else 0)" "subseq out (xs @ ins @ ys)"
    unfolding stream_ok_def by blast
  then show ?thesis unfolding stream_ok_def
    using list_emb_append_mono[of "(=)" out "xs @ ins @ ys" "[m]" "[m]"]
    by (intro exI[of _ xs] exI[of _ ins] exI[of _ "ys @ [m]"]) simp
qed

lemma stream_ok_snapshot: "stream_ok out False f \<Longrightarrow> stream_ok (out @ [m]) True f"
proof -
  assume "stream_ok out False f"
  then have "subseq out f" by (auto simp: stream_ok_def)
  then show ?thesis unfolding stream_ok_def
    using list_emb_append_mono[of "(=)" out f "[m]" "[m]"]
    by (intro exI[of _ f] exI[of _ "[m]"] exI[of _ "[]"]) simp
qed

lemma stream_ok_less: "stream_ok out b f \<Longrightarrow> subseq out' out \<Longrightarrow> (b \<longrightarrow> b') \<Longrightarrow> stream_ok out' b' f"
  unfolding stream_ok_def by (smt (verit) subseq_order.trans zero_le_one order_trans le_zero_eq)

lemma offer_client_open:
  "\<not> c_closed h c \<Longrightarrow> offer_client c m h = h\<lparr>c_send := (c_send h)(c := offer 256 m (c_send h c))\<rparr>"
  by (simp add: offer_client_def)

lemma on_broadcast_open:
  assumes "distinct cs" "\<forall>c \<in> set cs. \<not> c_closed h c"
  shows "on_broadcast cs m h =
    h\<lparr>fanned := fanned h @ [m], c_send := (\<lambda>c. if c \<in> set cs then offer 256 m (c_send h c) else c_send h c)\<rparr>"
proof -
  have "fold (\<lambda>c. offer_client c m) cs h =
      h\<lparr>c_send := (\<lambda>c. if c \<in> set cs then offer 256 m (c_send h c) else c_send h c)\<rparr>"
    if "distinct cs" "\<forall>c \<in> set cs. \<not> c_closed h c" for h
    using that
  proof (induction cs arbitrary: h)
    case (Cons c cs)
    then show ?case by (simp add: offer_client_open) (auto simp: fun_eq_iff intro!: Hub.fold_congs(8))
  qed simp
  note step = this[of "h\<lparr>fanned := fanned h @ [m]\<rparr>"]
  show ?thesis unfolding on_broadcast_def by (subst step) (use assms in \<open>simp_all cong: if_cong\<close>)
qed

lemma on_broadcast_keeps:
  "phase_of (on_broadcast cs m h) = phase_of h" "clients (on_broadcast cs m h) = clients h"
  "unregCh (on_broadcast cs m h) = unregCh h"
proof -
  have "phase_of (fold (\<lambda>c. offer_client c m) cs h) = phase_of h \<and> clients (fold (\<lambda>c. offer_client c m) cs h) = clients h \<and>
      unregCh (fold (\<lambda>c. offer_client c m) cs h) = unregCh h" for h
    by (induction cs arbitrary: h) (auto simp: offer_client_def)
  then show "phase_of (on_broadcast cs m h) = phase_of h" "clients (on_broadcast cs m h) = clients h"
    "unregCh (on_broadcast cs m h) = unregCh h" by (simp_all add: on_broadcast_def)
qed

lemma offer_length: "length ch \<le> cap \<Longrightarrow> length (offer cap x ch) \<le> cap"
  by (simp add: offer_def)

lemma offer_set: "set (offer cap x ch) \<subseteq> insert x (set ch)"
  by (auto simp: offer_def)

lemma hub_ok_init: "hub_ok newHub"
  by (simp add: hub_ok_def client_ok_def newHub_def)

lemma hub_okI:
  assumes "\<And>c. client_ok h c" "\<not> panicked h" "finite (clients h)" "distinct (regCh h)" "distinct (unregCh h)"
    "length (regCh h) \<le> 64" "length (unregCh h) \<le> 64" "length (msgCh h) \<le> 256"
  shows "hub_ok h"
  using assms by (simp add: hub_ok_def)

lemma hub_okD:
  assumes "hub_ok h"
  shows "client_ok h c" "\<not> panicked h" "finite (clients h)" "distinct (regCh h)" "distinct (unregCh h)"
    "length (regCh h) \<le> 64" "length (unregCh h) \<le> 64" "length (msgCh h) \<le> 256"
  using assms by (simp_all add: hub_ok_def)

lemma client_ok_cong:
  assumes "client_ok h c" "phase_of h' c = phase_of h c" "c_send h' c = c_send h c" "c_closed h' c = c_closed h c"
    "c_writer h' c \<longrightarrow> c_writer h c" "c_written h' c = c_written h c" "fanned h' = fanned h"
    "c \<in> set (regCh h') \<longrightarrow> c \<in> set (regCh h)" "c \<in> clients h' \<longrightarrow> c \<in> clients h"
    "c \<in> set (unregCh h') \<longrightarrow> c \<in> set (unregCh h)"
  shows "client_ok h' c"
  using assms unfolding client_ok_def by metis

lemma on_register_ok:
  assumes h: "hub_ok h" "regCh h = c # cs"
  shows "hub_ok (on_register c (h\<lparr>regCh := cs\<rparr>))"
proof (rule hub_okI)
  fix d
  show "client_ok (on_register c (h\<lparr>regCh := cs\<rparr>)) d"
    using hub_okD(1)[OF h(1), of d] hub_okD(4)[OF h(1)] h(2)
    by (cases "d = c") (auto simp: client_ok_def on_register_def)
qed (use hub_okD[OF h(1)] h(2) in \<open>auto simp: on_register_def\<close>)

lemma on_unregister_ok:
  assumes h: "hub_ok h" "unregCh h = c # cs"
  shows "hub_ok (on_unregister c (h\<lparr>unregCh := cs\<rparr>))"
proof (rule hub_okI)
  have c: "phase_of h c = Gone" "c \<in> clients h \<Longrightarrow> \<not> c_closed h c" "c \<in> set (regCh h) \<Longrightarrow> c \<notin> clients h"
    using hub_okD(1)[OF h(1), of c] h(2) by (auto simp: client_ok_def)
  show "client_ok (on_unregister c (h\<lparr>unregCh := cs\<rparr>)) d" for d
  proof (cases "d = c \<and> c \<in> clients h")
    case True
    then show ?thesis using hub_okD(1)[OF h(1), of c] c h(2)
      by (simp add: client_ok_def on_unregister_def)
  next
    case False
    then show ?thesis using c h(2)
      by (intro client_ok_cong[OF hub_okD(1)[OF h(1)]]) (auto simp: on_unregister_def)
  qed
  show "\<not> panicked (on_unregister c (h\<lparr>unregCh := cs\<rparr>))"
    using c(2) hub_okD(2)[OF h(1)] by (simp add: on_unregister_def)
qed (use hub_okD[OF h(1)] h(2) in \<open>auto simp: on_unregister_def\<close>)

lemma on_broadcast_ok:
  assumes h: "hub_ok h" "msgCh h = m # ms" "set cs = clients h" "distinct cs"
  shows "hub_ok (on_broadcast cs m (h\<lparr>msgCh := ms\<rparr>))"
proof -
  have op: "\<forall>c \<in> set cs. \<not> c_closed h c" using hub_okD(1)[OF h(1)] h(3) by (auto simp: client_ok_def)
  let ?h = "h\<lparr>msgCh := ms, fanned := fanned h @ [m],
      c_send := (\<lambda>c. if c \<in> set cs then offer 256 m (c_send h c) else c_send h c)\<rparr>"
  have eq: "on_broadcast cs m (h\<lparr>msgCh := ms\<rparr>) = ?h" by (subst on_broadcast_open) (use h op in \<open>simp_all cong: if_cong\<close>)
  have "client_ok ?h d" for d
  proof -
    have d: "client_ok h d" by (rule hub_okD(1)[OF h(1)])
    let ?b = "phase_of h d \<in> {Reading, Gone}"
    have "stream_ok (c_written h d @ c_send h d) ?b (fanned h)" using d by (simp add: client_ok_def)
    from stream_ok_add[OF this, of m] stream_ok_skip[OF this, of m]
    have "stream_ok (c_written h d @ c_send ?h d) ?b (fanned h @ [m])" by (simp add: offer_def)
    moreover have "length (c_send ?h d) \<le> 256" using d by (simp add: client_ok_def offer_length)
    moreover have "d \<notin> set cs" if "phase_of h d \<in> {Absent, Accepted}" using d that h(3) by (auto simp: client_ok_def)
    ultimately show ?thesis using d unfolding client_ok_def by (simp del: insert_iff)
  qed
  then show ?thesis unfolding eq by (rule hub_okI) (use hub_okD[OF h(1)] h(2) in auto)
qed

lemma leave_ok:
  assumes h: "hub_ok h" "phase_of h c \<in> {Accepted, Reading}"
  shows "hub_ok (leave c h)"
proof (rule hub_okI)
  have c: "c \<notin> set (unregCh h)" using hub_okD(1)[OF h(1), of c] h(2) by (auto simp: client_ok_def)
  show "client_ok (leave c h) d" for d
  proof (cases "d = c")
    case True
    have "stream_ok (c_written h c @ c_send h c) (phase_of h c \<in> {Reading, Gone}) (fanned h)"
      using hub_okD(1)[OF h(1), of c] by (simp add: client_ok_def)
    then have "stream_ok (c_written h c @ c_send h c) True (fanned h)" by (rule stream_ok_less) simp_all
    with hub_okD(1)[OF h(1), of c] h(2) True c show ?thesis
      unfolding client_ok_def leave_def by (elim insertE) simp_all
  next
    case False
    then show ?thesis
      by (intro client_ok_cong[OF hub_okD(1)[OF h(1)]]) (auto simp: leave_def offer_def)
  qed
  show "distinct (unregCh (leave c h))" using hub_okD(5)[OF h(1)] c by (simp add: leave_def offer_def)
qed (use hub_okD[OF h(1)] in \<open>auto simp: leave_def offer_length\<close>)

lemma register_ok:
  assumes h: "hub_ok h" "phase_of h c = Accepted"
  shows "hub_ok (register c h)"
proof (cases "length (regCh h) < 64")
  case True
  let ?h = "h\<lparr>regCh := regCh h @ [c], phase_of := (phase_of h)(c := Registered)\<rparr>"
  have c: "c \<notin> set (regCh h)" using hub_okD(1)[OF h(1), of c] h(2) by (auto simp: client_ok_def)
  have "client_ok ?h d" for d
  proof (cases "d = c")
    case True
    then show ?thesis using hub_okD(1)[OF h(1), of c] h(2) by (simp add: client_ok_def)
  next
    case False
    then show ?thesis by (intro client_ok_cong[OF hub_okD(1)[OF h(1)]]) auto
  qed
  then have "hub_ok ?h" by (rule hub_okI) (use hub_okD[OF h(1)] c True in auto)
  with True show ?thesis by (simp add: register_def)
qed (simp add: register_def leave_ok h)

lemma start_streaming_ok:
  assumes h: "hub_ok h" "phase_of h c = Registered"
  shows "hub_ok (start_streaming c snapshot h)"
proof -
  have c: "client_ok h c" by (rule hub_okD(1)[OF h(1)])
  then have op: "\<not> c_closed h c" and st: "stream_ok (c_written h c @ c_send h c) False (fanned h)"
    using h(2) by (auto simp: client_ok_def)
  define out where "out = (case snapshot of None \<Rightarrow> c_send h c | Some m \<Rightarrow> offer 256 m (c_send h c))"
  have eq: "start_streaming c snapshot h =
      h\<lparr>c_send := (c_send h)(c := out), c_writer := (c_writer h)(c := True), phase_of := (phase_of h)(c := Reading)\<rparr>"
    by (simp add: start_streaming_def Let_def out_def offer_client_open[OF op] split: option.splits)
  have weak: "stream_ok (c_written h c @ c_send h c) True (fanned h)" by (rule stream_ok_less[OF st]) simp_all
  have out: "stream_ok (c_written h c @ out) True (fanned h)" "length out \<le> 256"
    using stream_ok_snapshot[OF st] weak c by (auto simp: out_def offer_def client_ok_def split: option.splits)
  have "client_ok (start_streaming c snapshot h) d" for d
  proof (cases "d = c")
    case True
    then show ?thesis using c out op h(2) by (simp add: eq client_ok_def)
  next
    case False
    then show ?thesis by (intro client_ok_cong[OF hub_okD(1)[OF h(1)]]) (auto simp: eq)
  qed
  then show ?thesis by (rule hub_okI) (use hub_okD[OF h(1)] in \<open>auto simp: eq\<close>)
qed

lemma write_one_ok:
  assumes h: "hub_ok h" "c_writer h c"
  shows "hub_ok (write_one c ok h)"
proof (rule hub_okI)
  fix d
  have c: "client_ok h c" by (rule hub_okD(1)[OF h(1)])
  show "client_ok (write_one c ok h) d"
  proof (cases "d = c \<and> c_send h c \<noteq> []")
    case True
    then obtain m ms where m: "c_send h c = m # ms" by (cases "c_send h c") auto
    have "stream_ok (c_written h c @ c_send h c) (phase_of h c \<in> {Reading, Gone}) (fanned h)"
      using c by (simp add: client_ok_def)
    then have "stream_ok (c_written h c @ ms) (phase_of h c \<in> {Reading, Gone}) (fanned h)"
      by (rule stream_ok_less) (auto simp: m subseq_append_iff list_emb_append_mono)
    then show ?thesis using c True m h(2) by (simp add: client_ok_def write_one_def) auto
  next
    case False
    then show ?thesis by (intro client_ok_cong[OF hub_okD(1)[OF h(1)]]) (auto simp: write_one_def split: list.splits)
  qed
qed (use hub_okD[OF h(1)] in \<open>auto simp: write_one_def split: list.splits\<close>)

lemma hub_step_ok: "hub_step h h' \<Longrightarrow> hub_ok h \<Longrightarrow> hub_ok h'"
proof (induction rule: hub_step.induct)
  case (published h m)
  show ?case
    by (rule hub_okI, rule client_ok_cong[OF hub_okD(1)[OF published.prems]])
      (use hub_okD[OF published.prems] in \<open>simp_all add: broadcast_def offer_length\<close>)
next
  case (accept h c)
  show ?case
  proof (rule hub_okI)
    fix d
    show "client_ok (h\<lparr>phase_of := (phase_of h)(c := Accepted)\<rparr>) d"
      using hub_okD(1)[OF accept.prems, of d] accept.hyps by (cases "d = c") (simp_all add: client_ok_def)
  qed (use hub_okD[OF accept.prems] in simp_all)
next
  case (run_quit h)
  show ?case
    by (rule hub_okI, rule client_ok_cong[OF hub_okD(1)[OF run_quit.prems]]) (use hub_okD[OF run_quit.prems] in simp_all)
next
  case (shutdown h)
  show ?case
    by (rule hub_okI, rule client_ok_cong[OF hub_okD(1)[OF shutdown.prems]]) (use hub_okD[OF shutdown.prems] in simp_all)
next
  case (writer_stops h c)
  show ?case
    by (rule hub_okI, rule client_ok_cong[OF hub_okD(1)[OF writer_stops.prems]]) (use hub_okD[OF writer_stops.prems] in simp_all)
qed (simp_all add: on_register_ok on_unregister_ok on_broadcast_ok register_ok start_streaming_ok leave_ok write_one_ok)

lemma hub_reachable_ok: "hub_reachable h \<Longrightarrow> hub_ok h"
  by (induction rule: hub_reachable.induct) (auto intro: hub_ok_init hub_step_ok)

section \<open>Properties\<close>

text \<open>C18: The hub never sends on a closed channel and never closes a channel twice, in any order of
  its events, and no channel ever holds more than its capacity.\<close>

theorem hub_never_panics:
  assumes "hub_reachable h"
  shows "\<not> panicked h \<and> length (regCh h) \<le> 64 \<and> length (unregCh h) \<le> 64 \<and> length (msgCh h) \<le> 256 \<and>
    length (c_send h c) \<le> 256 \<and> (c \<in> clients h \<longrightarrow> \<not> c_closed h c)"
  using hub_okD[OF hub_reachable_ok[OF assms]] by (simp add: client_ok_def) blast

text \<open>C19: A client is written some of the updates that the hub fanned out, in the hub's order, with at
  most one other message, its snapshot, among them.\<close>

theorem client_stream_in_order:
  assumes "hub_reachable h"
  shows "\<exists>xs ins ys. fanned h = xs @ ys \<and> length ins \<le> 1 \<and> subseq (c_written h c) (xs @ ins @ ys)"
proof -
  have "stream_ok (c_written h c @ c_send h c) (phase_of h c \<in> {Reading, Gone}) (fanned h)"
    using hub_okD(1)[OF hub_reachable_ok[OF assms], of c] by (simp add: client_ok_def)
  moreover have "subseq (c_written h c) (c_written h c @ c_send h c)"
    using list_emb_append_mono[of "(=)" "c_written h c" "c_written h c" "[]" "c_send h c"] by simp
  ultimately have "stream_ok (c_written h c) True (fanned h)" by (rule stream_ok_less) simp
  then show ?thesis by (simp add: stream_ok_def)
qed

lemma hub_reach:
  "hub_reachable h \<Longrightarrow> hub_step h h' \<Longrightarrow> h' = h'' \<Longrightarrow> hub_reachable h''"
  by (auto intro: hub_reachable.step)

text \<open>A client that registered, saw an update before its snapshot was built, and was written both.\<close>

definition late_snapshot :: "Hub \<Rightarrow> bool" where
  "late_snapshot h \<longleftrightarrow> hub_reachable h \<and> c_written h 0 = [''update'', ''snapshot''] \<and> fanned h = [''update'']"

lemma late_snapshot_exists: "\<exists>h. late_snapshot h"
proof -
  let ?h1 = "newHub\<lparr>phase_of := (phase_of newHub)(0 := Accepted)\<rparr>"
  let ?h2 = "register 0 ?h1" let ?h3 = "on_register 0 (?h2\<lparr>regCh := []\<rparr>)" let ?h4 = "broadcast ''update'' ?h3"
  let ?h5 = "on_broadcast [0] ''update'' (?h4\<lparr>msgCh := []\<rparr>)" let ?h6 = "start_streaming 0 (Some ''snapshot'') ?h5"
  let ?h7 = "write_one 0 True ?h6" let ?h8 = "write_one 0 True ?h7"
  note defs = newHub_def register_def on_register_def broadcast_def on_broadcast_def offer_client_def offer_def
    start_streaming_def write_one_def
  have "hub_reachable ?h1" by (rule hub_reach[OF hub_reachable.start hub_step.accept]) (simp_all add: newHub_def)
  then have "hub_reachable ?h2" by (rule hub_reach[OF _ hub_step.handler_register]) simp_all
  then have "hub_reachable ?h3" by (rule hub_reach[OF _ hub_step.run_register[where cs = "[]"]]) (simp_all add: defs)
  then have "hub_reachable ?h4" by (rule hub_reach[OF _ hub_step.published]) simp
  then have "hub_reachable ?h5"
    by (rule hub_reach[OF _ hub_step.run_message[where ms = "[]" and cs = "[0]"]]) (simp_all add: defs)
  then have "hub_reachable ?h6" by (rule hub_reach[OF _ hub_step.handler_snapshot[where c = 0 and snapshot = "Some ''snapshot''"]]) (simp_all add: defs)
  then have "hub_reachable ?h7" by (rule hub_reach[OF _ hub_step.writer[where c = 0 and ok = True]]) (simp_all add: defs)
  then have "hub_reachable ?h8" by (rule hub_reach[OF _ hub_step.writer[where c = 0 and ok = True]]) (simp_all add: defs)
  then show ?thesis unfolding late_snapshot_def by (intro exI[of _ ?h8]) (simp add: defs)
qed

theorem client_stream_in_order_witness:
  "\<exists>(h::Hub) xs ins ys. c_written h 0 = [''update'', ''snapshot''] \<and> fanned h = xs @ ys \<and> length ins \<le> 1 \<and>
     subseq (c_written h 0) (xs @ ins @ ys)"
proof -
  obtain h where h: "hub_reachable h" "c_written h 0 = [''update'', ''snapshot'']"
    using late_snapshot_exists unfolding late_snapshot_def by blast
  from client_stream_in_order[OF h(1), of 0] obtain xs ins ys where
    "fanned h = xs @ ys" "length ins \<le> 1" "subseq (c_written h 0) (xs @ ins @ ys)" by blast
  with h(2) show ?thesis by (intro exI[of _ h] exI[of _ xs] exI[of _ ins] exI[of _ ys]) simp
qed

theorem hub_never_panics_witness: "\<exists>h. hub_reachable h \<and> c_written h 0 \<noteq> [] \<and> \<not> panicked h"
  using late_snapshot_exists hub_never_panics unfolding late_snapshot_def by fastforce

text \<open>A departed client can stay in the hub for ever. When the loop takes a client from \<open>unregCh\<close>
  before it has taken it from \<open>regCh\<close> (Go chooses between ready cases at random), or when
  \<open>unregCh\<close> was full, the client is in the map after it is gone, and no later step removes it.\<close>

lemma departed_client_leaks:
  assumes "phase_of h c = Gone" "c \<in> clients h" "c \<notin> set (unregCh h)" "hub_steps h h'"
  shows "phase_of h' c = Gone \<and> c \<in> clients h' \<and> c \<notin> set (unregCh h')"
  using assms(4,1,2,3)
proof (induction rule: hub_steps.induct)
  case (more h h' h'')
  then have "phase_of h' c = Gone" "c \<in> clients h'" "c \<notin> set (unregCh h')" by simp_all
  with more.hyps(2) show ?case
    by (induction rule: hub_step.induct)
      (auto simp: on_register_def on_unregister_def broadcast_def register_def leave_def offer_def
        start_streaming_def offer_client_def Let_def write_one_def on_broadcast_keeps split: option.splits list.splits)
qed simp

end
