(* ===== verification/GoHeap.thy ===== *)
theory GoHeap
  imports Prelude
begin

text \<open>
  Go's \<open>container/heap\<close>, the standard library package the matching engine keeps its two books
  with: \<open>heap.Interface\<close> as a record of operations on a state, the package's functions
  \<open>up\<close>, \<open>down\<close>, \<open>Init\<close>, \<open>Push\<close>, \<open>Pop\<close>, \<open>Remove\<close> and \<open>Fix\<close> over it, and the contract between
  the package and its clients as the locale \<open>heap_client\<close>: what a client's \<open>Less\<close>, \<open>Swap\<close>,
  \<open>Push\<close> and \<open>Pop\<close> promise, and what the package's functions do in return.
\<close>

section \<open>The package\<close>

record ('s, 'x) heap_iface =
  Len :: "'s \<Rightarrow> nat"
  Less :: "'s \<Rightarrow> nat \<Rightarrow> nat \<Rightarrow> bool"
  Swap :: "'s \<Rightarrow> nat \<Rightarrow> nat \<Rightarrow> 's"
  PushI :: "'s \<Rightarrow> 'x \<Rightarrow> 's"
  PopI :: "'s \<Rightarrow> 'x \<times> 's"

definition parent :: "nat \<Rightarrow> nat" where
  "parent j = (j - 1) div 2"

function up :: "('s, 'x) heap_iface \<Rightarrow> 's \<Rightarrow> nat \<Rightarrow> 's" where
  "up I h j = (if parent j = j \<or> \<not> Less I h j (parent j) then h
               else up I (Swap I h (parent j) j) (parent j))"
  by pat_completeness auto
termination
  by (relation "measure (\<lambda>(I, h, j). j)") (auto simp: parent_def)

function down_loop :: "('s, 'x) heap_iface \<Rightarrow> 's \<Rightarrow> nat \<Rightarrow> nat \<Rightarrow> 's \<times> nat" where
  "down_loop I h i n =
     (let j1 = 2 * i + 1; j = (if j1 + 1 < n \<and> Less I h (j1 + 1) j1 then j1 + 1 else j1)
      in if n \<le> j1 \<or> \<not> Less I h j i then (h, i) else down_loop I (Swap I h i j) j n)"
  by pat_completeness auto
termination
  by (relation "measure (\<lambda>(I, h, i, n). n - i)") (auto simp: Let_def)

declare up.simps [simp del] down_loop.simps [simp del]

definition down :: "('s, 'x) heap_iface \<Rightarrow> 's \<Rightarrow> nat \<Rightarrow> nat \<Rightarrow> 's \<times> bool" where
  "down I h i0 n = (let (h', i) = down_loop I h i0 n in (h', i0 < i))"

definition heap_Init :: "('s, 'x) heap_iface \<Rightarrow> 's \<Rightarrow> 's" where
  "heap_Init I h = fold (\<lambda>i h. fst (down I h i (Len I h))) (rev [0..<Len I h div 2]) h"

definition heap_Push :: "('s, 'x) heap_iface \<Rightarrow> 's \<Rightarrow> 'x \<Rightarrow> 's" where
  "heap_Push I h x = (let h = PushI I h x in up I h (Len I h - 1))"

definition heap_Pop :: "('s, 'x) heap_iface \<Rightarrow> 's \<Rightarrow> 'x \<times> 's" where
  "heap_Pop I h =
     (let n = Len I h - 1; h = Swap I h 0 n; (h, _) = down I h 0 n in PopI I h)"

definition heap_Remove :: "('s, 'x) heap_iface \<Rightarrow> 's \<Rightarrow> nat \<Rightarrow> 'x \<times> 's" where
  "heap_Remove I h i =
     (let n = Len I h - 1;
          h = (if n \<noteq> i
               then let h = Swap I h i n; (h, moved) = down I h i n
                    in if \<not> moved then up I h i else h
               else h)
      in PopI I h)"

definition heap_Fix :: "('s, 'x) heap_iface \<Rightarrow> 's \<Rightarrow> nat \<Rightarrow> 's" where
  "heap_Fix I h i = (let (h, moved) = down I h i (Len I h) in if \<not> moved then up I h i else h)"

section \<open>The heap order on a list of keys\<close>

text \<open>
  \<open>heap_upto ks n\<close>: every node below \<open>n\<close> is at least its parent. \<open>gap ks i n\<close>: the order holds
  except around node \<open>i\<close>, whose parent is still at most \<open>i\<close>'s children: the state in the
  middle of \<open>up\<close> and \<open>down\<close>.
\<close>

definition heap_upto :: "'k::linorder list \<Rightarrow> nat \<Rightarrow> bool" where
  "heap_upto ks n \<longleftrightarrow> (\<forall>c. 0 < c \<and> c < n \<longrightarrow> ks ! parent c \<le> ks ! c)"

definition gap :: "'k::linorder list \<Rightarrow> nat \<Rightarrow> nat \<Rightarrow> bool" where
  "gap ks i n \<longleftrightarrow>
     (\<forall>c. 0 < c \<and> c < n \<and> c \<noteq> i \<and> parent c \<noteq> i \<longrightarrow> ks ! parent c \<le> ks ! c) \<and>
     (\<forall>c. 0 < i \<and> c < n \<and> 0 < c \<and> parent c = i \<longrightarrow> ks ! parent i \<le> ks ! c)"

definition above_ok :: "'k::linorder list \<Rightarrow> nat \<Rightarrow> bool" where
  "above_ok ks i \<longleftrightarrow> (0 < i \<longrightarrow> ks ! parent i \<le> ks ! i)"

definition below_ok :: "'k::linorder list \<Rightarrow> nat \<Rightarrow> nat \<Rightarrow> bool" where
  "below_ok ks i n \<longleftrightarrow> (\<forall>c. 0 < c \<and> c < n \<and> parent c = i \<longrightarrow> ks ! i \<le> ks ! c)"

lemma parent_less: "0 < c \<Longrightarrow> parent c < c"
  by (simp add: parent_def)

lemma parent_le [simp]: "parent c \<le> c"
  by (simp add: parent_def)

lemma parent_fix [simp]: "parent c = c \<longleftrightarrow> c = 0"
  by (auto simp: parent_def)

lemma parent_child: "parent c = i \<and> 0 < c \<longleftrightarrow> c = 2 * i + 1 \<or> c = 2 * i + 2"
  by (auto simp: parent_def)

lemma heap_root_least:
  assumes "heap_upto ks n" "i < n"
  shows "ks ! 0 \<le> ks ! i"
  using assms(2)
proof (induction i rule: less_induct)
  case (less i)
  show ?case
  proof (cases "i = 0")
    case False
    then have "ks ! 0 \<le> ks ! parent i" using less parent_less[of i] by auto
    also have "\<dots> \<le> ks ! i" using assms(1) False less.prems by (simp add: heap_upto_def)
    finally show ?thesis .
  qed simp
qed

lemma heap_iff_gap:
  assumes "i < n"
  shows "heap_upto ks n \<longleftrightarrow> gap ks i n \<and> above_ok ks i \<and> below_ok ks i n"
proof
  assume h: "heap_upto ks n"
  have "ks ! parent i \<le> ks ! c" if "0 < i" "c < n" "0 < c" "parent c = i" for c
  proof -
    have "ks ! parent i \<le> ks ! i" using h that(1) assms by (simp add: heap_upto_def)
    also have "\<dots> \<le> ks ! c" using h that by (auto simp: heap_upto_def)
    finally show ?thesis .
  qed
  with h assms show "gap ks i n \<and> above_ok ks i \<and> below_ok ks i n"
    by (auto simp: heap_upto_def gap_def above_ok_def below_ok_def)
next
  assume "gap ks i n \<and> above_ok ks i \<and> below_ok ks i n"
  then show "heap_upto ks n"
    unfolding heap_upto_def gap_def above_ok_def below_ok_def by (metis gr0I)
qed

text \<open>Moving a too small entry one level up keeps the gap, one level up.\<close>

lemma gap_swap_up:
  assumes g: "gap ks i n" and b: "below_ok ks i n" and i: "0 < i" "i < n" "n \<le> length ks"
    and viol: "ks ! i < ks ! parent i"
  shows "gap (swapl ks (parent i) i) (parent i) n \<and> below_ok (swapl ks (parent i) i) (parent i) n"
proof -
  let ?p = "parent i" and ?ks = "swapl ks (parent i) i"
  have p: "?p < i" using i(1) by (rule parent_less)
  have nth: "?ks ! k = (if k = i then ks ! ?p else if k = ?p then ks ! i else ks ! k)"
    if "k < n" for k
    using that i p by (simp add: nth_swapl)
  have up: "ks ! parent c \<le> ks ! c" if "0 < c" "c < n" "c \<noteq> i" "parent c \<noteq> i" for c
    using g that by (simp add: gap_def)
  have child: "ks ! ?p \<le> ks ! c" if "0 < c" "c < n" "parent c = i" for c
    using g that i(1) by (simp add: gap_def)
  have above: "ks ! parent ?p \<le> ks ! ?p" if "0 < ?p"
    using up[of ?p] that p i parent_less[OF that] by auto
  have "?ks ! parent c \<le> ?ks ! c" if c: "0 < c" "c < n" "c \<noteq> ?p" "parent c \<noteq> ?p" for c
  proof (cases "parent c = i")
    case True
    then show ?thesis using child[OF c(1,2)] c i nth[of c] nth[of i] parent_less[OF c(1)] by auto
  next
    case False
    then show ?thesis
      using up[OF c(1,2)] c nth[of c] nth[of "parent c"] parent_less[OF c(1)] by auto
  qed
  moreover have "?ks ! parent ?p \<le> ?ks ! c" if c: "0 < ?p" "c < n" "0 < c" "parent c = ?p" for c
  proof (cases "c = i")
    case True
    then show ?thesis
      using above[OF c(1)] nth[of c] nth[of "parent ?p"] parent_less[OF c(1)] p i by auto
  next
    case False
    have "ks ! ?p \<le> ks ! c" using up[of c] c False p parent_less[OF c(3)] by auto
    then show ?thesis
      using above[OF c(1)] False c nth[of c] nth[of "parent ?p"] parent_less[OF c(1)] p i
        parent_less[OF c(3)] by auto
  qed
  moreover have "?ks ! ?p \<le> ?ks ! c" if c: "0 < c" "c < n" "parent c = ?p" for c
  proof (cases "c = i")
    case True
    then show ?thesis using viol nth[of c] nth[of ?p] p i by auto
  next
    case False
    have "ks ! ?p \<le> ks ! c" using up[of c] c False p parent_less[OF c(1)] by auto
    then show ?thesis using viol False c nth[of c] nth[of ?p] p i parent_less[OF c(1)] by auto
  qed
  ultimately show ?thesis by (auto simp: gap_def below_ok_def)
qed

text \<open>Moving a too large entry down to its least child keeps the gap, at the child.\<close>

lemma gap_swap_down:
  assumes g: "gap ks i n" and j: "parent j = i" "0 < j" "j < n" "n \<le> length ks"
    and least: "\<And>c. 0 < c \<Longrightarrow> c < n \<Longrightarrow> parent c = i \<Longrightarrow> ks ! j \<le> ks ! c"
    and viol: "ks ! j < ks ! i"
  shows "gap (swapl ks i j) j n \<and> above_ok (swapl ks i j) j"
proof -
  let ?ks = "swapl ks i j"
  have ij: "i < j" using j parent_less by auto
  have nth: "?ks ! k = (if k = j then ks ! i else if k = i then ks ! j else ks ! k)"
    if "k < n" for k
    using that j ij by (simp add: nth_swapl)
  have up: "ks ! parent c \<le> ks ! c" if "0 < c" "c < n" "c \<noteq> i" "parent c \<noteq> i" for c
    using g that by (simp add: gap_def)
  have child: "ks ! parent i \<le> ks ! c" if "0 < i" "0 < c" "c < n" "parent c = i" for c
    using g that by (simp add: gap_def)
  have "?ks ! parent c \<le> ?ks ! c" if c: "0 < c" "c < n" "c \<noteq> j" "parent c \<noteq> j" for c
  proof (cases "parent c = i")
    case True
    then show ?thesis using least[OF c(1,2)] c ij nth[of c] nth[of i] parent_less[OF c(1)] by auto
  next
    case False
    show ?thesis
    proof (cases "c = i")
      case True
      then show ?thesis
        using child[of j] c j ij nth[of i] nth[of "parent i"] parent_less[OF c(1)] by auto
    next
      case c_i: False
      then show ?thesis
        using up[OF c(1,2) c_i False] c False nth[of c] nth[of "parent c"] parent_less[OF c(1)]
        by auto
    qed
  qed
  moreover have "?ks ! parent j \<le> ?ks ! c" if c: "c < n" "0 < c" "parent c = j" for c
    using up[of c] c j ij nth[of c] nth[of i] parent_less[OF c(2)] by auto
  moreover have "?ks ! parent j \<le> ?ks ! j"
    using viol j ij nth[of i] nth[of j] by auto
  ultimately show ?thesis by (auto simp: gap_def above_ok_def)
qed

section \<open>The contract between the package and a client\<close>

text \<open>
  A client gives the five operations of \<open>heap.Interface\<close> over its state, and promises what they
  do to the list \<open>arr s\<close> of its entries: \<open>Less\<close> compares by \<open>key\<close>, \<open>Swap\<close> exchanges two
  entries, \<open>Push\<close> appends and \<open>Pop\<close> drops the last one. \<open>ok\<close> is the client's own invariant
  and \<open>frame\<close> a relation its operations stay in (what they may change besides the list).
\<close>

locale heap_client =
  fixes I :: "('s, 'x) heap_iface"
    and arr :: "'s \<Rightarrow> 'e list"
    and key :: "'e \<Rightarrow> 'k::linorder"
    and ok :: "'s \<Rightarrow> bool"
    and frame :: "'s \<Rightarrow> 's \<Rightarrow> bool"
    and fits :: "'s \<Rightarrow> 'x \<Rightarrow> bool"
    and entry :: "'s \<Rightarrow> 'x \<Rightarrow> 'e"
  assumes Len_arr: "ok s \<Longrightarrow> Len I s = length (arr s)"
    and Less_arr: "ok s \<Longrightarrow> i < length (arr s) \<Longrightarrow> j < length (arr s) \<Longrightarrow>
      Less I s i j \<longleftrightarrow> key (arr s ! i) < key (arr s ! j)"
    and Swap_arr: "ok s \<Longrightarrow> i < length (arr s) \<Longrightarrow> j < length (arr s) \<Longrightarrow>
      arr (Swap I s i j) = swapl (arr s) i j"
    and Swap_ok: "ok s \<Longrightarrow> i < length (arr s) \<Longrightarrow> j < length (arr s) \<Longrightarrow> ok (Swap I s i j)"
    and Swap_frame: "ok s \<Longrightarrow> i < length (arr s) \<Longrightarrow> j < length (arr s) \<Longrightarrow>
      frame s (Swap I s i j)"
    and Push_arr: "ok s \<Longrightarrow> fits s x \<Longrightarrow> arr (PushI I s x) = arr s @ [entry s x]"
    and Push_ok: "ok s \<Longrightarrow> fits s x \<Longrightarrow> ok (PushI I s x)"
    and Push_frame: "ok s \<Longrightarrow> fits s x \<Longrightarrow> frame s (PushI I s x)"
    and Pop_arr: "ok s \<Longrightarrow> arr s \<noteq> [] \<Longrightarrow> arr (snd (PopI I s)) = butlast (arr s)"
    and Pop_ok: "ok s \<Longrightarrow> arr s \<noteq> [] \<Longrightarrow> ok (snd (PopI I s))"
    and Pop_frame: "ok s \<Longrightarrow> arr s \<noteq> [] \<Longrightarrow> frame s (snd (PopI I s))"
    and frame_refl: "frame s s"
    and frame_trans: "frame s t \<Longrightarrow> frame t u \<Longrightarrow> frame s u"
begin

abbreviation keys :: "'s \<Rightarrow> 'k list" where
  "keys s \<equiv> map key (arr s)"

text \<open>\<open>reorder n s t\<close>: \<open>t\<close> permutes the entries of \<open>s\<close> below \<open>n\<close> and is otherwise as \<open>s\<close>.\<close>

definition reorder :: "nat \<Rightarrow> 's \<Rightarrow> 's \<Rightarrow> bool" where
  "reorder n s t \<longleftrightarrow> ok t \<and> frame s t \<and> mset (arr t) = mset (arr s) \<and> drop n (arr t) = drop n (arr s)"

lemma reorder_refl: "ok s \<Longrightarrow> reorder n s s"
  by (simp add: reorder_def frame_refl)

lemma reorder_trans: "reorder n s t \<Longrightarrow> reorder n t u \<Longrightarrow> reorder n s u"
  by (auto simp: reorder_def intro: frame_trans)

lemma reorder_length: "reorder n s t \<Longrightarrow> length (arr t) = length (arr s)"
  by (auto simp: reorder_def dest: mset_eq_length)

lemma reorder_swap:
  assumes "ok s" "i < n" "j < n" "n \<le> length (arr s)"
  shows "reorder n s (Swap I s i j)" "keys (Swap I s i j) = swapl (keys s) i j"
proof -
  have "drop n (swapl (arr s) i j) = drop n (arr s)"
    using assms(2,3) by (simp add: swapl_def)
  then show "reorder n s (Swap I s i j)" "keys (Swap I s i j) = swapl (keys s) i j"
    using assms by (auto simp: reorder_def Swap_arr Swap_ok Swap_frame map_swapl)
qed

lemma up_correct:
  assumes "ok s" "j < n" "n \<le> length (arr s)" "gap (keys s) j n" "below_ok (keys s) j n"
  shows "reorder n s (up I s j) \<and> heap_upto (keys (up I s j)) n"
  using assms
proof (induction j arbitrary: s rule: less_induct)
  case (less j)
  have less_iff: "Less I s j (parent j) \<longleftrightarrow> keys s ! j < keys s ! parent j"
    using less.prems le_less_trans[OF parent_le, of j n] by (subst Less_arr) auto
  show ?case
  proof (cases "parent j = j \<or> \<not> Less I s j (parent j)")
    case True
    then have "above_ok (keys s) j" by (auto simp: above_ok_def less_iff)
    with True less.prems show ?thesis
      by (simp add: up.simps[of I s j] heap_iff_gap reorder_refl)
  next
    case False
    let ?t = "Swap I s (parent j) j"
    have j: "0 < j" "parent j < j" using False parent_less[of j] by auto
    have t: "reorder n s ?t" "keys ?t = swapl (keys s) (parent j) j"
      using reorder_swap[of s "parent j" n j] less.prems j by auto
    have "gap (keys ?t) (parent j) n \<and> below_ok (keys ?t) (parent j) n"
      unfolding t(2) using less.prems j False less_iff by (intro gap_swap_up) auto
    moreover have "ok ?t" "n \<le> length (arr ?t)"
      using t(1) less.prems reorder_length[OF t(1)] by (auto simp: reorder_def)
    ultimately have "reorder n ?t (up I ?t (parent j)) \<and> heap_upto (keys (up I ?t (parent j))) n"
      using less.IH[of "parent j" ?t] j less.prems(2) by auto
    with t(1) False show ?thesis
      by (auto simp: up.simps[of I s j] intro: reorder_trans)
  qed
qed

text \<open>
  \<open>down\<close> stops where the children are in order; when it moved, the order holds above that
  place too, because the entry was exchanged with its least child.
\<close>

lemma down_loop_correct:
  assumes "ok s" "i < n" "n \<le> length (arr s)" "gap (keys s) i n" "down_loop I s i n = (t, k)"
  shows "reorder n s t \<and> i \<le> k \<and> k < n \<and> gap (keys t) k n \<and> below_ok (keys t) k n \<and>
    (if k = i then t = s else above_ok (keys t) k)"
  using assms
proof (induction "n - i" arbitrary: s i rule: less_induct)
  case less
  define j where "j = (if 2 * i + 2 < n \<and> Less I s (2 * i + 2) (2 * i + 1) then 2 * i + 2 else 2 * i + 1)"
  have eq: "down_loop I s i n =
      (if n \<le> 2 * i + 1 \<or> \<not> Less I s j i then (s, i) else down_loop I (Swap I s i j) j n)"
    by (subst down_loop.simps) (simp add: j_def Let_def)
  have pj: "parent j = i" "0 < j" "i < j" by (auto simp: j_def parent_def)
  have jn: "j < n" if "\<not> n \<le> 2 * i + 1" using that by (auto simp: j_def)
  have L: "Less I s a b \<longleftrightarrow> keys s ! a < keys s ! b" if "a < n" "b < n" for a b
    using that less.prems by (subst Less_arr) auto
  have least: "keys s ! j \<le> keys s ! c" if "0 < c" "c < n" "parent c = i" for c
  proof -
    have "c = 2 * i + 1 \<or> c = 2 * i + 2" using that parent_child by blast
    then show ?thesis using that L[of "2 * i + 2" "2 * i + 1"] by (auto simp: j_def)
  qed
  show ?case
  proof (cases "n \<le> 2 * i + 1 \<or> \<not> Less I s j i")
    case True
    have "below_ok (keys s) i n"
      unfolding below_ok_def
    proof (intro allI impI)
      fix c assume c: "0 < c \<and> c < n \<and> parent c = i"
      then have c12: "c = 2 * i + 1 \<or> c = 2 * i + 2" using parent_child by blast
      then have "\<not> n \<le> 2 * i + 1" using c by auto
      then have "keys s ! i \<le> keys s ! j" using True L[of j i] jn less.prems(2) by auto
      also have "\<dots> \<le> keys s ! c" using least c by auto
      finally show "keys s ! i \<le> keys s ! c" .
    qed
    with True eq less.prems show ?thesis by (auto simp: reorder_refl)
  next
    case False
    let ?u = "Swap I s i j"
    have jn': "j < n" using False jn by auto
    have u: "reorder n s ?u" "keys ?u = swapl (keys s) i j"
      using reorder_swap[of s i n j] less.prems jn' by auto
    have g: "gap (keys ?u) j n \<and> above_ok (keys ?u) j"
      unfolding u(2) using less.prems pj jn' False L[of j i] least
      by (intro gap_swap_down[where n = n]) auto
    have ok: "ok ?u" "n \<le> length (arr ?u)"
      using u(1) less.prems reorder_length[OF u(1)] by (auto simp: reorder_def)
    have "down_loop I ?u j n = (t, k)" using less.prems(5) eq False by simp
    then have "reorder n ?u t \<and> j \<le> k \<and> k < n \<and> gap (keys t) k n \<and> below_ok (keys t) k n \<and>
        (if k = j then t = ?u else above_ok (keys t) k)"
      using less.hyps[of j ?u] ok jn' g pj(3) by auto
    with g u(1) pj(3) show ?thesis by (auto intro: reorder_trans split: if_splits)
  qed
qed

text \<open>The step \<open>if !down(h, i, n) { up(h, i) }\<close> that \<open>Remove\<close> and \<open>Fix\<close> share.\<close>

lemma down_up_correct:
  assumes "ok s" "i < n" "n \<le> length (arr s)" "gap (keys s) i n" "down I s i n = (t, moved)"
  shows "reorder n s (if \<not> moved then up I t i else t) \<and>
    heap_upto (keys (if \<not> moved then up I t i else t)) n"
proof -
  obtain k where dl: "down_loop I s i n = (t, k)" and moved: "moved \<longleftrightarrow> i < k"
    using assms(5) by (auto simp: down_def split: prod.splits)
  note d = down_loop_correct[OF assms(1-4) dl]
  show ?thesis
  proof (cases moved)
    case True
    with d moved show ?thesis by (auto simp: heap_iff_gap)
  next
    case False
    with d moved have "t = s" "below_ok (keys s) i n" by auto
    with False up_correct[OF assms(1-4)] show ?thesis by auto
  qed
qed

lemma down_correct:
  assumes "ok s" "i < n" "n \<le> length (arr s)" "gap (keys s) i n" "above_ok (keys s) i"
    "down I s i n = (t, moved)"
  shows "reorder n s t \<and> heap_upto (keys t) n"
proof -
  obtain k where dl: "down_loop I s i n = (t, k)"
    using assms(6) by (auto simp: down_def split: prod.splits)
  from down_loop_correct[OF assms(1-4) dl] assms(5) show ?thesis
    by (auto simp: heap_iff_gap split: if_splits)
qed

lemma reorder_down_out:
  assumes "ok s" "length (arr s) \<le> 1" shows "down I s 0 (length (arr s) - 1) = (s, False)"
  using assms by (simp add: down_def down_loop.simps)

lemma reorder_last:
  assumes "reorder (length (arr s) - 1) s t" "arr s \<noteq> []"
  shows "arr t \<noteq> [] \<and> last (arr t) = last (arr s)"
proof -
  have len: "length (arr t) = length (arr s)" using assms(1) by (rule reorder_length)
  have "drop (length (arr s) - 1) (arr t) = drop (length (arr s) - 1) (arr s)"
    using assms(1) by (simp add: reorder_def)
  then show ?thesis
    using len assms(2) by (metis hd_drop_conv_nth last_conv_nth diff_less length_greater_0_conv zero_less_one)
qed

lemma heap_butlast:
  assumes "heap_upto (keys t) (length (arr t) - 1)"
  shows "heap_upto (map key (butlast (arr t))) (length (butlast (arr t)))"
  using assms le_less_trans[OF parent_le] by (auto simp: heap_upto_def nth_butlast)

text \<open>
  The last step of \<open>Pop\<close> and \<open>Remove\<close>: the entry to go was moved to the end and the order
  restored before it.
\<close>

lemma pop_last:
  assumes "ok t" "arr t \<noteq> []" "heap_upto (keys t) (length (arr t) - 1)"
  shows "ok (snd (PopI I t)) \<and> frame t (snd (PopI I t)) \<and>
    heap_upto (keys (snd (PopI I t))) (length (arr (snd (PopI I t)))) \<and>
    mset (arr (snd (PopI I t))) = mset (arr t) - {# last (arr t) #}"
  using assms heap_butlast[OF assms(3)] by (simp add: Pop_arr Pop_ok Pop_frame mset_butlast)

theorem heap_Push_correct:
  assumes "ok s" "fits s x" "heap_upto (keys s) (length (arr s))"
  shows "ok (heap_Push I s x) \<and> frame s (heap_Push I s x) \<and>
    heap_upto (keys (heap_Push I s x)) (length (arr (heap_Push I s x))) \<and>
    mset (arr (heap_Push I s x)) = add_mset (entry s x) (mset (arr s))"
proof -
  let ?t = "PushI I s x" and ?n = "length (arr s)"
  have t: "ok ?t" "frame s ?t" "arr ?t = arr s @ [entry s x]"
    using assms by (auto simp: Push_arr Push_ok Push_frame)
  have par: "parent c < ?n" if "0 < c" "c < Suc ?n" for c using that parent_less[of c] by auto
  have nopar: "parent c \<noteq> ?n" if "c < Suc ?n" "0 < c" for c using par[of c] that by auto
  have "gap (keys ?t) ?n (Suc ?n)"
    unfolding gap_def t(3)
  proof (intro conjI allI impI)
    fix c assume c: "0 < c \<and> c < Suc ?n \<and> c \<noteq> ?n \<and> parent c \<noteq> ?n"
    then have cn: "c < ?n" "parent c < ?n" using par[of c] by auto
    then have "keys s ! parent c \<le> keys s ! c" using assms(3) c unfolding heap_upto_def by blast
    with cn show "map key (arr s @ [entry s x]) ! parent c \<le> map key (arr s @ [entry s x]) ! c"
      by (simp add: nth_append)
  qed (use nopar in auto)
  moreover have "below_ok (keys ?t) ?n (Suc ?n)" using nopar by (auto simp: below_ok_def)
  ultimately have u: "reorder (Suc ?n) ?t (up I ?t ?n)" "heap_upto (keys (up I ?t ?n)) (Suc ?n)"
    using t up_correct[of ?t ?n "Suc ?n"] by auto
  have len: "length (arr (up I ?t ?n)) = Suc ?n" using reorder_length[OF u(1)] t(3) by simp
  have "ok (up I ?t ?n)" "frame ?t (up I ?t ?n)" "mset (arr (up I ?t ?n)) = mset (arr ?t)"
    using u(1) by (auto simp: reorder_def)
  moreover have "heap_Push I s x = up I ?t ?n"
    using t by (simp add: heap_Push_def Len_arr Let_def)
  ultimately show ?thesis
    using u(2) len t(3) frame_trans[OF t(2)] by simp
qed

lemma gap_after_swap:
  assumes "heap_upto ks (Suc n)" "i < n" "length ks = Suc n"
  shows "gap (swapl ks i n) i n"
proof -
  have nth: "swapl ks i n ! k = (if k = i then ks ! n else ks ! k)" if "k < n" for k
    using that assms(2,3) by (simp add: nth_swapl)
  have h: "ks ! parent c \<le> ks ! c" if "0 < c" "c < n" for c
    using assms(1) that by (simp add: heap_upto_def)
  have "swapl ks i n ! parent c \<le> swapl ks i n ! c"
    if "0 < c" "c < n" "c \<noteq> i" "parent c \<noteq> i" for c
    using h[of c] that nth[of c] nth[of "parent c"] le_less_trans[OF parent_le, of c n] by auto
  moreover have "swapl ks i n ! parent i \<le> swapl ks i n ! c"
    if "0 < i" "c < n" "0 < c" "parent c = i" for c
  proof -
    have "parent i < i" "c \<noteq> i" using that parent_less[of i] parent_less[of c] by auto
    moreover have "ks ! parent i \<le> ks ! c" using h[of c] h[of i] that assms(2) by auto
    ultimately show ?thesis using that nth[of c] nth[of "parent i"] assms(2) by auto
  qed
  ultimately show ?thesis by (simp add: gap_def)
qed

theorem heap_Remove_correct:
  assumes "ok s" "i < length (arr s)" "heap_upto (keys s) (length (arr s))"
  shows "ok (snd (heap_Remove I s i)) \<and> frame s (snd (heap_Remove I s i)) \<and>
    heap_upto (keys (snd (heap_Remove I s i))) (length (arr (snd (heap_Remove I s i)))) \<and>
    mset (arr (snd (heap_Remove I s i))) = mset (arr s) - {# arr s ! i #}"
proof -
  define n where "n = length (arr s) - 1"
  have len: "length (arr s) = Suc n" using assms(2) by (simp add: n_def)
  have Len: "Len I s - 1 = n" using assms(1) len by (simp add: Len_arr)
  show ?thesis
  proof (cases "i = n")
    case True
    have "heap_upto (keys s) (length (arr s) - 1)" using assms(3) by (auto simp: heap_upto_def)
    moreover have "last (arr s) = arr s ! i" "arr s \<noteq> []"
      using True len by (metis diff_Suc_1 last_conv_nth list.size(3) nat.distinct(1), auto)
    ultimately show ?thesis
      using pop_last[OF assms(1)] True Len by (simp add: heap_Remove_def Let_def)
  next
    case False
    let ?t = "Swap I s i n"
    have i: "i < n" using False assms(2) len by auto
    have t: "ok ?t" "frame s ?t" "arr ?t = swapl (arr s) i n"
      using assms(1) i len by (auto simp: Swap_arr Swap_ok Swap_frame)
    have kt: "keys ?t = swapl (keys s) i n" using i len by (simp add: t(3) map_swapl)
    obtain u moved where d: "down I ?t i n = (u, moved)" by (cases "down I ?t i n")
    define v where "v = (if \<not> moved then up I u i else u)"
    have gap: "gap (keys ?t) i n"
      unfolding kt using assms(3) i len by (intro gap_after_swap) auto
    then have v: "reorder n ?t v \<and> heap_upto (keys v) n"
      unfolding v_def using t i len by (intro down_up_correct d) auto
    then have "reorder (length (arr ?t) - 1) ?t v" using t len by simp
    moreover have ne: "arr ?t \<noteq> []" using len by (metis length_swapl list.size(3) nat.distinct(1) t(3))
    ultimately have last: "arr v \<noteq> [] \<and> last (arr v) = last (arr ?t)"
      by (intro reorder_last)
    have "last (arr ?t) = arr s ! i"
      using i len by (subst last_conv_nth) (auto simp: t(3) nth_swapl)
    moreover have "snd (heap_Remove I s i) = snd (PopI I v)"
      using False Len d by (simp add: heap_Remove_def Let_def v_def)
    moreover have "length (arr v) - 1 = n" using v reorder_length[of n ?t v] t len by simp
    moreover have "mset (arr v) = mset (arr s)" "ok v" "frame ?t v"
      using v t i len by (auto simp: reorder_def)
    ultimately show ?thesis
      using pop_last[of v] v last t(2) by (auto intro: frame_trans)
  qed
qed

theorem heap_Pop_correct:
  assumes "ok s" "arr s \<noteq> []" "heap_upto (keys s) (length (arr s))"
  shows "ok (snd (heap_Pop I s)) \<and> frame s (snd (heap_Pop I s)) \<and>
    heap_upto (keys (snd (heap_Pop I s))) (length (arr (snd (heap_Pop I s)))) \<and>
    mset (arr (snd (heap_Pop I s))) = mset (arr s) - {# hd (arr s) #}"
proof -
  define n where "n = length (arr s) - 1"
  have len: "length (arr s) = Suc n" using assms(2) by (simp add: n_def)
  let ?t = "Swap I s 0 n"
  obtain u moved where d: "down I ?t 0 n = (u, moved)" by (cases "down I ?t 0 n")
  have t: "ok ?t" "frame s ?t" "arr ?t = swapl (arr s) 0 n"
    using assms(1) len by (auto simp: Swap_arr Swap_ok Swap_frame)
  have kt: "keys ?t = swapl (keys s) 0 n" using len by (simp add: t(3) map_swapl)
  have u: "reorder n ?t u \<and> heap_upto (keys u) n"
  proof (cases "n = 0")
    case True
    then show ?thesis
      using d t by (auto simp: down_def down_loop.simps reorder_refl heap_upto_def)
  next
    case False
    have "gap (keys ?t) 0 n" unfolding kt using assms(3) False len by (intro gap_after_swap) auto
    with t False len d show ?thesis by (intro down_correct[OF _ _ _ _ _ d]) (auto simp: above_ok_def)
  qed
  then have "reorder (length (arr ?t) - 1) ?t u" using t len by simp
  moreover have ne: "arr ?t \<noteq> []" using len by (metis length_swapl list.size(3) nat.distinct(1) t(3))
  ultimately have last: "arr u \<noteq> [] \<and> last (arr u) = last (arr ?t)"
    by (intro reorder_last)
  have "last (arr ?t) = hd (arr s)"
    using len assms(2) by (subst last_conv_nth) (auto simp: t(3) nth_swapl hd_conv_nth)
  moreover have "snd (heap_Pop I s) = snd (PopI I u)"
    using d len assms(1) by (simp add: heap_Pop_def Let_def Len_arr)
  moreover have "length (arr u) - 1 = n" using u reorder_length[of n ?t u] t len by simp
  moreover have "mset (arr u) = mset (arr s)" "ok u" "frame ?t u"
    using u t len by (auto simp: reorder_def)
  ultimately show ?thesis
    using pop_last[of u] u last t(2) by (auto intro: frame_trans)
qed

text \<open>\<open>Fix\<close> at an entry whose key did not change leaves the heap as it is.\<close>

theorem heap_Fix_unchanged:
  assumes "ok s" "i < length (arr s)" "heap_upto (keys s) (length (arr s))"
  shows "heap_Fix I s i = s"
proof -
  let ?n = "length (arr s)"
  have h: "keys s ! parent c \<le> keys s ! c" if "0 < c" "c < ?n" for c
    using assms(3) that by (simp add: heap_upto_def)
  have no_down: "\<not> Less I s j i" if "parent j = i" "0 < j" "j < ?n" for j
    using h[of j] that assms(1,2) by (auto simp: Less_arr)
  have "down_loop I s i ?n = (s, i)"
  proof -
    define j where "j = (if 2 * i + 2 < ?n \<and> Less I s (2 * i + 2) (2 * i + 1) then 2 * i + 2 else 2 * i + 1)"
    have "parent j = i" "0 < j" "\<not> ?n \<le> 2 * i + 1 \<Longrightarrow> j < ?n" by (auto simp: j_def parent_def)
    with no_down[of j] show ?thesis by (subst down_loop.simps) (auto simp: j_def Let_def)
  qed
  moreover have "up I s i = s"
  proof (cases "i = 0")
    case False
    then have "\<not> Less I s i (parent i)"
      using h[of i] assms(1,2) le_less_trans[OF parent_le assms(2)] by (auto simp: Less_arr)
    then show ?thesis by (simp add: up.simps)
  qed (simp add: up.simps)
  ultimately show ?thesis using assms(1) by (simp add: heap_Fix_def down_def Len_arr)
qed

lemma heap_Init_empty: "ok s \<Longrightarrow> arr s = [] \<Longrightarrow> heap_Init I s = s"
  by (simp add: heap_Init_def Len_arr)

lemma heap_head_least:
  assumes "heap_upto (keys s) (length (arr s))" "e \<in> set (arr s)"
  shows "key (hd (arr s)) \<le> key e"
proof -
  obtain i where i: "i < length (arr s)" "arr s ! i = e" using assms(2) by (auto simp: in_set_conv_nth)
  have "keys s ! 0 \<le> keys s ! i" using assms(1) i(1) by (rule heap_root_least)
  moreover have "arr s \<noteq> []" using i(1) by auto
  ultimately show ?thesis using i by (simp add: hd_conv_nth)
qed

end

end
