(* ===== verification/Clock.thy ===== *)
theory Clock
  imports Prelude
begin

text \<open>
  The matching engine's clock, \<open>now()\<close> of \<open>services/stub/main.go\<close>: the wall clock, bumped so
  that no two calls return the same timestamp. \<open>now\<close> is one call that runs alone; \<open>cas_step\<close>
  is the code's compare-and-swap loop run by any number of goroutines at once, and every
  result it hands out is one that \<open>now\<close> would have returned at that moment.

  The wall clock \<open>time.Now().UnixNano()\<close> is a parameter: \<open>unix_nano n\<close> is its \<open>n\<close>-th
  reading. Nanoseconds since 1970 stay below the range of \<open>int64\<close> until the year 2262, so
  timestamps are plain integers.
\<close>

section \<open>One call at a time\<close>

record clock =
  lastTimestamp :: int64
  readings :: nat

definition now :: "(nat \<Rightarrow> int64) \<Rightarrow> clock \<Rightarrow> int64 \<times> clock" where
  "now unix_nano c =
     (let ts = unix_nano (readings c);
          old = lastTimestamp c;
          ts = (if ts \<le> old then old + 1 else ts)
      in (ts, c\<lparr>lastTimestamp := ts, readings := readings c + 1\<rparr>))"

lemma now_later: "now u c = (ts, c') \<Longrightarrow> lastTimestamp c < ts \<and> lastTimestamp c' = ts"
  by (auto simp: now_def Let_def split: if_splits)

text \<open>The clock after a number of calls, and the timestamps they returned.\<close>

fun ticks :: "(nat \<Rightarrow> int64) \<Rightarrow> nat \<Rightarrow> clock \<Rightarrow> int64 list \<times> clock" where
  "ticks u 0 c = ([], c)"
| "ticks u (Suc n) c = (let (ts, c) = now u c; (rest, c) = ticks u n c in (ts # rest, c))"

lemma ticks_later:
  "ticks u n c = (tss, c') \<Longrightarrow>
    lastTimestamp c \<le> lastTimestamp c' \<and> sorted_wrt (<) (lastTimestamp c # tss) \<and>
    (\<forall>t \<in> set tss. t \<le> lastTimestamp c')"
proof (induction n arbitrary: c tss)
  case 0
  then show ?case by simp
next
  case (Suc n)
  obtain ts c1 where n: "now u c = (ts, c1)" by (cases "now u c")
  obtain rest where t: "ticks u n c1 = (rest, c')" "tss = ts # rest"
    using Suc.prems n by (auto split: prod.splits)
  from Suc.IH[OF t(1)] now_later[OF n] show ?case unfolding t(2) by fastforce
qed

section \<open>The compare-and-swap loop\<close>

text \<open>
  A goroutine inside \<open>now\<close> is at the top of the loop with its timestamp, or holds the value of
  \<open>lastTimestamp\<close> it loaded and the timestamp it is going to install; both carry the wall-clock
  reading the call began with. \<open>returned\<close> records the timestamps in the order in which the
  successful swaps took effect.
\<close>

datatype now_pc =
    Outside
  | LoopTop int64 int64
  | Swapping int64 int64 int64

record cas_state =
  shared :: int64
  pcs :: "nat \<Rightarrow> now_pc"
  returned :: "int64 list"

inductive cas_step :: "cas_state \<Rightarrow> cas_state \<Rightarrow> bool" where
  cas_enter: "pcs s g = Outside \<Longrightarrow> cas_step s (s\<lparr>pcs := (pcs s)(g := LoopTop r r)\<rparr>)"
| cas_load: "pcs s g = LoopTop r ts \<Longrightarrow>
    cas_step s (s\<lparr>pcs := (pcs s)(g :=
      Swapping r (shared s) (if ts \<le> shared s then shared s + 1 else ts))\<rparr>)"
| cas_win: "pcs s g = Swapping r old ts \<Longrightarrow> shared s = old \<Longrightarrow>
    cas_step s (s\<lparr>shared := ts, pcs := (pcs s)(g := Outside), returned := returned s @ [ts]\<rparr>)"
| cas_lose: "pcs s g = Swapping r old ts \<Longrightarrow> shared s \<noteq> old \<Longrightarrow>
    cas_step s (s\<lparr>pcs := (pcs s)(g := LoopTop r ts)\<rparr>)"

definition cas_init :: cas_state where
  "cas_init = \<lparr>shared = 0, pcs = (\<lambda>_. Outside), returned = []\<rparr>"

inductive cas_reachable :: "cas_state \<Rightarrow> bool" where
  cas_start: "cas_reachable cas_init"
| cas_next: "cas_reachable s \<Longrightarrow> cas_step s t \<Longrightarrow> cas_reachable t"

text \<open>
  A goroutine's timestamp is its reading, or a bump the shared value has already reached.
\<close>

definition pc_ok :: "int64 \<Rightarrow> now_pc \<Rightarrow> bool" where
  "pc_ok sh pc \<longleftrightarrow> (case pc of
       Outside \<Rightarrow> True
     | LoopTop r ts \<Rightarrow> ts = r \<or> r \<le> ts \<and> ts \<le> sh
     | Swapping r old ts \<Rightarrow> old \<le> sh \<and> ts = (if r \<le> old then old + 1 else r))"

definition cas_inv :: "cas_state \<Rightarrow> bool" where
  "cas_inv s \<longleftrightarrow> sorted_wrt (<) (returned s) \<and> (\<forall>t \<in> set (returned s). t \<le> shared s) \<and>
     (\<forall>g. pc_ok (shared s) (pcs s g))"

lemma pc_ok_mono: "pc_ok sh pc \<Longrightarrow> sh \<le> sh' \<Longrightarrow> pc_ok sh' pc"
  by (auto simp: pc_ok_def split: now_pc.splits)

lemma pc_ok_at: "cas_inv s \<Longrightarrow> pcs s g = pc \<Longrightarrow> pc_ok (shared s) pc"
  by (auto simp: cas_inv_def)

lemma cas_step_inv [inv_rules]:
  assumes "cas_step s t" "cas_inv s" shows "cas_inv t"
  using assms(1)
proof (cases rule: cas_step.cases)
  case (cas_win g r old ts)
  have lt: "shared s < ts" using pc_ok_at[OF assms(2) cas_win(2)] cas_win(3) by (simp add: pc_ok_def)
  then have "\<forall>x \<in> set (returned s). x < ts" using assms(2) by (auto simp: cas_inv_def)
  moreover have "pc_ok ts (pcs s g')" for g'
    using pc_ok_mono[of "shared s" "pcs s g'" ts] lt assms(2) by (simp add: cas_inv_def)
  ultimately show ?thesis
    using assms(2) cas_win lt by (auto simp: cas_inv_def sorted_wrt_append pc_ok_def)
next
  case (cas_enter g r)
  then show ?thesis using assms(2) by (auto simp: cas_inv_def pc_ok_def)
next
  case (cas_load g r ts)
  then show ?thesis using assms(2) pc_ok_at[OF assms(2) cas_load(2)]
    by (auto simp: cas_inv_def pc_ok_def)
next
  case (cas_lose g r old ts)
  then show ?thesis using assms(2) pc_ok_at[OF assms(2) cas_lose(2)]
    by (auto simp: cas_inv_def pc_ok_def split: if_splits)
qed

lemma cas_reachable_inv: "cas_reachable s \<Longrightarrow> cas_inv s"
proof (induction rule: cas_reachable.induct)
  case cas_start
  show ?case by (simp add: cas_inv_def cas_init_def pc_ok_def)
next
  case (cas_next s t)
  from cas_step_inv[OF cas_next.hyps(2) cas_next.IH] show ?case .
qed

text \<open>
  Every successful swap is one atomic call of \<open>now\<close> that read the wall clock as the goroutine
  did when it entered, however often the swap was lost before.
\<close>

definition cas_clock :: "cas_state \<Rightarrow> clock" where
  "cas_clock s = \<lparr>lastTimestamp = shared s, readings = length (returned s)\<rparr>"

lemma cas_step_refines_now:
  assumes "cas_step s t" "cas_inv s"
  shows "cas_clock t = cas_clock s \<and> returned t = returned s \<or>
    (\<exists>g r old ts. pcs s g = Swapping r old ts \<and>
      now (\<lambda>_. r) (cas_clock s) = (ts, cas_clock t) \<and> returned t = returned s @ [ts])"
  using assms(1)
proof (cases rule: cas_step.cases)
  case (cas_win g r old ts)
  then have "now (\<lambda>_. r) (cas_clock s) = (ts, cas_clock t)"
    using pc_ok_at[OF assms(2) cas_win(2)] by (auto simp: cas_clock_def now_def pc_ok_def Let_def)
  with cas_win show ?thesis by auto
qed (auto simp: cas_clock_def)

text \<open>A lost swap means that another goroutine installed a later timestamp in between.\<close>

lemma cas_lost_to_another:
  assumes "cas_reachable s" "pcs s g = Swapping r old ts" "shared s \<noteq> old"
  shows "old < shared s"
  using pc_ok_at[OF cas_reachable_inv[OF assms(1)] assms(2)] assms(3) by (simp add: pc_ok_def)

section \<open>The loop ends\<close>

text \<open>
  What is left to do: a goroutine at the top of the loop has to load; one whose value is stale has to lose
  its swap first. A swap that wins makes the others stale, and its goroutine leaves.
\<close>

definition busy_step :: "cas_state \<Rightarrow> cas_state \<Rightarrow> bool" where
  "busy_step s t \<longleftrightarrow> cas_step s t \<and> (\<forall>g. pcs s g = Outside \<longrightarrow> pcs t g = Outside)"

definition inside :: "cas_state \<Rightarrow> nat set" where
  "inside s = {g. pcs s g \<noteq> Outside}"

fun turns_left :: "int64 \<Rightarrow> now_pc \<Rightarrow> nat" where
  "turns_left sh Outside = 0"
| "turns_left sh (LoopTop r ts) = 1"
| "turns_left sh (Swapping r old ts) = (if old = sh then 0 else 2)"

definition potential :: "nat set \<Rightarrow> cas_state \<Rightarrow> nat" where
  "potential G s = card (inside s) * (2 * card G + 1) + (\<Sum>g\<in>G. turns_left (shared s) (pcs s g))"

lemma turns_left_le: "turns_left sh pc \<le> 2"
  by (cases pc) auto

lemma inside_upd:
  "inside (s\<lparr>pcs := (pcs s)(g := pc)\<rparr>) = (if pc = Outside then inside s - {g} else insert g (inside s))"
  by (auto simp: inside_def)

lemma sum_upd:
  assumes "finite G" "g \<in> G"
  shows "(\<Sum>x\<in>G. turns_left sh ((f(g := pc)) x)) + turns_left sh (f g) = (\<Sum>x\<in>G. turns_left sh (f x)) + turns_left sh pc"
proof -
  have "(\<Sum>x\<in>G - {g}. turns_left sh ((f(g := pc)) x)) = (\<Sum>x\<in>G - {g}. turns_left sh (f x))"
    by (rule sum.cong) auto
  then show ?thesis using assms by (simp add: sum.remove)
qed

lemma turns_left_sum: "finite G \<Longrightarrow> (\<Sum>g\<in>G. turns_left sh (f g)) \<le> 2 * card G"
proof -
  have "(\<Sum>g\<in>G. turns_left sh (f g)) \<le> of_nat (card G) * 2" by (rule sum_bounded_above) (rule turns_left_le)
  then show ?thesis by simp
qed

text \<open>A turn of the loop stays inside or returns one timestamp; either way there is less to do.\<close>

lemma busy_step_progress:
  assumes "busy_step s t" "finite G" "inside s \<subseteq> G"
  shows "potential G t < potential G s \<and> inside t \<subseteq> inside s \<and>
    length (returned t) + card (inside t) = length (returned s) + card (inside s)"
proof -
  have c: "cas_step s t" and stay: "\<And>g. pcs s g = Outside \<Longrightarrow> pcs t g = Outside"
    using assms(1) by (auto simp: busy_step_def)
  have fin: "finite (inside s)" by (rule finite_subset[OF assms(3,2)])
  have same: "potential G t < potential G s \<and> inside t \<subseteq> inside s \<and>
      length (returned t) + card (inside t) = length (returned s) + card (inside s)"
    if t: "t = s\<lparr>pcs := (pcs s)(g := pc)\<rparr>" and g: "pcs s g \<noteq> Outside" "pc \<noteq> Outside"
      and less: "turns_left (shared s) pc < turns_left (shared s) (pcs s g)" for g pc
  proof -
    have ins: "inside t = inside s" using g by (auto simp: t inside_def)
    have "g \<in> G" using g(1) assms(3) by (auto simp: inside_def)
    from sum_upd[OF assms(2) this, of "shared s" "pcs s" pc] less ins show ?thesis
      by (simp add: potential_def t)
  qed
  show ?thesis using c
  proof (cases rule: cas_step.cases)
    case (cas_enter g r)
    with stay[of g] show ?thesis by simp
  next
    case (cas_load g r ts)
    then show ?thesis by (intro same[of g "Swapping r (shared s) (if ts \<le> shared s then shared s + 1 else ts)"]) simp_all
  next
    case (cas_lose g r old ts)
    then show ?thesis by (intro same[of g "LoopTop r ts"]) simp_all
  next
    case (cas_win g r old ts)
    have g: "g \<in> inside s" using cas_win(2) by (simp add: inside_def)
    have ins: "inside t = inside s - {g}" using cas_win(1) by (auto simp: inside_def)
    then have card: "Suc (card (inside t)) = card (inside s)" using fin g by (metis card.remove)
    have "(\<Sum>x\<in>G. turns_left (shared t) (pcs t x)) \<le> 2 * card G" by (rule turns_left_sum[OF assms(2)])
    then have "potential G t < potential G s"
      unfolding potential_def card[symmetric] by simp
    then show ?thesis using ins card cas_win(1) by auto
  qed
qed

lemma busy_run:
  assumes "(busy_step ^^ n) s t" "finite G" "inside s \<subseteq> G"
  shows "n + potential G t \<le> potential G s \<and> inside t \<subseteq> inside s \<and>
    length (returned t) + card (inside t) = length (returned s) + card (inside s)"
  using assms
proof (induction n arbitrary: s)
  case (Suc n)
  obtain s1 where s1: "busy_step s s1" "(busy_step ^^ n) s1 t" using Suc.prems(1) by (blast dest: relpowp_Suc_D2)
  note p = busy_step_progress[OF s1(1) Suc.prems(2,3)]
  with Suc.prems(3) have "inside s1 \<subseteq> G" by blast
  from Suc.IH[OF s1(2) Suc.prems(2) this] p show ?case by auto
qed simp

text \<open>A goroutine inside is never stuck.\<close>

lemma inside_can_step: "pcs s g \<noteq> Outside \<Longrightarrow> \<exists>t. busy_step s t"
proof (cases "pcs s g")
  case (LoopTop r ts)
  then show ?thesis unfolding busy_step_def
    by (intro exI conjI, rule cas_load) (auto simp: LoopTop)
next
  case (Swapping r old ts)
  show ?thesis
  proof (cases "shared s = old")
    case True
    with Swapping show ?thesis unfolding busy_step_def by (intro exI conjI, rule cas_win) auto
  next
    case False
    with Swapping show ?thesis unfolding busy_step_def by (intro exI conjI, rule cas_lose) auto
  qed
qed simp

lemma busy_step_inside: "busy_step s t \<Longrightarrow> inside s \<noteq> {}"
proof
  assume "busy_step s t" "inside s = {}"
  then have out: "pcs s g = Outside \<and> pcs t g = Outside" for g by (auto simp: busy_step_def inside_def)
  have "cas_step s t" using \<open>busy_step s t\<close> by (simp add: busy_step_def)
  then show False
  proof (cases rule: cas_step.cases)
    case (cas_enter g r)
    then have "pcs t g = LoopTop r r" by simp
    with out[of g] show False by simp
  qed (use out in simp_all)
qed

definition one_caller :: cas_state where
  "one_caller = cas_init\<lparr>pcs := (\<lambda>_. Outside)(0 := LoopTop 5 5)\<rparr>"

text \<open>C32: The compare-and-swap loop of \<open>now\<close> ends, without any fairness: when \<open>k\<close> goroutines are inside and no
  other call begins, every interleaving is over after at most \<open>k * (2 * k + 3)\<close> steps, it can be continued
  as long as one goroutine is inside, and at its end each of the \<open>k\<close> calls has returned its timestamp.\<close>

theorem now_terminates:
  assumes "finite (inside s)" "(busy_step ^^ n) s t"
  shows "n \<le> card (inside s) * (2 * card (inside s) + 3) \<and>
    ((\<nexists>t'. busy_step t t') \<longleftrightarrow> inside t = {}) \<and>
    (inside t = {} \<longleftrightarrow> length (returned t) = length (returned s) + card (inside s))"
proof -
  note r = busy_run[OF assms(2,1) subset_refl]
  have "potential (inside s) s \<le> card (inside s) * (2 * card (inside s) + 1) + 2 * card (inside s)"
    using turns_left_sum[OF assms(1), of "shared s" "pcs s"] by (simp add: potential_def)
  with r have "n \<le> card (inside s) * (2 * card (inside s) + 3)" by (simp add: algebra_simps)
  moreover have "(\<nexists>t'. busy_step t t') \<longleftrightarrow> inside t = {}"
    using inside_can_step[of t] busy_step_inside[of t] by (auto simp: inside_def)
  moreover have "finite (inside t)" using r assms(1) finite_subset by blast
  ultimately show ?thesis using r by auto
qed

theorem now_terminates_witness:
  "\<exists>t. (busy_step ^^ 2) one_caller t \<and> (\<nexists>t'. busy_step t t') \<and> length (returned t) = 1"
proof -
  let ?s1 = "one_caller\<lparr>pcs := (pcs one_caller)(0 := Swapping 5 0 5)\<rparr>"
  let ?t = "?s1\<lparr>shared := 5, pcs := (pcs ?s1)(0 := Outside), returned := returned ?s1 @ [5]\<rparr>"
  have "cas_step one_caller ?s1" using cas_load[of one_caller 0 5 5] by (simp add: one_caller_def cas_init_def)
  moreover have "cas_step ?s1 ?t" by (rule cas_win[of _ _ 5 0]) (simp_all add: one_caller_def cas_init_def)
  ultimately have "busy_step one_caller ?s1" "busy_step ?s1 ?t"
    by (auto simp: busy_step_def one_caller_def)
  then have run: "(busy_step ^^ 2) one_caller ?t" by (auto simp: numeral_2_eq_2)
  have ins: "inside one_caller = {0}" "inside ?t = {}" by (auto simp: inside_def one_caller_def)
  have "length (returned one_caller) = 0" by (simp add: one_caller_def cas_init_def)
  with now_terminates[OF _ run] run ins show ?thesis by auto
qed

end
