(* ===== verification/StubBook.thy ===== *)
theory StubBook
  imports Complex_Main GoHeap Clock "HOL-Library.Product_Lexorder"
begin

text \<open>
  The order book of the reference matching engine (\<open>services/stub/main.go\<close>): the message and
  order types, the two heaps of pointers to orders with their \<open>index\<close> fields, and the
  operations \<open>NewOrderbook\<close>, \<open>match\<close>, \<open>rest\<close>, \<open>remove\<close> and \<open>cancelSession\<close>.

  The code shares each \<open>*Order\<close> between a heap and the map \<open>orders\<close> and updates it through either,
  so orders live in an explicit store: \<open>objs\<close> maps an address to the order there, the heaps and
  the map hold addresses, and \<open>rest\<close> allocates the next address. A price is the rational number
  a \<open>float64\<close> stands for: \<open>encoding/json\<close> delivers finite values only, and the engine does
  nothing with a price but compare it. The book's mutex is held by every operation from start
  to end, so each is one function on the state.
\<close>

section \<open>Messages and orders\<close>

type_synonym price = rat
type_synonym addr = nat

record IncomingMessage =
  in_Type :: string
  in_OrderID :: string
  in_Side :: string
  in_OrderType :: string
  in_Price :: price
  in_Quantity :: int64

datatype OutMessage =
    AckMessage (msg_order: string) (msg_time: int64)
  | FillMessage (msg_order: string) (fill_qty: int64) (fill_price: price) (fill_remaining: int64)
      (msg_time: int64)
  | CancelAckMessage (msg_order: string) (msg_time: int64)
  | RejectMessage (msg_order: string) (reject_reason: string) (msg_time: int64)

record Order =
  OrderID :: string
  Side :: string
  OrderType :: string
  Price :: price
  Quantity :: int64
  Remaining :: int64
  EnteredAt :: int64
  SessionID :: string
  index :: int

definition min64 :: "int64 \<Rightarrow> int64 \<Rightarrow> int64" where
  "min64 a b = (if a < b then a else b)"

lemma min64_min: "min64 a b = min a b"
  by (simp add: min64_def min_def)

section \<open>The two heaps\<close>

text \<open>A heap's state: the orders in memory and the slice of pointers to them.\<close>

type_synonym memory = "addr \<Rightarrow> Order"
type_synonym heap_state = "memory \<times> addr list"

definition set_index :: "memory \<Rightarrow> addr \<Rightarrow> int \<Rightarrow> memory" where
  "set_index m a i = m(a := (m a)\<lparr>index := i\<rparr>)"

definition heap_Swap :: "heap_state \<Rightarrow> nat \<Rightarrow> nat \<Rightarrow> heap_state" where
  "heap_Swap s i j =
     (let (m, h) = s;
          h = swapl h i j;
          m = set_index m (h ! i) (int i);
          m = set_index m (h ! j) (int j)
      in (m, h))"

definition heap_PushI :: "heap_state \<Rightarrow> addr \<Rightarrow> heap_state" where
  "heap_PushI s x =
     (let (m, h) = s; n = length h; m = set_index m x (int n) in (m, h @ [x]))"

definition heap_PopI :: "heap_state \<Rightarrow> addr \<times> heap_state" where
  "heap_PopI s =
     (let (m, h) = s; n = length h; order = h ! (n - 1); m = set_index m order (- 1)
      in (order, m, take (n - 1) h))"

text \<open>\<open>bidHeap\<close>: a higher price is better, at the same price the earlier order.\<close>

definition bid_Less :: "heap_state \<Rightarrow> nat \<Rightarrow> nat \<Rightarrow> bool" where
  "bid_Less s i j =
     (let (m, h) = s
      in if Price (m (h ! i)) \<noteq> Price (m (h ! j)) then Price (m (h ! i)) > Price (m (h ! j))
         else EnteredAt (m (h ! i)) < EnteredAt (m (h ! j)))"

definition bidHeap :: "(heap_state, addr) heap_iface" where
  "bidHeap = \<lparr>Len = (\<lambda>(m, h). length h), Less = bid_Less, Swap = heap_Swap,
              PushI = heap_PushI, PopI = heap_PopI\<rparr>"

text \<open>\<open>askHeap\<close>: a lower price is better, at the same price the earlier order.\<close>

definition ask_Less :: "heap_state \<Rightarrow> nat \<Rightarrow> nat \<Rightarrow> bool" where
  "ask_Less s i j =
     (let (m, h) = s
      in if Price (m (h ! i)) \<noteq> Price (m (h ! j)) then Price (m (h ! i)) < Price (m (h ! j))
         else EnteredAt (m (h ! i)) < EnteredAt (m (h ! j)))"

definition askHeap :: "(heap_state, addr) heap_iface" where
  "askHeap = \<lparr>Len = (\<lambda>(m, h). length h), Less = ask_Less, Swap = heap_Swap,
              PushI = heap_PushI, PopI = heap_PopI\<rparr>"

section \<open>The heaps keep price-time order\<close>

text \<open>
  What a heap holds, whatever the \<open>index\<close> fields are: each pointer with the order behind it.
  The rank of an order on its side makes the better order smaller.
\<close>

definition view :: "Order \<Rightarrow> Order" where
  "view order = order\<lparr>index := 0\<rparr>"

definition entries :: "heap_state \<Rightarrow> (addr \<times> Order) list" where
  "entries s = (let (m, h) = s in map (\<lambda>a. (a, view (m a))) h)"

definition bid_rank :: "Order \<Rightarrow> rat \<times> int64" where
  "bid_rank order = (- Price order, EnteredAt order)"

definition ask_rank :: "Order \<Rightarrow> rat \<times> int64" where
  "ask_rank order = (Price order, EnteredAt order)"

text \<open>
  \<open>slice_ok D\<close>: the pointers are distinct, lie in \<open>D\<close>, and each order knows its place.
  \<open>index_only D\<close>: only \<open>index\<close> fields change, and only in \<open>D\<close>.
\<close>

definition slice_ok :: "addr set \<Rightarrow> heap_state \<Rightarrow> bool" where
  "slice_ok D s = (let (m, h) = s
     in distinct h \<and> set h \<subseteq> D \<and> (\<forall>i < length h. index (m (h ! i)) = int i))"

definition index_only :: "addr set \<Rightarrow> heap_state \<Rightarrow> heap_state \<Rightarrow> bool" where
  "index_only D s s' \<longleftrightarrow>
     (\<forall>a. view (fst s' a) = view (fst s a)) \<and> (\<forall>a. a \<notin> D \<longrightarrow> fst s' a = fst s a)"

definition fresh_in :: "addr set \<Rightarrow> heap_state \<Rightarrow> addr \<Rightarrow> bool" where
  "fresh_in D s a \<longleftrightarrow> a \<in> D \<and> a \<notin> set (snd s)"

lemma view_sel [simp]:
  "OrderID (view x) = OrderID x" "Side (view x) = Side x" "OrderType (view x) = OrderType x"
  "Price (view x) = Price x" "Quantity (view x) = Quantity x" "Remaining (view x) = Remaining x"
  "EnteredAt (view x) = EnteredAt x" "SessionID (view x) = SessionID x" "index (view x) = 0"
  "view (view x) = view x"
  by (simp_all add: view_def)

lemma rank_view [simp]: "bid_rank (view x) = bid_rank x" "ask_rank (view x) = ask_rank x"
  by (simp_all add: bid_rank_def ask_rank_def)

lemma view_set_index [simp]: "view (set_index m a i b) = view (m b)"
  by (simp add: view_def set_index_def)

lemma index_set_index: "index (set_index m a i b) = (if b = a then i else index (m b))"
  by (simp add: set_index_def)

lemma length_entries [simp]: "length (entries s) = length (snd s)"
  by (cases s) (simp add: entries_def)

lemma entries_Nil [simp]: "entries s = [] \<longleftrightarrow> snd s = []"
  by (cases s) (simp add: entries_def)

lemma index_only_set_index: "a \<in> D \<Longrightarrow> index_only D (m, h) (set_index m a i, h')"
  by (auto simp: index_only_def set_index_def view_def)

lemma index_only_refl: "index_only D s s"
  by (simp add: index_only_def)

lemma index_only_trans: "index_only D s t \<Longrightarrow> index_only D t u \<Longrightarrow> index_only D s u"
  by (simp add: index_only_def)

lemma entries_Swap:
  assumes "i < length (snd s)" "j < length (snd s)"
  shows "entries (heap_Swap s i j) = swapl (entries s) i j"
  using assms by (cases s) (simp add: entries_def heap_Swap_def Let_def map_swapl)

lemma slice_ok_Swap:
  assumes "slice_ok D s" "i < length (snd s)" "j < length (snd s)"
  shows "slice_ok D (heap_Swap s i j)" "index_only D s (heap_Swap s i j)"
proof -
  obtain m h where s: "s = (m, h)" by (cases s)
  let ?h = "swapl h i j"
  have h: "distinct ?h" "length ?h = length h" "set ?h = set h" "i < length h" "j < length h"
    using assms by (auto simp: slice_ok_def s)
  have nth_eq: "?h ! k = ?h ! l \<longleftrightarrow> k = l" if "k < length h" "l < length h" for k l
    using h that by (simp add: nth_eq_iff_index_eq)
  have old: "index (m (?h ! k)) = int k" if "k < length h" "k \<noteq> i" "k \<noteq> j" for k
    using that h assms(1) by (simp add: slice_ok_def s nth_swapl)
  have "index (set_index (set_index m (?h ! i) (int i)) (?h ! j) (int j) (?h ! k)) = int k"
    if "k < length h" for k
    using that old[of k] nth_eq[of k i] nth_eq[of k j] h by (auto simp: index_set_index)
  then show "slice_ok D (heap_Swap s i j)"
    using h assms(1) by (simp add: slice_ok_def s heap_Swap_def Let_def)
  have "?h ! i \<in> D" "?h ! j \<in> D"
    using h assms(1) nth_mem[of i ?h] nth_mem[of j ?h] by (auto simp: slice_ok_def s)
  then show "index_only D s (heap_Swap s i j)"
    by (auto simp: index_only_def s heap_Swap_def Let_def set_index_def view_def)
qed

lemma slice_ok_Push:
  assumes "slice_ok D s" "fresh_in D s a"
  shows "entries (heap_PushI s a) = entries s @ [(a, view (fst s a))]"
    "slice_ok D (heap_PushI s a)" "index_only D s (heap_PushI s a)"
  using assms
  by (cases s; auto simp: slice_ok_def fresh_in_def entries_def heap_PushI_def Let_def nth_append
      index_set_index less_Suc_eq intro!: index_only_set_index split: if_splits)+

lemma slice_ok_Pop:
  assumes "slice_ok D s" "snd s \<noteq> []"
  shows "entries (snd (heap_PopI s)) = butlast (entries s)"
    "slice_ok D (snd (heap_PopI s))" "index_only D s (snd (heap_PopI s))"
proof -
  obtain m h where s: "s = (m, h)" by (cases s)
  have h: "h \<noteq> []" "take (length h - 1) h = butlast h" using assms(2) by (auto simp: s butlast_conv_take)
  show "entries (snd (heap_PopI s)) = butlast (entries s)"
    using h by (simp add: s entries_def heap_PopI_def Let_def map_butlast)
  have "h ! i \<noteq> h ! (length h - 1)" if "i < length h - 1" for i
    using assms(1) that h(1) by (simp add: s slice_ok_def nth_eq_iff_index_eq)
  then show "slice_ok D (snd (heap_PopI s))"
    using assms(1) h by (auto simp: s slice_ok_def heap_PopI_def Let_def index_set_index nth_butlast
        distinct_butlast dest: in_set_butlastD)
  have "h ! (length h - 1) \<in> D" using assms(1) h(1) by (auto simp: s slice_ok_def)
  then show "index_only D s (snd (heap_PopI s))"
    by (simp add: s heap_PopI_def Let_def index_only_set_index)
qed

interpretation bid_heap: heap_client bidHeap entries "\<lambda>e. bid_rank (snd e)" "slice_ok D"
  "index_only D" "fresh_in D" "\<lambda>s a. (a, view (fst s a))" for D
proof (unfold_locales, goal_cases)
  case (2 s i j)
  then show ?case
    by (cases s) (auto simp: bidHeap_def entries_def bid_Less_def bid_rank_def less_prod_def)
qed (auto simp: bidHeap_def entries_Swap slice_ok_Swap slice_ok_Push slice_ok_Pop
    index_only_refl intro: index_only_trans)

interpretation ask_heap: heap_client askHeap entries "\<lambda>e. ask_rank (snd e)" "slice_ok D"
  "index_only D" "fresh_in D" "\<lambda>s a. (a, view (fst s a))" for D
proof (unfold_locales, goal_cases)
  case (2 s i j)
  then show ?case
    by (cases s) (auto simp: askHeap_def entries_def ask_Less_def ask_rank_def less_prod_def)
qed (auto simp: askHeap_def entries_Swap slice_ok_Swap slice_ok_Push slice_ok_Pop
    index_only_refl intro: index_only_trans)

section \<open>The order book\<close>

record Orderbook =
  objs :: memory
  next_addr :: addr
  bids :: "addr list"
  asks :: "addr list"
  orders :: "string \<rightharpoonup> addr"

definition NewOrderbook :: Orderbook where
  "NewOrderbook =
     (let m = (\<lambda>_. \<lparr>OrderID = '''', Side = '''', OrderType = '''', Price = 0, Quantity = 0,
                     Remaining = 0, EnteredAt = 0, SessionID = '''', index = 0\<rparr>);
          (m, b) = heap_Init bidHeap (m, []);
          (m, a) = heap_Init askHeap (m, [])
      in \<lparr>objs = m, next_addr = 0, bids = b, asks = a, orders = Map.empty\<rparr>)"

text \<open>Running a heap operation on one of the book's heaps.\<close>

definition on_bids :: "(heap_state \<Rightarrow> heap_state) \<Rightarrow> Orderbook \<Rightarrow> Orderbook" where
  "on_bids f ob = (let (m, h) = f (objs ob, bids ob) in ob\<lparr>objs := m, bids := h\<rparr>)"

definition on_asks :: "(heap_state \<Rightarrow> heap_state) \<Rightarrow> Orderbook \<Rightarrow> Orderbook" where
  "on_asks f ob = (let (m, h) = f (objs ob, asks ob) in ob\<lparr>objs := m, asks := h\<rparr>)"

text \<open>
  \<open>match\<close> has one loop per side of the incoming order; they differ in the heap they consume and
  in the direction of the price test, which are the four definitions that look at \<open>Side\<close>.
\<close>

definition opposite :: "Order \<Rightarrow> Orderbook \<Rightarrow> addr list" where
  "opposite order ob = (if Side order = ''buy'' then asks ob else bids ob)"

definition worse :: "Order \<Rightarrow> Order \<Rightarrow> bool" where
  "worse order best =
     (if Side order = ''buy'' then Price order < Price best else Price order > Price best)"

definition pop_opposite :: "Order \<Rightarrow> Orderbook \<Rightarrow> Orderbook" where
  "pop_opposite order ob =
     (if Side order = ''buy'' then on_asks (\<lambda>h. snd (heap_Pop askHeap h)) ob
      else on_bids (\<lambda>h. snd (heap_Pop bidHeap h)) ob)"

definition fix_opposite :: "Order \<Rightarrow> Orderbook \<Rightarrow> Orderbook" where
  "fix_opposite order ob =
     (if Side order = ''buy'' then on_asks (\<lambda>h. heap_Fix askHeap h 0) ob
      else on_bids (\<lambda>h. heap_Fix bidHeap h 0) ob)"

text \<open>The part of the loop body after the fill is recorded: the best order leaves the book or stays.\<close>

definition settle_best :: "Order \<Rightarrow> addr \<Rightarrow> Orderbook \<Rightarrow> Orderbook" where
  "settle_best order best ob =
     (if Remaining (objs ob best) = 0
      then pop_opposite order (ob\<lparr>orders := (orders ob)(OrderID (objs ob best) := None)\<rparr>)
      else fix_opposite order ob)"

definition take_from :: "addr \<Rightarrow> int64 \<Rightarrow> Orderbook \<Rightarrow> Orderbook" where
  "take_from a qty ob =
     ob\<lparr>objs := (objs ob)(a := (objs ob a)\<lparr>Remaining := i64 (Remaining (objs ob a) - qty)\<rparr>)\<rparr>"

text \<open>Every heap operation keeps the length of the slice, \<open>Pop\<close> shortens it: the loop ends.\<close>

lemma up_keeps: "(\<And>s i j. f (Swap I s i j) = f s) \<Longrightarrow> f (up I s j) = f s"
  by (induction I s j rule: up.induct) (subst up.simps, auto)

lemma down_loop_keeps:
  "(\<And>s i j. f (Swap I s i j) = f s) \<Longrightarrow> f (fst (down_loop I s i n)) = f s"
proof (induction I s i n rule: down_loop.induct)
  case (1 I h i n)
  show ?case
    using "1.IH"[OF refl refl _ "1.prems"] "1.prems" by (subst down_loop.simps) (auto simp: Let_def)
qed

lemma down_keeps: "(\<And>s i j. f (Swap I s i j) = f s) \<Longrightarrow> f (fst (down I s i n)) = f s"
  using down_loop_keeps[of f I s i n] by (cases "down_loop I s i n") (simp add: down_def)

lemma heap_Swap_length: "length (snd (heap_Swap s i j)) = length (snd s)"
  by (auto simp: heap_Swap_def Let_def split: prod.splits)

lemma heap_Pop_length:
  assumes "I = askHeap \<or> I = bidHeap"
  shows "length (snd (snd (heap_Pop I s))) = length (snd s) - 1"
proof -
  have sw: "length (snd (Swap I t i j)) = length (snd t)" for t i j
    using assms by (auto simp: bidHeap_def askHeap_def heap_Swap_length)
  have "PopI I = heap_PopI" using assms by (auto simp: bidHeap_def askHeap_def)
  moreover have "length (snd (snd (heap_PopI t))) = length (snd t) - 1" for t
    by (auto simp: heap_PopI_def Let_def split: prod.splits)
  ultimately show ?thesis
    using down_keeps[of "\<lambda>s. length (snd s)" I "Swap I s 0 (Len I s - 1)" 0 "Len I s - 1", OF sw]
    by (cases "down I (Swap I s 0 (Len I s - 1)) 0 (Len I s - 1)") (simp add: heap_Pop_def Let_def sw)
qed

lemma heap_Fix_length:
  assumes "I = askHeap \<or> I = bidHeap"
  shows "length (snd (heap_Fix I s i)) = length (snd s)"
proof -
  have sw: "length (snd (Swap I t i j)) = length (snd t)" for t i j
    using assms by (auto simp: bidHeap_def askHeap_def heap_Swap_length)
  show ?thesis
    using down_keeps[of "\<lambda>s. length (snd s)" I s i "Len I s", OF sw]
      up_keeps[of "\<lambda>s. length (snd s)" I, OF sw]
    by (auto simp: heap_Fix_def Let_def split: prod.splits)
qed

lemma opposite_pop: "length (opposite order (pop_opposite order ob)) = length (opposite order ob) - 1"
  using heap_Pop_length[of askHeap "(objs ob, asks ob)"] heap_Pop_length[of bidHeap "(objs ob, bids ob)"]
  by (auto simp: opposite_def pop_opposite_def on_asks_def on_bids_def split: prod.splits)

lemma opposite_fix: "length (opposite order (fix_opposite order ob)) = length (opposite order ob)"
  using heap_Fix_length[of askHeap "(objs ob, asks ob)" 0] heap_Fix_length[of bidHeap "(objs ob, bids ob)" 0]
  by (auto simp: opposite_def fix_opposite_def on_asks_def on_bids_def split: prod.splits)

lemma opposite_cong:
  "asks ob = asks ob' \<Longrightarrow> bids ob = bids ob' \<Longrightarrow> Side o1 = Side o2 \<Longrightarrow> opposite o1 ob = opposite o2 ob'"
  by (simp add: opposite_def)

lemma opposite_settle_take:
  "length (opposite order (settle_best order a (take_from a q ob))) =
    (if Remaining (objs (take_from a q ob) a) = 0 then length (opposite order ob) - 1
     else length (opposite order ob))"
proof -
  let ?ob = "take_from a q ob"
  have "opposite order (?ob\<lparr>orders := f\<rparr>) = opposite order ob" "opposite order ?ob = opposite order ob" for f
    by (simp_all add: opposite_def take_from_def)
  then show ?thesis by (simp add: settle_best_def opposite_pop opposite_fix)
qed

function match :: "(nat \<Rightarrow> int64) \<Rightarrow> Orderbook \<Rightarrow> clock \<Rightarrow> Order \<Rightarrow>
    Orderbook \<times> clock \<times> Order \<times> OutMessage list" where
  "match u ob clk order =
     (if Remaining order > 0 \<and> length (opposite order ob) > 0 then
        let best = hd (opposite order ob) in
        if OrderType order = ''limit'' \<and> worse order (objs ob best) then (ob, clk, order, [])
        else
          let qty = min64 (Remaining order) (Remaining (objs ob best));
              order = order\<lparr>Remaining := i64 (Remaining order - qty)\<rparr>;
              ob = take_from best qty ob;
              (ts, clk) = now u clk;
              fill = FillMessage (OrderID order) qty (Price (objs ob best)) (Remaining order) ts;
              ob = settle_best order best ob;
              (ob, clk, order, fills) = match u ob clk order
          in (ob, clk, order, fill # fills)
      else (ob, clk, order, []))"
  by pat_completeness auto
termination
proof (relation "measure (\<lambda>(u, ob, clk, order).
    length (opposite order ob) + (if Remaining order > 0 then 1 else 0))", goal_cases)
  case 1
  show ?case by simp
next
  case (2 u ob clk order best qty order' ob' p ts clk' fill ob'')
  have side: "opposite order' = opposite order" "settle_best order' = settle_best order"
    using 2 by (auto simp: opposite_def settle_best_def pop_opposite_def fix_opposite_def fun_eq_iff)
  have len: "length (opposite order' ob'') = (if Remaining (objs ob' best) = 0
      then length (opposite order ob) - 1 else length (opposite order ob))"
    using 2 side opposite_settle_take[of order best qty ob] by simp
  have "Remaining (objs ob' best) = 0 \<or> Remaining order' = 0"
    using 2 by (auto simp: take_from_def min64_def i64_def)
  with 2 len show ?case by (auto split: if_splits)
qed

declare match.simps [simp del]

text \<open>\<open>rest\<close> puts what is left of a limit order on the book, at a fresh address.\<close>

definition rest :: "Order \<Rightarrow> Orderbook \<Rightarrow> Orderbook" where
  "rest order ob =
     (let a = next_addr ob;
          ob = ob\<lparr>objs := (objs ob)(a := order), next_addr := a + 1\<rparr>;
          ob = ob\<lparr>orders := (orders ob)(OrderID order \<mapsto> a)\<rparr>
      in if Side order = ''buy'' then on_bids (\<lambda>h. heap_Push bidHeap h a) ob
         else on_asks (\<lambda>h. heap_Push askHeap h a) ob)"

definition remove :: "string \<Rightarrow> Orderbook \<Rightarrow> Orderbook" where
  "remove orderID ob =
     (case orders ob orderID of
        None \<Rightarrow> ob
      | Some a \<Rightarrow>
          let order = objs ob a;
              ob = ob\<lparr>orders := (orders ob)(orderID := None)\<rparr>
          in if Side order = ''buy'' then
               if index order \<ge> 0 \<and> index order < int (length (bids ob))
               then on_bids (\<lambda>h. snd (heap_Remove bidHeap h (nat (index order)))) ob else ob
             else if Side order = ''sell'' then
               if index order \<ge> 0 \<and> index order < int (length (asks ob))
               then on_asks (\<lambda>h. snd (heap_Remove askHeap h (nat (index order)))) ob else ob
             else ob)"

text \<open>
  \<open>cancelSession\<close> ranges over the map, which Go visits in an unspecified order: \<open>visit\<close> is that
  order, the keys of the map in some sequence.
\<close>

definition cancelSession :: "string list \<Rightarrow> string \<Rightarrow> Orderbook \<Rightarrow> Orderbook" where
  "cancelSession visit sessionID ob =
     (let toRemove = [a. k \<leftarrow> visit, a \<leftarrow> (case orders ob k of None \<Rightarrow> [] | Some a \<Rightarrow> [a]),
                         SessionID (objs ob a) = sessionID]
      in fold (\<lambda>a ob. remove (OrderID (objs ob a)) ob) toRemove ob)"

end
