(* ===== verification/StubSides.thy ===== *)
theory StubSides
  imports StubBook
begin

text \<open>
  One side of the order book as a sorted list. The locale \<open>book_side\<close> is what \<open>match\<close>, \<open>rest\<close>
  and \<open>remove\<close> need to know of a heap of pointers: it is a client of the heap package for a rank
  of orders. Inside it, the heap operations become list operations on \<open>ranked\<close>, the orders of
  the side from best to worst: \<open>Pop\<close> drops the head, \<open>Push\<close> inserts by rank, \<open>Remove\<close> filters.
\<close>

definition pointers :: "heap_state \<Rightarrow> addr set" where
  "pointers s = set (snd s)"

definition side_orders :: "heap_state \<Rightarrow> Order list" where
  "side_orders s = map snd (entries s)"

text \<open>Equal but for \<open>index\<close> and \<open>Remaining\<close>.\<close>

definition same_order :: "Order \<Rightarrow> Order \<Rightarrow> bool" where
  "same_order x y \<longleftrightarrow> (view x)\<lparr>Remaining := 0\<rparr> = (view y)\<lparr>Remaining := 0\<rparr>"

lemma same_orderD:
  assumes "same_order x y"
  shows "OrderID x = OrderID y" "Side x = Side y" "OrderType x = OrderType y" "Price x = Price y"
    "Quantity x = Quantity y" "EnteredAt x = EnteredAt y" "SessionID x = SessionID y"
  using assms by (cases x; cases y; simp add: same_order_def view_def)+

lemma same_order_view: "view x = view y \<Longrightarrow> same_order x y"
  by (simp add: same_order_def)

lemma same_order_refl [simp]: "same_order x x"
  by (simp add: same_order_def)

lemma view_Remaining: "view x = view y \<Longrightarrow> Remaining x = Remaining y"
  by (metis view_sel(6))

locale book_side =
  fixes I :: "(heap_state, addr) heap_iface"
    and rank :: "Order \<Rightarrow> rat \<times> int64"
  assumes client: "heap_client I entries (\<lambda>e. rank (snd e)) (slice_ok D) (index_only D)
      (fresh_in D) (\<lambda>s a. (a, view (fst s a)))"
    and rank_entered: "rank x = rank y \<Longrightarrow> EnteredAt x = EnteredAt y"
    and rank_of_view: "rank (view x) = rank x"
    and rank_Remaining: "rank (x\<lparr>Remaining := r\<rparr>) = rank x"
begin

definition heaped :: "heap_state \<Rightarrow> bool" where
  "heaped s \<longleftrightarrow> slice_ok (pointers s) s \<and>
     heap_upto (map (\<lambda>e. rank (snd e)) (entries s)) (length (entries s)) \<and>
     distinct (map rank (side_orders s))"

definition ranked :: "heap_state \<Rightarrow> Order list" where
  "ranked s = sort_key rank (side_orders s)"

lemma side_orders_views: "side_orders (m, h) = map (\<lambda>a. view (m a)) h"
  by (simp add: side_orders_def entries_def)

lemma heaped_slice: "heaped s \<Longrightarrow> slice_ok (pointers s) s"
  by (simp add: heaped_def)

lemma heaped_index:
  assumes "heaped (m, h)" "a \<in> set h"
  shows "0 \<le> index (m a) \<and> index (m a) < int (length h) \<and> h ! nat (index (m a)) = a"
proof -
  obtain i where "i < length h" "h ! i = a" using assms(2) by (auto simp: in_set_conv_nth)
  with assms(1) show ?thesis by (auto simp: heaped_def slice_ok_def)
qed

lemma ranked_set: "set (ranked (m, h)) = (\<lambda>a. view (m a)) ` set h"
  by (simp add: ranked_def side_orders_views)

lemma ranked_sorted: "sorted (map rank (ranked s))"
  by (simp add: ranked_def)

lemma ranked_distinct: "heaped s \<Longrightarrow> distinct (map rank (ranked s))"
  unfolding ranked_def heaped_def
  by (metis mset_eq_imp_distinct_iff mset_map mset_sort)

text \<open>What \<open>slice_ok\<close> asks of the store does not depend on the superset of the pointers.\<close>

lemma slice_ok_pointers: "slice_ok D s \<Longrightarrow> slice_ok (pointers s) s"
  by (cases s) (auto simp: slice_ok_def pointers_def)

lemma slice_ok_mono: "slice_ok D s \<Longrightarrow> D \<subseteq> D' \<Longrightarrow> slice_ok D' s"
  by (cases s) (auto simp: slice_ok_def)

text \<open>
  An operation that drops one entry, as \<open>heap_client\<close> describes it, read as a list operation:
  the entry \<open>e\<close> at place \<open>i\<close> goes, whatever the heap does to the places.
\<close>

lemma after_removal:
  assumes h: "heaped s" and e: "i < length (snd s)"
    and t: "slice_ok (pointers s) t" "index_only (pointers s) s t"
      "heap_upto (map (\<lambda>e. rank (snd e)) (entries t)) (length (entries t))"
      "mset (entries t) = mset (entries s) - {# entries s ! i #}"
  shows "heaped t \<and> pointers t = pointers s - {snd s ! i} \<and>
    mset (side_orders t) = mset (side_orders s) - {# view (fst s (snd s ! i)) #} \<and>
    view (fst s (snd s ! i)) \<in> set (side_orders s)"
proof -
  obtain m hp where s: "s = (m, hp)" by (cases s)
  obtain m' hp' where t': "t = (m', hp')" by (cases t)
  have ei: "entries s ! i = (hp ! i, view (m (hp ! i)))" "entries s ! i \<in> set (entries s)"
    using e by (auto simp: s entries_def)
  have "image_mset fst (mset (entries t)) = image_mset fst (mset (entries s)) - {# hp ! i #}"
    using ei by (simp add: t(4) image_mset_Diff)
  then have "mset hp' = mset hp - {# hp ! i #}"
    by (simp add: s t' entries_def image_mset.compositionality comp_def)
  moreover have "distinct hp" using h by (simp add: s heaped_def slice_ok_def)
  ultimately have ptr: "set hp' = set hp - {hp ! i}"
    using mset_eq_setD[of hp' "remove1 (hp ! i) hp"] by (simp add: set_remove1_eq)
  have so: "mset (side_orders t) = mset (side_orders s) - {# view (m (hp ! i)) #}"
    "view (m (hp ! i)) \<in> set (side_orders s)"
    using ei by (simp_all add: side_orders_def t(4) image_mset_Diff) (force simp: image_iff)
  have "mset (map rank (side_orders s)) = mset (rank (view (m (hp ! i))) # map rank (side_orders t))"
    using so by (simp add: image_mset_Diff)
  from mset_eq_imp_distinct_iff[OF this] have "distinct (map rank (side_orders t))"
    using h by (simp add: heaped_def)
  with t(3) slice_ok_pointers[OF t(1)] have "heaped t" by (simp add: heaped_def)
  with ptr so show ?thesis by (simp add: s t' pointers_def)
qed

text \<open>\<open>Pop\<close> removes the best order.\<close>

lemma best_first:
  assumes "heaped (m, h)" "h \<noteq> []"
  shows "\<forall>y \<in> set (side_orders (m, h)). rank (view (m (hd h))) \<le> rank y"
proof -
  note heap = heap_client.heap_head_least[OF client, of "(m, h)"]
  have hd: "hd (entries (m, h)) = (hd h, view (m (hd h)))"
    using assms(2) by (simp add: entries_def list.map_sel)
  show ?thesis
    using heap assms(1) hd by (auto simp: heaped_def side_orders_def)
qed

lemma head_ranked:
  assumes "heaped (m, a # h)"
  shows "ranked (m, a # h) = view (m a) # sort_key rank (map (\<lambda>b. view (m b)) h)"
  unfolding ranked_def side_orders_views
proof (rule sort_key_head)
  show "distinct (map rank (map (\<lambda>b. view (m b)) (a # h)))"
    using assms by (simp add: heaped_def side_orders_views)
  show "\<forall>y \<in> set (map (\<lambda>b. view (m b)) (a # h)). rank (view (m a)) \<le> rank y"
    using best_first[OF assms] by (simp add: side_orders_views)
qed auto

lemma pop_ranked:
  assumes "heaped (m, h)" "h \<noteq> []"
  defines "t \<equiv> snd (heap_Pop I (m, h))"
  shows "heaped t" "index_only (set h) (m, h) t" "pointers t = set h - {hd h}"
    "ranked (m, h) = view (m (hd h)) # ranked t"
proof -
  have pop: "slice_ok (set h) t" "index_only (set h) (m, h) t"
    "heap_upto (map (\<lambda>e. rank (snd e)) (entries t)) (length (entries t))"
    "mset (entries t) = mset (entries (m, h)) - {# hd (entries (m, h)) #}"
    unfolding t_def
    using heap_client.heap_Pop_correct[OF client, of "set h" "(m, h)"] assms(1,2)
    by (auto simp: heaped_def pointers_def)
  have "hd (entries (m, h)) = entries (m, h) ! 0" using assms(2) by (simp add: hd_conv_nth)
  then have r: "heaped t \<and> pointers t = pointers (m, h) - {h ! 0} \<and>
      mset (side_orders t) = mset (side_orders (m, h)) - {# view (m (h ! 0)) #} \<and>
      view (m (h ! 0)) \<in> set (side_orders (m, h))"
    using after_removal[OF assms(1), of 0 t] pop assms(2) by (simp add: pointers_def)
  show "heaped t" "index_only (set h) (m, h) t" "pointers t = set h - {hd h}"
    using r pop(2) assms(2) by (simp_all add: pointers_def hd_conv_nth)
  show "ranked (m, h) = view (m (hd h)) # ranked t"
    unfolding ranked_def using r best_first[OF assms(1,2)] assms
    by (intro sort_key_head) (simp_all add: hd_conv_nth heaped_def)
qed

lemma remove_ranked:
  assumes "heaped (m, h)" "a \<in> set h"
  defines "t \<equiv> snd (heap_Remove I (m, h) (nat (index (m a))))"
  shows "heaped t" "index_only (set h) (m, h) t" "pointers t = set h - {a}"
    "ranked t = filter (\<lambda>x. x \<noteq> view (m a)) (ranked (m, h))"
proof -
  define i where "i = nat (index (m a))"
  have i: "i < length h" "h ! i = a" using heaped_index[OF assms(1,2)] by (auto simp: i_def)
  have rem: "slice_ok (set h) t" "index_only (set h) (m, h) t"
    "heap_upto (map (\<lambda>e. rank (snd e)) (entries t)) (length (entries t))"
    "mset (entries t) = mset (entries (m, h)) - {# entries (m, h) ! i #}"
    unfolding t_def i_def[symmetric]
    using heap_client.heap_Remove_correct[OF client, of "set h" "(m, h)" i] assms(1) i
    by (auto simp: heaped_def pointers_def)
  have r: "heaped t \<and> pointers t = pointers (m, h) - {a} \<and>
      mset (side_orders t) = mset (side_orders (m, h)) - {# view (m a) #} \<and>
      view (m a) \<in> set (side_orders (m, h))"
    using after_removal[OF assms(1), of i t] rem i by (simp add: pointers_def)
  show "heaped t" "index_only (set h) (m, h) t" "pointers t = set h - {a}"
    using r rem(2) by (simp_all add: pointers_def)
  show "ranked t = filter (\<lambda>x. x \<noteq> view (m a)) (ranked (m, h))"
    unfolding ranked_def using r assms by (intro sort_key_delete) (simp_all add: heaped_def)
qed

lemma push_ranked:
  assumes "heaped (m, h)" "a \<notin> set h" "\<forall>b \<in> set h. EnteredAt (m b) \<noteq> EnteredAt (m a)"
  defines "t \<equiv> heap_Push I (m, h) a"
  shows "heaped t" "index_only (insert a (set h)) (m, h) t" "pointers t = insert a (set h)"
    "ranked t = insort_key rank (view (m a)) (ranked (m, h))"
proof -
  let ?D = "insert a (set h)"
  have "slice_ok ?D (m, h)"
    using assms(1) slice_ok_mono[of "set h" "(m, h)" ?D] by (auto simp: heaped_def pointers_def)
  then have push: "slice_ok ?D t" "index_only ?D (m, h) t"
    "heap_upto (map (\<lambda>e. rank (snd e)) (entries t)) (length (entries t))"
    "mset (entries t) = add_mset (a, view (m a)) (mset (entries (m, h)))"
    unfolding t_def
    using heap_client.heap_Push_correct[OF client, of ?D "(m, h)" a] assms(1,2)
    by (auto simp: heaped_def fresh_in_def)
  obtain m' h' where t': "t = (m', h')" by (cases t)
  have "mset (map fst (entries t)) = mset (a # map fst (entries (m, h)))" by (simp add: push(4))
  then have "mset h' = mset (a # h)" by (simp add: t' entries_def comp_def)
  then have ptr: "set h' = ?D" using mset_eq_setD[of h' "a # h"] by simp
  have so: "mset (side_orders t) = add_mset (view (m a)) (mset (side_orders (m, h)))"
    by (simp add: side_orders_def push(4))
  have "rank (view (m b)) \<noteq> rank (view (m a))" if "b \<in> set h" for b
    using rank_entered[of "view (m b)" "view (m a)"] assms(3) that by auto
  then have "distinct (map rank (view (m a) # side_orders (m, h)))"
    using assms(1) by (fastforce simp: heaped_def side_orders_views)
  then have dist: "distinct (map rank (side_orders t))"
    using so by (metis mset.simps(2) mset_eq_imp_distinct_iff mset_map)
  show "heaped t" "index_only ?D (m, h) t" "pointers t = ?D"
    using push ptr dist by (auto simp: heaped_def t' pointers_def)
  show "ranked t = insort_key rank (view (m a)) (ranked (m, h))"
    unfolding ranked_def using so dist by (rule sort_key_insert)
qed

lemma fix_ranked:
  assumes "heaped (m, h)" "h \<noteq> []"
  shows "heap_Fix I (m, h) 0 = (m, h)"
  using heap_client.heap_Fix_unchanged[OF client, of "set h" "(m, h)" 0] assms
  by (simp add: heaped_def pointers_def)

lemma heaped_cong:
  assumes "\<And>a. a \<in> set h \<Longrightarrow> m' a = m a"
  shows "heaped (m', h) = heaped (m, h)" "ranked (m', h) = ranked (m, h)"
proof -
  have "entries (m', h) = entries (m, h)" using assms by (simp add: entries_def)
  then show "heaped (m', h) = heaped (m, h)" "ranked (m', h) = ranked (m, h)"
    using assms by (simp_all add: heaped_def ranked_def side_orders_def pointers_def slice_ok_def)
qed

lemma heaped_Nil: "heaped (m, [])" "ranked (m, []) = []"
  by (simp_all add: heaped_def ranked_def side_orders_views pointers_def slice_ok_def entries_def
      heap_upto_def)

text \<open>A fill changes the best order's \<open>Remaining\<close> and nothing of the order of the side.\<close>

lemma fill_ranked:
  fixes r :: int64
  assumes "heaped (m, a # h)"
  defines "m' \<equiv> m(a := (m a)\<lparr>Remaining := r\<rparr>)"
  shows "heaped (m', a # h)"
    "ranked (m', a # h) = (view (m a))\<lparr>Remaining := r\<rparr> # tl (ranked (m, a # h))"
proof -
  have ah: "a \<notin> set h" using assms(1) by (auto simp: heaped_def slice_ok_def)
  have view: "view (m' b) = (if b = a then (view (m a))\<lparr>Remaining := r\<rparr> else view (m b))" for b
    by (simp add: m'_def view_def)
  have "map (\<lambda>e. rank (snd e)) (entries (m', a # h)) = map (\<lambda>e. rank (snd e)) (entries (m, a # h))"
    using ah by (auto simp: entries_def view rank_Remaining)
  moreover have "map rank (side_orders (m', a # h)) = map rank (side_orders (m, a # h))"
    using ah by (auto simp: side_orders_views view rank_Remaining)
  moreover have "index (m' b) = index (m b)" for b by (simp add: m'_def)
  ultimately show h': "heaped (m', a # h)"
    using assms(1) by (simp add: heaped_def slice_ok_def pointers_def)
  have eq: "map (\<lambda>b. view (m' b)) h = map (\<lambda>b. view (m b)) h" using ah by (auto simp: view)
  show "ranked (m', a # h) = (view (m a))\<lparr>Remaining := r\<rparr> # tl (ranked (m, a # h))"
    unfolding head_ranked[OF h'] head_ranked[OF assms(1)] eq using view[of a] by simp
qed

text \<open>
  One turn of \<open>match\<close> on a side: the best order gives \<open>q\<close>, and leaves when that was all it had.
\<close>

lemma settle_ranked:
  fixes q :: int64
  assumes h: "heaped (m, a # h)" and q: "0 < q" "q \<le> Remaining (m a)"
  defines "m1 \<equiv> m(a := (m a)\<lparr>Remaining := Remaining (m a) - q\<rparr>)"
  defines "t \<equiv> (if Remaining (m a) - q = 0 then snd (heap_Pop I (m1, a # h)) else heap_Fix I (m1, a # h) 0)"
  shows "heaped t" "\<And>b. same_order (fst t b) (m b)" "\<And>b. b \<notin> set (a # h) \<Longrightarrow> fst t b = m b"
    "pointers t = (if Remaining (m a) - q = 0 then set h else set (a # h))"
    "\<And>b. Remaining (fst t b) = (if b = a then Remaining (m a) - q else Remaining (m b))"
    "ranked t = (if q = Remaining (m a) then tl (ranked (m, a # h))
       else (hd (ranked (m, a # h)))\<lparr>Remaining := Remaining (m a) - q\<rparr> # tl (ranked (m, a # h)))"
proof -
  note f = fill_ranked[OF h, of "Remaining (m a) - q", folded m1_def]
  note p = pop_ranked[OF f(1)]
  have ah: "a \<notin> set h" using h by (auto simp: heaped_def slice_ok_def)
  have so1: "same_order (m1 b) (m b)" for b by (simp add: m1_def same_order_def view_def)
  have rem1: "Remaining (m1 b) = (if b = a then Remaining (m a) - q else Remaining (m b))" for b
    by (simp add: m1_def)
  have t: "t = (m1, a # h)" if "Remaining (m a) - q \<noteq> 0"
    using that fix_ranked[OF f(1)] by (simp add: t_def)
  have t0: "t = snd (heap_Pop I (m1, a # h))" if "Remaining (m a) - q = 0"
    using that by (simp add: t_def)
  have io: "view (fst t b) = view (m1 b)" "b \<notin> set (a # h) \<Longrightarrow> fst t b = m1 b" for b
    using t t0 p(2) by (cases "Remaining (m a) - q = 0"; simp add: index_only_def)+
  show "heaped t" using t t0 p(1) f(1) by (cases "Remaining (m a) - q = 0") auto
  show "same_order (fst t b) (m b)" for b
    using io(1)[of b] so1[of b] by (simp add: same_order_def)
  show "b \<notin> set (a # h) \<Longrightarrow> fst t b = m b" for b using io(2)[of b] by (simp add: m1_def)
  show "pointers t = (if Remaining (m a) - q = 0 then set h else set (a # h))"
    using t t0 p(3) ah by (cases "Remaining (m a) - q = 0") (auto simp: pointers_def)
  show "Remaining (fst t b) = (if b = a then Remaining (m a) - q else Remaining (m b))" for b
    using view_Remaining[OF io(1)[of b]] rem1[of b] by simp
  show "ranked t = (if q = Remaining (m a) then tl (ranked (m, a # h))
       else (hd (ranked (m, a # h)))\<lparr>Remaining := Remaining (m a) - q\<rparr> # tl (ranked (m, a # h)))"
  proof (cases "Remaining (m a) - q = 0")
    case True
    with t0 p(4) f(2) show ?thesis by simp
  next
    case False
    with t f(2) head_ranked[OF h] show ?thesis by simp
  qed
qed

end

interpretation bid_side: book_side bidHeap bid_rank
  by (rule book_side.intro) (rule bid_heap.heap_client_axioms, auto simp: bid_rank_def)

interpretation ask_side: book_side askHeap ask_rank
  by (rule book_side.intro) (rule ask_heap.heap_client_axioms, auto simp: ask_rank_def)

end
