(* ===== verification/StubMatch.thy ===== *)
theory StubMatch
  imports StubSides
begin

text \<open>
  The book operations of the matching engine against their contract. The contract is the list
  \<open>spec_match\<close>: an incoming order walks down the other side of the book, best order first. The
  theorems here say that the code's \<open>match\<close>, \<open>rest\<close>, \<open>remove\<close> and \<open>cancelSession\<close> on heaps,
  shared orders and a map compute what the contract says on sorted lists, and keep \<open>wf_book\<close>.
\<close>

section \<open>The contract\<close>

text \<open>A fill as the incoming order sees it: quantity, price, what remains of the order.\<close>

type_synonym fill = "int64 \<times> price \<times> int64"

fun spec_match :: "Order \<Rightarrow> Order list \<Rightarrow> Order \<times> Order list \<times> fill list" where
  "spec_match order [] = (order, [], [])"
| "spec_match order (best # others) =
     (if Remaining order \<le> 0 \<or> OrderType order = ''limit'' \<and> worse order best
      then (order, best # others, [])
      else if Remaining best \<le> Remaining order
      then (case spec_match (order\<lparr>Remaining := Remaining order - Remaining best\<rparr>) others of
              (order', others', fills) \<Rightarrow>
                (order', others',
                 (Remaining best, Price best, Remaining order - Remaining best) # fills))
      else (order\<lparr>Remaining := 0\<rparr>, best\<lparr>Remaining := Remaining best - Remaining order\<rparr> # others,
            [(Remaining order, Price best, 0)]))"

section \<open>The book's invariant\<close>

definition resting :: "Orderbook \<Rightarrow> addr set" where
  "resting ob = set (bids ob) \<union> set (asks ob)"

text \<open>What holds of every order on the book, at a time when the last timestamp was \<open>T\<close>.\<close>

definition order_ok :: "int64 \<Rightarrow> Order \<Rightarrow> bool" where
  "order_ok T x \<longleftrightarrow> OrderType x = ''limit'' \<and> 0 < Price x \<and> 0 < Remaining x \<and>
     Remaining x \<le> Quantity x \<and> Quantity x < 2 ^ 63 \<and> EnteredAt x \<le> T"

definition wf_book :: "int64 \<Rightarrow> Orderbook \<Rightarrow> bool" where
  "wf_book T ob \<longleftrightarrow>
     bid_side.heaped (objs ob, bids ob) \<and> ask_side.heaped (objs ob, asks ob) \<and>
     set (bids ob) \<inter> set (asks ob) = {} \<and>
     (\<forall>a \<in> resting ob. a < next_addr ob \<and> order_ok T (objs ob a)) \<and>
     (\<forall>a \<in> set (bids ob). Side (objs ob a) = ''buy'') \<and>
     (\<forall>a \<in> set (asks ob). Side (objs ob a) = ''sell'') \<and>
     (\<forall>b \<in> set (bids ob). \<forall>a \<in> set (asks ob). Price (objs ob b) < Price (objs ob a)) \<and>
     (\<forall>k a. orders ob k = Some a \<longleftrightarrow> a \<in> resting ob \<and> OrderID (objs ob a) = k)"

lemma wf_book_later: "wf_book T ob \<Longrightarrow> T \<le> T' \<Longrightarrow> wf_book T' ob"
  by (force simp: wf_book_def order_ok_def)

lemma wf_NewOrderbook: "wf_book T NewOrderbook"
  by (simp add: wf_book_def NewOrderbook_def heap_Init_def Let_def bidHeap_def askHeap_def resting_def
      bid_side.heaped_Nil ask_side.heaped_Nil)

text \<open>The abstract book: the orders of each side, best first.\<close>

definition bid_list :: "Orderbook \<Rightarrow> Order list" where
  "bid_list ob = bid_side.ranked (objs ob, bids ob)"

definition ask_list :: "Orderbook \<Rightarrow> Order list" where
  "ask_list ob = ask_side.ranked (objs ob, asks ob)"

lemma bid_list_code [code]: "bid_list ob = sort_key bid_rank (map (\<lambda>a. view (objs ob a)) (bids ob))"
  by (simp add: bid_list_def bid_side.ranked_def bid_side.side_orders_views)

lemma ask_list_code [code]: "ask_list ob = sort_key ask_rank (map (\<lambda>a. view (objs ob a)) (asks ob))"
  by (simp add: ask_list_def ask_side.ranked_def ask_side.side_orders_views)

definition opposite_list :: "Order \<Rightarrow> Orderbook \<Rightarrow> Order list" where
  "opposite_list order ob = (if Side order = ''buy'' then ask_list ob else bid_list ob)"

definition own_list :: "Order \<Rightarrow> Orderbook \<Rightarrow> Order list" where
  "own_list order ob = (if Side order = ''buy'' then bid_list ob else ask_list ob)"

lemma list_sets:
  "set (bid_list ob) = (\<lambda>a. view (objs ob a)) ` set (bids ob)"
  "set (ask_list ob) = (\<lambda>a. view (objs ob a)) ` set (asks ob)"
  by (simp_all add: bid_list_def ask_list_def bid_side.ranked_set ask_side.ranked_set)

text \<open>
  The book after at most one order left it and the orders that stay kept everything but
  \<open>index\<close> and \<open>Remaining\<close>: what \<open>match\<close> does in a turn of its loop, and \<open>remove\<close>.
\<close>

lemma wf_book_shrink:
  assumes wf: "wf_book T ob"
    and heaps: "bid_side.heaped (objs ob', bids ob')" "ask_side.heaped (objs ob', asks ob')"
    and sub: "set (bids ob') \<subseteq> set (bids ob)" "set (asks ob') \<subseteq> set (asks ob)"
    and nxt: "next_addr ob' = next_addr ob"
    and same: "\<And>a. a \<in> resting ob' \<Longrightarrow> same_order (objs ob' a) (objs ob a)"
    and rem: "\<And>a. a \<in> resting ob' \<Longrightarrow>
      0 < Remaining (objs ob' a) \<and> Remaining (objs ob' a) \<le> Remaining (objs ob a)"
    and ord: "orders ob' = orders ob \<and> resting ob' = resting ob \<or>
      (\<exists>x \<in> resting ob. orders ob' = (orders ob)(OrderID (objs ob x) := None) \<and>
        resting ob' = resting ob - {x})"
  shows "wf_book T ob'"
proof -
  have rs: "resting ob' \<subseteq> resting ob" using sub by (auto simp: resting_def)
  have eq: "OrderID (objs ob' a) = OrderID (objs ob a)" "Side (objs ob' a) = Side (objs ob a)"
    "OrderType (objs ob' a) = OrderType (objs ob a)" "Price (objs ob' a) = Price (objs ob a)"
    "Quantity (objs ob' a) = Quantity (objs ob a)" "EnteredAt (objs ob' a) = EnteredAt (objs ob a)"
    if "a \<in> resting ob'" for a
    using same_orderD[OF same[OF that]] by simp_all
  have old: "a < next_addr ob \<and> order_ok T (objs ob a)" if "a \<in> resting ob'" for a
    using wf rs that by (auto simp: wf_book_def)
  have ok: "a < next_addr ob' \<and> order_ok T (objs ob' a)" if "a \<in> resting ob'" for a
    using old[OF that] eq[OF that] rem[OF that] nxt by (simp add: order_ok_def)
  have orders_ob: "orders ob k = Some a \<longleftrightarrow> a \<in> resting ob \<and> OrderID (objs ob a) = k" for k a
    using wf by (simp add: wf_book_def)
  have orders': "orders ob' k = Some a \<longleftrightarrow> a \<in> resting ob' \<and> OrderID (objs ob' a) = k" for k a
    using ord
  proof (elim disjE bexE conjE)
    assume "orders ob' = orders ob" "resting ob' = resting ob"
    then show ?thesis using orders_ob[of k a] eq(1)[of a] by auto
  next
    fix x assume x: "x \<in> resting ob" "orders ob' = (orders ob)(OrderID (objs ob x) := None)"
      "resting ob' = resting ob - {x}"
    have "a = x" if "a \<in> resting ob" "OrderID (objs ob a) = OrderID (objs ob x)"
      using orders_ob[of "OrderID (objs ob x)" a] orders_ob[of "OrderID (objs ob x)" x] x(1) that
      by simp
    then have "a \<in> resting ob' \<longleftrightarrow> a \<in> resting ob \<and> OrderID (objs ob a) \<noteq> OrderID (objs ob x)"
      unfolding x(3) by auto
    moreover have "orders ob' k = Some a \<longleftrightarrow> k \<noteq> OrderID (objs ob x) \<and> orders ob k = Some a"
      unfolding x(2) by simp
    ultimately show ?thesis using orders_ob[of k a] eq(1)[of a] by metis
  qed
  have side: "a \<in> set (bids ob') \<Longrightarrow> a \<in> resting ob'" "a \<in> set (asks ob') \<Longrightarrow> a \<in> resting ob'" for a
    by (simp_all add: resting_def)
  have "\<forall>b \<in> set (bids ob'). \<forall>a \<in> set (asks ob'). Price (objs ob' b) < Price (objs ob' a)"
    using wf sub eq(4) side by (auto simp: wf_book_def subset_iff)
  moreover have "\<forall>a \<in> set (bids ob'). Side (objs ob' a) = ''buy''"
    "\<forall>a \<in> set (asks ob'). Side (objs ob' a) = ''sell''"
    using wf sub eq(2) side by (auto simp: wf_book_def subset_iff)
  moreover have "set (bids ob') \<inter> set (asks ob') = {}" using wf sub by (auto simp: wf_book_def)
  ultimately show ?thesis using heaps ok orders' by (simp add: wf_book_def)
qed

section \<open>\<open>match\<close> computes the contract\<close>

lemma settle_asks:
  assumes wf: "wf_book T ob" and buy: "Side order = ''buy''" and asks: "asks ob = a # h"
    and q: "0 < qty" "qty \<le> Remaining (objs ob a)"
  defines "ob2 \<equiv> settle_best order a (take_from a qty ob)"
  shows "wf_book T ob2" "bid_list ob2 = bid_list ob" "next_addr ob2 = next_addr ob"
    "ask_list ob2 = (if qty = Remaining (objs ob a) then tl (ask_list ob)
       else (hd (ask_list ob))\<lparr>Remaining := Remaining (objs ob a) - qty\<rparr> # tl (ask_list ob))"
proof -
  let ?m = "objs ob" and ?r = "Remaining (objs ob a) - qty"
  let ?m1 = "?m(a := (?m a)\<lparr>Remaining := ?r\<rparr>)"
  define t where "t = (if ?r = 0 then snd (heap_Pop askHeap (?m1, a # h)) else heap_Fix askHeap (?m1, a # h) 0)"
  have h: "ask_side.heaped (?m, a # h)" and a: "a \<in> resting ob" "order_ok T (?m a)" "a \<notin> set (bids ob)"
    using wf asks by (auto simp: wf_book_def resting_def)
  note st = ask_side.settle_ranked[OF h q, folded t_def]
  have i64: "i64 ?r = ?r" using a(2) q by (intro i64_id) (simp add: order_ok_def int64_range_def)
  have ob2: "objs ob2 = fst t" "asks ob2 = snd t" "bids ob2 = bids ob" "next_addr ob2 = next_addr ob"
    "orders ob2 = (if ?r = 0 then (orders ob)(OrderID (?m a) := None) else orders ob)"
    using buy by (auto simp: ob2_def settle_best_def take_from_def i64 pop_opposite_def fix_opposite_def
        on_asks_def t_def asks split: prod.splits)
  have out: "fst t b = ?m b" if "b \<in> set (bids ob)" for b
    using st(3)[of b] that wf asks by (fastforce simp: wf_book_def)
  have bid: "bid_side.heaped (objs ob2, bids ob2)" "bid_list ob2 = bid_list ob"
    using bid_side.heaped_cong[of "bids ob" "fst t" ?m] out wf by (auto simp: ob2 wf_book_def bid_list_def)
  have ptr: "set (asks ob2) = (if ?r = 0 then set (asks ob) - {a} else set (asks ob))"
    using st(4) h by (auto simp: ob2 pointers_def asks ask_side.heaped_def slice_ok_def)
  show "wf_book T ob2"
  proof (rule wf_book_shrink[OF wf bid(1)])
    show "ask_side.heaped (objs ob2, asks ob2)" using st(1) by (simp add: ob2)
    show "same_order (objs ob2 b) (objs ob b)" for b using st(2) by (simp add: ob2)
    fix b assume b: "b \<in> resting ob2"
    then have "b \<in> resting ob" "0 < Remaining (?m b)"
      using ptr wf by (auto simp: resting_def ob2 wf_book_def order_ok_def split: if_splits)
    moreover have "Remaining (fst t b) = (if b = a then ?r else Remaining (?m b))" by (rule st(5))
    moreover have "?r \<noteq> 0" if "b = a" using b ptr that a by (auto simp: resting_def ob2 split: if_splits)
    ultimately show "0 < Remaining (objs ob2 b) \<and> Remaining (objs ob2 b) \<le> Remaining (objs ob b)"
      using q by (auto simp: ob2)
  next
    show "orders ob2 = orders ob \<and> resting ob2 = resting ob \<or>
      (\<exists>x \<in> resting ob. orders ob2 = (orders ob)(OrderID (objs ob x) := None) \<and>
        resting ob2 = resting ob - {x})"
      using a ptr ob2 by (cases "?r = 0") (auto simp: resting_def)
  qed (use ptr ob2 in \<open>auto split: if_splits\<close>)
  show "bid_list ob2 = bid_list ob" "next_addr ob2 = next_addr ob" by (rule bid ob2)+
  show "ask_list ob2 = (if qty = Remaining (objs ob a) then tl (ask_list ob)
       else (hd (ask_list ob))\<lparr>Remaining := Remaining (objs ob a) - qty\<rparr> # tl (ask_list ob))"
    using st(6) by (simp add: ask_list_def ob2 asks)
qed

lemma settle_bids:
  assumes wf: "wf_book T ob" and sell: "Side order \<noteq> ''buy''" and bids: "bids ob = a # h"
    and q: "0 < qty" "qty \<le> Remaining (objs ob a)"
  defines "ob2 \<equiv> settle_best order a (take_from a qty ob)"
  shows "wf_book T ob2" "ask_list ob2 = ask_list ob" "next_addr ob2 = next_addr ob"
    "bid_list ob2 = (if qty = Remaining (objs ob a) then tl (bid_list ob)
       else (hd (bid_list ob))\<lparr>Remaining := Remaining (objs ob a) - qty\<rparr> # tl (bid_list ob))"
proof -
  let ?m = "objs ob" and ?r = "Remaining (objs ob a) - qty"
  let ?m1 = "?m(a := (?m a)\<lparr>Remaining := ?r\<rparr>)"
  define t where "t = (if ?r = 0 then snd (heap_Pop bidHeap (?m1, a # h)) else heap_Fix bidHeap (?m1, a # h) 0)"
  have h: "bid_side.heaped (?m, a # h)" and a: "a \<in> resting ob" "order_ok T (?m a)" "a \<notin> set (asks ob)"
    using wf bids by (auto simp: wf_book_def resting_def)
  note st = bid_side.settle_ranked[OF h q, folded t_def]
  have i64: "i64 ?r = ?r" using a(2) q by (intro i64_id) (simp add: order_ok_def int64_range_def)
  have ob2: "objs ob2 = fst t" "bids ob2 = snd t" "asks ob2 = asks ob" "next_addr ob2 = next_addr ob"
    "orders ob2 = (if ?r = 0 then (orders ob)(OrderID (?m a) := None) else orders ob)"
    using sell by (auto simp: ob2_def settle_best_def take_from_def i64 pop_opposite_def fix_opposite_def
        on_bids_def t_def bids split: prod.splits)
  have out: "fst t b = ?m b" if "b \<in> set (asks ob)" for b
    using st(3)[of b] that wf bids by (fastforce simp: wf_book_def)
  have ask: "ask_side.heaped (objs ob2, asks ob2)" "ask_list ob2 = ask_list ob"
    using ask_side.heaped_cong[of "asks ob" "fst t" ?m] out wf by (auto simp: ob2 wf_book_def ask_list_def)
  have ptr: "set (bids ob2) = (if ?r = 0 then set (bids ob) - {a} else set (bids ob))"
    using st(4) h by (auto simp: ob2 pointers_def bids bid_side.heaped_def slice_ok_def)
  show "wf_book T ob2"
  proof (rule wf_book_shrink[OF wf _ ask(1)])
    show "bid_side.heaped (objs ob2, bids ob2)" using st(1) by (simp add: ob2)
    show "same_order (objs ob2 b) (objs ob b)" for b using st(2) by (simp add: ob2)
    fix b assume b: "b \<in> resting ob2"
    then have "b \<in> resting ob" "0 < Remaining (?m b)"
      using ptr wf by (auto simp: resting_def ob2 wf_book_def order_ok_def split: if_splits)
    moreover have "Remaining (fst t b) = (if b = a then ?r else Remaining (?m b))" by (rule st(5))
    moreover have "?r \<noteq> 0" if "b = a" using b ptr that a by (auto simp: resting_def ob2 split: if_splits)
    ultimately show "0 < Remaining (objs ob2 b) \<and> Remaining (objs ob2 b) \<le> Remaining (objs ob b)"
      using q by (auto simp: ob2)
  next
    show "orders ob2 = orders ob \<and> resting ob2 = resting ob \<or>
      (\<exists>x \<in> resting ob. orders ob2 = (orders ob)(OrderID (objs ob x) := None) \<and>
        resting ob2 = resting ob - {x})"
      using a ptr ob2 by (cases "?r = 0") (auto simp: resting_def)
  qed (use ptr ob2 in \<open>auto split: if_splits\<close>)
  show "ask_list ob2 = ask_list ob" "next_addr ob2 = next_addr ob" by (rule ask ob2)+
  show "bid_list ob2 = (if qty = Remaining (objs ob a) then tl (bid_list ob)
       else (hd (bid_list ob))\<lparr>Remaining := Remaining (objs ob a) - qty\<rparr> # tl (bid_list ob))"
    using st(6) by (simp add: bid_list_def ob2 bids)
qed

text \<open>Both sides at once, as \<open>match\<close> sees them.\<close>

lemma settle_opposite:
  assumes wf: "wf_book T ob" and opp: "opposite order ob = a # h"
    and q: "0 < qty" "qty \<le> Remaining (objs ob a)"
  defines "ob2 \<equiv> settle_best order a (take_from a qty ob)"
  shows "wf_book T ob2" "own_list order ob2 = own_list order ob" "next_addr ob2 = next_addr ob"
    "opposite_list order ob2 = (if qty = Remaining (objs ob a) then tl (opposite_list order ob)
       else (hd (opposite_list order ob))\<lparr>Remaining := Remaining (objs ob a) - qty\<rparr>
              # tl (opposite_list order ob))"
proof -
  have "wf_book T ob2 \<and> own_list order ob2 = own_list order ob \<and> next_addr ob2 = next_addr ob \<and>
    opposite_list order ob2 = (if qty = Remaining (objs ob a) then tl (opposite_list order ob)
       else (hd (opposite_list order ob))\<lparr>Remaining := Remaining (objs ob a) - qty\<rparr>
              # tl (opposite_list order ob))"
  proof (cases "Side order = ''buy''")
    case True
    then have "asks ob = a # h" using opp by (simp add: opposite_def)
    from settle_asks[OF wf True this q, folded ob2_def] True show ?thesis
      by (simp add: own_list_def opposite_list_def)
  next
    case False
    then have "bids ob = a # h" using opp by (simp add: opposite_def)
    from settle_bids[OF wf False this q, folded ob2_def] False show ?thesis
      by (simp add: own_list_def opposite_list_def)
  qed
  then show "wf_book T ob2" "own_list order ob2 = own_list order ob" "next_addr ob2 = next_addr ob"
    "opposite_list order ob2 = (if qty = Remaining (objs ob a) then tl (opposite_list order ob)
       else (hd (opposite_list order ob))\<lparr>Remaining := Remaining (objs ob a) - qty\<rparr>
              # tl (opposite_list order ob))"
    by simp_all
qed

lemma opposite_head:
  assumes "wf_book T ob" "opposite order ob = a # h"
  shows "opposite_list order ob = view (objs ob a) # tl (opposite_list order ob)"
    "a \<in> resting ob" "order_ok T (objs ob a)"
proof -
  show "opposite_list order ob = view (objs ob a) # tl (opposite_list order ob)"
    using assms bid_side.head_ranked[of "objs ob" a h] ask_side.head_ranked[of "objs ob" a h]
    by (auto simp: opposite_list_def opposite_def bid_list_def ask_list_def wf_book_def split: if_splits)
  show "a \<in> resting ob" using assms(2) by (auto simp: opposite_def resting_def split: if_splits)
  then show "order_ok T (objs ob a)" using assms(1) by (simp add: wf_book_def)
qed

lemma opposite_empty: "opposite order ob = [] \<Longrightarrow> opposite_list order ob = []"
  by (auto simp: opposite_list_def opposite_def bid_list_def ask_list_def bid_side.heaped_Nil
      ask_side.heaped_Nil split: if_splits)

lemma worse_view [simp]: "worse order (view best) = worse order best"
  by (simp add: worse_def)

lemma opposite_list_cong: "Side x = Side y \<Longrightarrow> opposite_list x = opposite_list y"
  "Side x = Side y \<Longrightarrow> own_list x = own_list y"
  by (simp_all add: opposite_list_def own_list_def fun_eq_iff)

lemma settle_best_cong: "Side x = Side y \<Longrightarrow> settle_best x = settle_best y"
  by (simp add: settle_best_def pop_opposite_def fix_opposite_def fun_eq_iff)

definition fill_of :: "OutMessage \<Rightarrow> fill" where
  "fill_of m = (fill_qty m, fill_price m, fill_remaining m)"

text \<open>The timestamps a run of the engine put on its messages, between two clock values.\<close>

definition stamped :: "int64 \<Rightarrow> OutMessage list \<Rightarrow> int64 \<Rightarrow> bool" where
  "stamped T ms T' \<longleftrightarrow> sorted_wrt (<) (T # map msg_time ms) \<and> T \<le> T' \<and> (\<forall>m \<in> set ms. msg_time m \<le> T')"

lemma stamped_Nil: "stamped T [] T"
  by (simp add: stamped_def)

lemma stamped_Cons: "T < msg_time m \<Longrightarrow> stamped (msg_time m) ms T' \<Longrightarrow> stamped T (m # ms) T'"
  by (force simp: stamped_def)

definition is_fill_for :: "string \<Rightarrow> OutMessage \<Rightarrow> bool" where
  "is_fill_for k m \<longleftrightarrow> (\<exists>q p r t. m = FillMessage k q p r t)"

lemma is_fill_for_code [code]:
  "is_fill_for k m = (case m of FillMessage k' _ _ _ _ \<Rightarrow> k = k' | _ \<Rightarrow> False)"
  by (auto simp: is_fill_for_def split: OutMessage.splits)

lemma is_fill_for_Fill [simp]: "is_fill_for k (FillMessage k q p r t)"
  by (simp add: is_fill_for_def)

lemma match_stop:
  assumes "\<not> (Remaining order > 0 \<and> length (opposite order ob) > 0) \<or>
    OrderType order = ''limit'' \<and> worse order (objs ob (hd (opposite order ob)))"
  shows "match u ob clk order = (ob, clk, order, [])"
  using assms by (subst match.simps) (auto simp: Let_def)

lemma match_turn:
  assumes "Remaining order > 0" "opposite order ob = best # h"
    "\<not> (OrderType order = ''limit'' \<and> worse order (objs ob best))"
    and "now u clk = (ts, clk1)"
  defines "qty \<equiv> min64 (Remaining order) (Remaining (objs ob best))"
  defines "order1 \<equiv> order\<lparr>Remaining := i64 (Remaining order - qty)\<rparr>"
  shows "match u ob clk order =
    (case match u (settle_best order1 best (take_from best qty ob)) clk1 order1 of
       (ob', clk', order', fills) \<Rightarrow>
         (ob', clk', order',
          FillMessage (OrderID order) qty (Price (objs ob best)) (Remaining order1) ts # fills))"
  using assms by (subst match.simps) (auto simp: Let_def take_from_def split: prod.splits)

lemma spec_match_stop:
  assumes "wf_book T ob"
    and "\<not> (Remaining order > 0 \<and> length (opposite order ob) > 0) \<or>
      OrderType order = ''limit'' \<and> worse order (objs ob (hd (opposite order ob)))"
  shows "spec_match order (opposite_list order ob) = (order, opposite_list order ob, [])"
proof (cases "opposite order ob")
  case Nil
  then show ?thesis by (simp add: opposite_empty)
next
  case (Cons a h)
  from opposite_head(1)[OF assms(1) Cons] obtain L where "opposite_list order ob = view (objs ob a) # L"
    by blast
  with Cons assms(2) show ?thesis by auto
qed

text \<open>
  One turn of the loop, on both sides of the refinement: the engine settles with the best
  order, the contract takes the head of the list, and both make the same fill.
\<close>

lemma match_turn_spec:
  assumes wf: "wf_book T ob" and opp: "opposite order ob = best # h"
    and go: "\<not> (OrderType order = ''limit'' \<and> worse order (objs ob best))"
    and r: "0 < Remaining order" "Remaining order < 2 ^ 63"
  defines "qty \<equiv> min64 (Remaining order) (Remaining (objs ob best))"
  defines "order1 \<equiv> order\<lparr>Remaining := i64 (Remaining order - qty)\<rparr>"
  defines "ob1 \<equiv> settle_best order1 best (take_from best qty ob)"
  shows "wf_book T ob1" "own_list order ob1 = own_list order ob" "next_addr ob1 = next_addr ob"
    "Remaining order1 = Remaining order - qty" "0 \<le> Remaining order1" "Remaining order1 < 2 ^ 63"
    "spec_match order1 (opposite_list order ob1) = (order2, L, fs) \<Longrightarrow>
      spec_match order (opposite_list order ob) = (order2, L, (qty, Price (objs ob best), Remaining order1) # fs)"
proof -
  let ?b = "objs ob best"
  note hd = opposite_head[OF wf opp]
  have q: "0 < qty" "qty \<le> Remaining ?b" "qty \<le> Remaining order"
    using hd(3) r by (auto simp: qty_def min64_def order_ok_def)
  have ob1: "ob1 = settle_best order best (take_from best qty ob)"
    using settle_best_cong[of order1 order] by (simp add: ob1_def order1_def)
  note st = settle_opposite[OF wf opp q(1,2), folded ob1]
  have "int64_range (Remaining order - qty)" using q r by (simp add: int64_range_def)
  then show rem: "Remaining order1 = Remaining order - qty" by (simp add: order1_def i64_id)
  with q r show "0 \<le> Remaining order1" "Remaining order1 < 2 ^ 63" by simp_all
  show "wf_book T ob1" "own_list order ob1 = own_list order ob" "next_addr ob1 = next_addr ob"
    by (rule st)+
  assume sub: "spec_match order1 (opposite_list order ob1) = (order2, L, fs)"
  have o1: "order1 = order\<lparr>Remaining := Remaining order - qty\<rparr>" using rem by (simp add: order1_def)
  show "spec_match order (opposite_list order ob) = (order2, L, (qty, Price ?b, Remaining order1) # fs)"
  proof (cases "Remaining ?b \<le> Remaining order")
    case True
    then have "qty = Remaining ?b" by (simp add: qty_def min64_def)
    with sub st(4) go r True show ?thesis by (subst hd(1)) (auto simp: o1)
  next
    case False
    then have "qty = Remaining order" by (simp add: qty_def min64_def)
    moreover have "spec_match order1 (opposite_list order ob1) = (order1, opposite_list order ob1, [])"
      using calculation by (cases "opposite_list order ob1") (auto simp: o1)
    ultimately show ?thesis
      using sub st(4) go r False by (subst hd(1)) (auto simp: o1 hd(1)[THEN arg_cong, of hd])
  qed
qed

theorem match_refines_spec:
  assumes "wf_book (lastTimestamp clk) ob" "0 \<le> Remaining order" "Remaining order < 2 ^ 63"
    "match u ob clk order = (ob', clk', order', fills)"
  shows "spec_match order (opposite_list order ob) = (order', opposite_list order ob', map fill_of fills) \<and>
    own_list order ob' = own_list order ob \<and> wf_book (lastTimestamp clk') ob' \<and>
    next_addr ob' = next_addr ob \<and> list_all (is_fill_for (OrderID order)) fills \<and>
    stamped (lastTimestamp clk) fills (lastTimestamp clk')"
  using assms
proof (induction u ob clk order arbitrary: ob' clk' order' fills rule: match.induct)
  case (1 u ob clk order)
  show ?case
  proof (cases "\<not> (Remaining order > 0 \<and> length (opposite order ob) > 0) \<or>
      OrderType order = ''limit'' \<and> worse order (objs ob (hd (opposite order ob)))")
    case True
    with "1.prems" match_stop[OF True, of u clk] spec_match_stop[OF "1.prems"(1) True]
    show ?thesis by (simp add: stamped_Nil)
  next
    case False
    then obtain best h where opp: "opposite order ob = best # h" and r: "Remaining order > 0"
      by (cases "opposite order ob") auto
    with False have go: "\<not> (OrderType order = ''limit'' \<and> worse order (objs ob best))" by auto
    obtain ts clk1 where now: "now u clk = (ts, clk1)" by (cases "now u clk")
    define qty where "qty = min64 (Remaining order) (Remaining (objs ob best))"
    define order1 where "order1 = order\<lparr>Remaining := i64 (Remaining order - qty)\<rparr>"
    define ob1 where "ob1 = settle_best order1 best (take_from best qty ob)"
    note defs = qty_def order1_def ob1_def
    note turn = match_turn_spec[OF "1.prems"(1) opp go r "1.prems"(3), folded qty_def,
        folded order1_def, folded ob1_def]
    obtain obn clkn ordern fs where rec: "match u ob1 clk1 order1 = (obn, clkn, ordern, fs)"
      by (cases "match u ob1 clk1 order1")
    have res: "ob' = obn" "clk' = clkn" "order' = ordern"
      "fills = FillMessage (OrderID order) qty (Price (objs ob best)) (Remaining order1) ts # fs"
      using "1.prems"(4) match_turn[OF r opp go now] rec by (auto simp: defs)
    have later: "lastTimestamp clk < ts" "lastTimestamp clk1 = ts" using now_later[OF now] by auto
    have "wf_book (lastTimestamp clk1) ob1" using wf_book_later[OF turn(1)] later by simp
    then have IH: "spec_match order1 (opposite_list order1 ob1) = (ordern, opposite_list order1 obn, map fill_of fs) \<and>
      own_list order1 obn = own_list order1 ob1 \<and> wf_book (lastTimestamp clkn) obn \<and>
      next_addr obn = next_addr ob1 \<and> list_all (is_fill_for (OrderID order1)) fs \<and>
      stamped (lastTimestamp clk1) fs (lastTimestamp clkn)"
      using opp r go now rec turn(5,6)
      by (intro "1.IH"[of best qty order1 "take_from best qty ob" "now u clk" ts clk1
            "FillMessage (OrderID order1) qty (Price (objs (take_from best qty ob) best)) (Remaining order1) ts"
            ob1 obn clkn ordern fs]) (auto simp: defs)
    have side: "opposite_list order1 = opposite_list order" "own_list order1 = own_list order"
      "OrderID order1 = OrderID order"
      using opposite_list_cong[of order1 order] by (simp_all add: order1_def)
    show ?thesis
      using IH turn(2,3) turn(7)[of ordern "opposite_list order obn" "map fill_of fs"] later
      unfolding res side by (auto simp: fill_of_def intro: stamped_Cons)
  qed
qed

section \<open>\<open>rest\<close>, \<open>remove\<close> and \<open>cancelSession\<close>\<close>

definition own_rank :: "Order \<Rightarrow> Order \<Rightarrow> rat \<times> int64" where
  "own_rank order = (if Side order = ''buy'' then bid_rank else ask_rank)"

text \<open>
  An order may rest when its id is not on the book, it entered last, and it does not cross the
  other side: what \<open>match\<close> leaves of a limit order.
\<close>

definition may_rest :: "int64 \<Rightarrow> Order \<Rightarrow> Orderbook \<Rightarrow> bool" where
  "may_rest T order ob \<longleftrightarrow> order_ok T order \<and> (Side order = ''buy'' \<or> Side order = ''sell'') \<and>
     (\<forall>x \<in> set (own_list order ob) \<union> set (opposite_list order ob).
        EnteredAt x < EnteredAt order \<and> OrderID x \<noteq> OrderID order) \<and>
     (\<forall>x \<in> set (opposite_list order ob). worse order x)"

lemma resting_lists:
  "set (own_list order ob) \<union> set (opposite_list order ob) = (\<lambda>a. view (objs ob a)) ` resting ob"
  by (auto simp: own_list_def opposite_list_def list_sets resting_def)

lemma opposite_list_set: "set (opposite_list order ob) = (\<lambda>a. view (objs ob a)) ` set (opposite order ob)"
  by (simp add: opposite_list_def opposite_def list_sets)

lemma may_restD:
  assumes "may_rest T order ob"
  shows "order_ok T order" "Side order = ''buy'' \<or> Side order = ''sell''"
    "\<And>c. c \<in> resting ob \<Longrightarrow> EnteredAt (objs ob c) < EnteredAt order"
    "\<And>c. c \<in> resting ob \<Longrightarrow> OrderID (objs ob c) \<noteq> OrderID order"
    "\<And>c. c \<in> set (opposite order ob) \<Longrightarrow> worse order (objs ob c)"
proof -
  have "\<forall>x \<in> (\<lambda>a. view (objs ob a)) ` resting ob. EnteredAt x < EnteredAt order \<and> OrderID x \<noteq> OrderID order"
    using assms unfolding may_rest_def resting_lists by blast
  then show "\<And>c. c \<in> resting ob \<Longrightarrow> EnteredAt (objs ob c) < EnteredAt order"
    "\<And>c. c \<in> resting ob \<Longrightarrow> OrderID (objs ob c) \<noteq> OrderID order"
    by auto
qed (use assms in \<open>auto simp: may_rest_def opposite_list_set\<close>)

text \<open>The book after one order joined it; the counterpart of \<open>wf_book_shrink\<close>.\<close>

lemma wf_book_grow:
  assumes wf: "wf_book T ob" and may: "may_rest T order ob"
    and heaps: "bid_side.heaped (objs ob', bids ob')" "ask_side.heaped (objs ob', asks ob')"
    and bids': "set (bids ob') = (if Side order = ''buy'' then insert (next_addr ob) (set (bids ob)) else set (bids ob))"
    and asks': "set (asks ob') = (if Side order = ''buy'' then set (asks ob) else insert (next_addr ob) (set (asks ob)))"
    and nxt: "next_addr ob' = Suc (next_addr ob)"
    and old: "\<And>c. c \<in> resting ob \<Longrightarrow> view (objs ob' c) = view (objs ob c)"
    and new: "view (objs ob' (next_addr ob)) = view order"
    and ord: "orders ob' = (orders ob)(OrderID order \<mapsto> next_addr ob)"
  shows "wf_book T ob'"
proof -
  let ?a = "next_addr ob"
  have fresh: "?a \<notin> resting ob" using wf by (auto simp: wf_book_def)
  have rs: "resting ob' = insert ?a (resting ob)" using bids' asks' by (auto simp: resting_def)
  note so = same_orderD[OF same_order_view[OF old]]
  note sn = same_orderD[OF same_order_view[OF new]]
  have may_ok: "order_ok T order" "Side order = ''buy'' \<or> Side order = ''sell''"
    "\<And>c. c \<in> resting ob \<Longrightarrow> OrderID (objs ob c) \<noteq> OrderID order"
    "\<And>c. c \<in> set (opposite order ob) \<Longrightarrow> worse order (objs ob c)"
    using may_restD[OF may] by blast+
  have ok: "c < next_addr ob' \<and> order_ok T (objs ob' c)" if "c \<in> resting ob'" for c
  proof (cases "c = ?a")
    case True
    then show ?thesis using sn may_ok(1) view_Remaining[OF new] nxt by (simp add: order_ok_def)
  next
    case False
    then have c: "c \<in> resting ob" using that rs by auto
    then have "c < ?a \<and> order_ok T (objs ob c)" using wf by (simp add: wf_book_def)
    then show ?thesis using so[OF c] view_Remaining[OF old[OF c]] nxt by (simp add: order_ok_def)
  qed
  have ids: "orders ob' k = Some c \<longleftrightarrow> c \<in> resting ob' \<and> OrderID (objs ob' c) = k" for k c
  proof -
    have o: "orders ob k = Some c \<longleftrightarrow> c \<in> resting ob \<and> OrderID (objs ob c) = k" for k c
      using wf by (simp add: wf_book_def)
    show ?thesis
    proof (cases "c = ?a")
      case True
      then show ?thesis using ord sn(1) rs o[of k ?a] fresh by auto
    next
      case False
      then have "c \<in> resting ob' \<and> OrderID (objs ob' c) = k \<longleftrightarrow> orders ob k = Some c"
        using rs so(1)[of c] o[of k c] by auto
      then show ?thesis using ord False o[of k c] may_ok(3)[of c] by auto
    qed
  qed
  have parts: "\<And>b. b \<in> set (bids ob) \<Longrightarrow> b \<in> resting ob" "\<And>b. b \<in> set (asks ob) \<Longrightarrow> b \<in> resting ob"
    by (simp_all add: resting_def)
  have "\<forall>b \<in> set (bids ob'). \<forall>c \<in> set (asks ob'). Price (objs ob' b) < Price (objs ob' c)"
    using wf bids' asks' so(4) sn(4) parts may_ok(2,4)
    by (auto simp: wf_book_def opposite_def worse_def split: if_splits)
  moreover have "\<forall>c \<in> set (bids ob'). Side (objs ob' c) = ''buy''"
    "\<forall>c \<in> set (asks ob'). Side (objs ob' c) = ''sell''"
    using wf bids' asks' so(2) sn(2) parts may_ok(2) by (auto simp: wf_book_def split: if_splits)
  moreover have "set (bids ob') \<inter> set (asks ob') = {}"
    using wf bids' asks' fresh parts by (auto simp: wf_book_def split: if_splits)
  ultimately show ?thesis using heaps ok ids by (simp add: wf_book_def)
qed

lemma rest_wf:
  assumes wf: "wf_book T ob" and may: "may_rest T order ob"
  shows "wf_book T (rest order ob) \<and> opposite_list order (rest order ob) = opposite_list order ob \<and>
    own_list order (rest order ob) = insort_key (own_rank order) (view order) (own_list order ob)"
proof -
  let ?a = "next_addr ob" and ?m = "(objs ob)(next_addr ob := order)" and ?ob = "rest order ob"
  have fresh: "?a \<notin> resting ob" using wf by (auto simp: wf_book_def)
  then have new: "?a \<notin> set (bids ob)" "?a \<notin> set (asks ob)" by (auto simp: resting_def)
  have disj: "set (bids ob) \<inter> set (asks ob) = {}" using wf by (simp add: wf_book_def)
  have "EnteredAt (?m b) \<noteq> EnteredAt (?m ?a)" if "b \<in> resting ob" for b
    using may_restD(3)[OF may that] that fresh by auto
  then have entered: "\<forall>b \<in> set (bids ob). EnteredAt (?m b) \<noteq> EnteredAt (?m ?a)"
    "\<forall>b \<in> set (asks ob). EnteredAt (?m b) \<noteq> EnteredAt (?m ?a)"
    by (simp_all add: resting_def)
  have mb: "?m c = objs ob c" if "c \<in> set (bids ob)" for c using that new(1) by auto
  have ma: "?m c = objs ob c" if "c \<in> set (asks ob)" for c using that new(2) by auto
  have heaps: "bid_side.heaped (?m, bids ob)" "ask_side.heaped (?m, asks ob)"
    "bid_side.ranked (?m, bids ob) = bid_list ob" "ask_side.ranked (?m, asks ob) = ask_list ob"
    using bid_side.heaped_cong[of "bids ob" ?m "objs ob", OF mb]
      ask_side.heaped_cong[of "asks ob" ?m "objs ob", OF ma] wf
    by (simp_all add: wf_book_def bid_list_def ask_list_def)
  show ?thesis
  proof (cases "Side order = ''buy''")
    case True
    note b = bid_side.push_ranked[OF heaps(1) new(1) entered(1)]
    define t where "t = heap_Push bidHeap (?m, bids ob) ?a"
    note b = b[folded t_def]
    have ob': "objs ?ob = fst t" "next_addr ?ob = Suc ?a" "asks ?ob = asks ob" "bids ?ob = snd t"
      "orders ?ob = (orders ob)(OrderID order \<mapsto> ?a)"
      using True by (auto simp: rest_def Let_def on_bids_def t_def split: prod.splits)
    have view: "view (fst t c) = view (?m c)" for c using b(2) by (simp add: index_only_def)
    have same: "fst t c = objs ob c" if "c \<in> set (asks ob)" for c
    proof -
      have "c \<notin> insert ?a (set (bids ob))" using that new(2) disj by blast
      then show ?thesis using b(2) ma[OF that] by (simp add: index_only_def)
    qed
    have ask: "ask_side.heaped (objs ?ob, asks ?ob)" "ask_list ?ob = ask_list ob"
      using ask_side.heaped_cong[of "asks ob" "fst t" "objs ob"] same wf
      by (auto simp: ob' wf_book_def ask_list_def)
    have bid: "bid_side.heaped (objs ?ob, bids ?ob)" "set (bids ?ob) = insert ?a (set (bids ob))"
      "bid_list ?ob = insort_key bid_rank (view order) (bid_list ob)"
      using b(1,3) b(4)[unfolded heaps(3)] by (simp_all add: ob' pointers_def bid_list_def)
    have "wf_book T ?ob"
      using bid ask ob' view new True by (intro wf_book_grow[OF wf may]) (auto simp: resting_def)
    with bid ask True show ?thesis by (simp add: opposite_list_def own_list_def own_rank_def)
  next
    case False
    note a = ask_side.push_ranked[OF heaps(2) new(2) entered(2)]
    define t where "t = heap_Push askHeap (?m, asks ob) ?a"
    note a = a[folded t_def]
    have ob': "objs ?ob = fst t" "next_addr ?ob = Suc ?a" "bids ?ob = bids ob" "asks ?ob = snd t"
      "orders ?ob = (orders ob)(OrderID order \<mapsto> ?a)"
      using False by (auto simp: rest_def Let_def on_asks_def t_def split: prod.splits)
    have view: "view (fst t c) = view (?m c)" for c using a(2) by (simp add: index_only_def)
    have same: "fst t c = objs ob c" if "c \<in> set (bids ob)" for c
    proof -
      have "c \<notin> insert ?a (set (asks ob))" using that new(1) disj by blast
      then show ?thesis using a(2) mb[OF that] by (simp add: index_only_def)
    qed
    have bid: "bid_side.heaped (objs ?ob, bids ?ob)" "bid_list ?ob = bid_list ob"
      using bid_side.heaped_cong[of "bids ob" "fst t" "objs ob"] same wf
      by (auto simp: ob' wf_book_def bid_list_def)
    have ask: "ask_side.heaped (objs ?ob, asks ?ob)" "set (asks ?ob) = insert ?a (set (asks ob))"
      "ask_list ?ob = insort_key ask_rank (view order) (ask_list ob)"
      using a(1,3) a(4)[unfolded heaps(4)] by (simp_all add: ob' pointers_def ask_list_def)
    have "wf_book T ?ob"
      using bid ask ob' view new False by (intro wf_book_grow[OF wf may]) (auto simp: resting_def)
    with bid ask False show ?thesis by (simp add: opposite_list_def own_list_def own_rank_def)
  qed
qed

text \<open>\<open>remove\<close> drops the order with the id from its side and changes nothing else.\<close>

lemma wf_orders:
  "wf_book T ob \<Longrightarrow> orders ob k = Some a \<longleftrightarrow> a \<in> resting ob \<and> OrderID (objs ob a) = k"
  unfolding wf_book_def by (elim conjE allE)

lemma wf_sides:
  assumes "wf_book T ob"
  shows "bid_side.heaped (objs ob, bids ob)" "ask_side.heaped (objs ob, asks ob)"
    "set (bids ob) \<inter> set (asks ob) = {}" "set (asks ob) \<inter> set (bids ob) = {}"
    "a \<in> set (bids ob) \<Longrightarrow> Side (objs ob a) = ''buy''"
    "a \<in> set (asks ob) \<Longrightarrow> Side (objs ob a) = ''sell''"
    "a \<in> resting ob \<Longrightarrow> a < next_addr ob \<and> order_ok T (objs ob a)"
proof -
  note wf = assms[unfolded wf_book_def]
  note wf1 = wf[THEN conjunct2] note wf2 = wf1[THEN conjunct2] note wf3 = wf2[THEN conjunct2]
  note wf4 = wf3[THEN conjunct2] note wf5 = wf4[THEN conjunct2]
  show "bid_side.heaped (objs ob, bids ob)" by (rule wf[THEN conjunct1])
  show "ask_side.heaped (objs ob, asks ob)" by (rule wf1[THEN conjunct1])
  show "set (bids ob) \<inter> set (asks ob) = {}" by (rule wf2[THEN conjunct1])
  then show "set (asks ob) \<inter> set (bids ob) = {}" by (simp add: Int_commute)
  show "a \<in> resting ob \<Longrightarrow> a < next_addr ob \<and> order_ok T (objs ob a)" by (rule wf3[THEN conjunct1, THEN bspec])
  show "a \<in> set (bids ob) \<Longrightarrow> Side (objs ob a) = ''buy''" by (rule wf4[THEN conjunct1, THEN bspec])
  show "a \<in> set (asks ob) \<Longrightarrow> Side (objs ob a) = ''sell''" by (rule wf5[THEN conjunct1, THEN bspec])
qed

lemma wf_book_id_unique:
  assumes "wf_book T ob" "a \<in> resting ob" "b \<in> resting ob" "OrderID (objs ob a) = OrderID (objs ob b)"
  shows "a = b"
proof -
  have "orders ob (OrderID (objs ob a)) = Some a" "orders ob (OrderID (objs ob b)) = Some b"
    using assms(2,3) by (simp_all add: wf_orders[OF assms(1)])
  then show ?thesis unfolding assms(4) by simp
qed

lemma filter_view_id:
  assumes "wf_book T ob" "a \<in> resting ob" "set L \<subseteq> (\<lambda>c. view (objs ob c)) ` resting ob"
  shows "filter (\<lambda>x. x \<noteq> view (objs ob a)) L = filter (\<lambda>x. OrderID x \<noteq> OrderID (objs ob a)) L"
proof (rule filter_cong[OF refl])
  fix x assume "x \<in> set L"
  then obtain c where "c \<in> resting ob" "x = view (objs ob c)" using assms(3) by auto
  with wf_book_id_unique[OF assms(1) this(1) assms(2)]
  show "x \<noteq> view (objs ob a) \<longleftrightarrow> OrderID x \<noteq> OrderID (objs ob a)" by (metis view_sel(1))
qed

lemma list_subsets:
  "set (bid_list ob) \<subseteq> (\<lambda>c. view (objs ob c)) ` resting ob"
  "set (ask_list ob) \<subseteq> (\<lambda>c. view (objs ob c)) ` resting ob"
  by (auto simp: list_sets resting_def)

lemma filter_other_id:
  assumes "wf_book T ob" "a \<in> resting ob" "b \<in> resting ob" "a \<noteq> b"
  shows "OrderID (objs ob b) \<noteq> OrderID (objs ob a)"
  using wf_book_id_unique[OF assms(1-3)] assms(4) by auto

lemma remove_bid:
  assumes wf: "wf_book T ob" and k: "orders ob k = Some a" and bid: "a \<in> set (bids ob)"
  shows "wf_book T (remove k ob)" "bid_list (remove k ob) = filter (\<lambda>x. OrderID x \<noteq> k) (bid_list ob)"
    "ask_list (remove k ob) = ask_list ob" "\<And>c. view (objs (remove k ob) c) = view (objs ob c)"
    "resting (remove k ob) = resting ob - {a}"
proof -
  have h: "bid_side.heaped (objs ob, bids ob)" and disj: "set (bids ob) \<inter> set (asks ob) = {}"
    and a: "a \<in> resting ob" "OrderID (objs ob a) = k" "Side (objs ob a) = ''buy''"
    using wf_sides(1,3,5)[OF wf] bid wf_orders[OF wf, of k a] k by simp_all
  define t where "t = snd (heap_Remove bidHeap (objs ob, bids ob) (nat (index (objs ob a))))"
  note r = bid_side.remove_ranked[OF h bid, folded t_def]
  have ob': "objs (remove k ob) = fst t" "bids (remove k ob) = snd t" "asks (remove k ob) = asks ob"
    "next_addr (remove k ob) = next_addr ob" "orders (remove k ob) = (orders ob)(k := None)"
    using k a(3) bid_side.heaped_index[OF h bid]
    by (auto simp: remove_def Let_def on_bids_def t_def split: prod.splits)
  show view: "view (objs (remove k ob) c) = view (objs ob c)" for c
    using r(2) by (simp add: ob' index_only_def)
  have "fst t c = objs ob c" if "c \<in> set (asks ob)" for c
    using r(2) that disj by (auto simp: index_only_def)
  then have ask: "ask_side.heaped (objs (remove k ob), asks (remove k ob))" "ask_list (remove k ob) = ask_list ob"
    using ask_side.heaped_cong[of "asks ob" "fst t" "objs ob"] wf_sides(2)[OF wf]
    by (auto simp: ob' ask_list_def)
  show rest: "resting (remove k ob) = resting ob - {a}"
    using r(3) bid disj by (auto simp: resting_def ob' pointers_def)
  have old: "0 < Remaining (objs ob c)" if "c \<in> resting ob" for c
    using wf_sides(7)[OF wf that] by (simp add: order_ok_def)
  show "wf_book T (remove k ob)"
  proof (rule wf_book_shrink[OF wf _ ask(1)])
    show "bid_side.heaped (objs (remove k ob), bids (remove k ob))" using r(1) by (simp add: ob')
    show "same_order (objs (remove k ob) c) (objs ob c)" for c by (rule same_order_view[OF view])
    show "0 < Remaining (objs (remove k ob) c) \<and> Remaining (objs (remove k ob) c) \<le> Remaining (objs ob c)"
      if "c \<in> resting (remove k ob)" for c
      using view_Remaining[OF view[of c]] old[of c] that rest by auto
    have "orders (remove k ob) = (orders ob)(OrderID (objs ob a) := None)" by (simp add: ob' a(2))
    then show "orders (remove k ob) = orders ob \<and> resting (remove k ob) = resting ob \<or>
      (\<exists>x \<in> resting ob. orders (remove k ob) = (orders ob)(OrderID (objs ob x) := None) \<and>
        resting (remove k ob) = resting ob - {x})"
      using a(1) rest by blast
  qed (use r(3) in \<open>auto simp: ob' pointers_def\<close>)
  show "ask_list (remove k ob) = ask_list ob" by (rule ask)
  show "bid_list (remove k ob) = filter (\<lambda>x. OrderID x \<noteq> k) (bid_list ob)"
    using r(4) filter_view_id[OF wf a(1) list_subsets(1)] by (simp add: bid_list_def ob' a(2))
qed

lemma remove_ask:
  assumes wf: "wf_book T ob" and k: "orders ob k = Some a" and own: "a \<in> set (asks ob)"
  shows "wf_book T (remove k ob)" "ask_list (remove k ob) = filter (\<lambda>x. OrderID x \<noteq> k) (ask_list ob)"
    "bid_list (remove k ob) = bid_list ob" "\<And>c. view (objs (remove k ob) c) = view (objs ob c)"
    "resting (remove k ob) = resting ob - {a}"
proof -
  have h: "ask_side.heaped (objs ob, asks ob)" and disj: "set (asks ob) \<inter> set (bids ob) = {}"
    and a: "a \<in> resting ob" "OrderID (objs ob a) = k" "Side (objs ob a) = ''sell''"
    using wf_sides(2,4,6)[OF wf] own wf_orders[OF wf, of k a] k by simp_all
  define t where "t = snd (heap_Remove askHeap (objs ob, asks ob) (nat (index (objs ob a))))"
  note r = ask_side.remove_ranked[OF h own, folded t_def]
  have ob': "objs (remove k ob) = fst t" "asks (remove k ob) = snd t" "bids (remove k ob) = bids ob"
    "next_addr (remove k ob) = next_addr ob" "orders (remove k ob) = (orders ob)(k := None)"
    using k a(3) ask_side.heaped_index[OF h own]
    by (auto simp: remove_def Let_def on_asks_def t_def split: prod.splits)
  show view: "view (objs (remove k ob) c) = view (objs ob c)" for c
    using r(2) by (simp add: ob' index_only_def)
  have "fst t c = objs ob c" if "c \<in> set (bids ob)" for c
    using r(2) that disj by (auto simp: index_only_def)
  then have ask: "bid_side.heaped (objs (remove k ob), bids (remove k ob))" "bid_list (remove k ob) = bid_list ob"
    using bid_side.heaped_cong[of "bids ob" "fst t" "objs ob"] wf_sides(1)[OF wf]
    by (auto simp: ob' bid_list_def)
  show rest: "resting (remove k ob) = resting ob - {a}"
    using r(3) own disj by (auto simp: resting_def ob' pointers_def)
  have old: "0 < Remaining (objs ob c)" if "c \<in> resting ob" for c
    using wf_sides(7)[OF wf that] by (simp add: order_ok_def)
  show "wf_book T (remove k ob)"
  proof (rule wf_book_shrink[OF wf ask(1)])
    show "ask_side.heaped (objs (remove k ob), asks (remove k ob))" using r(1) by (simp add: ob')
    show "same_order (objs (remove k ob) c) (objs ob c)" for c by (rule same_order_view[OF view])
    show "0 < Remaining (objs (remove k ob) c) \<and> Remaining (objs (remove k ob) c) \<le> Remaining (objs ob c)"
      if "c \<in> resting (remove k ob)" for c
      using view_Remaining[OF view[of c]] old[of c] that rest by auto
    have "orders (remove k ob) = (orders ob)(OrderID (objs ob a) := None)" by (simp add: ob' a(2))
    then show "orders (remove k ob) = orders ob \<and> resting (remove k ob) = resting ob \<or>
      (\<exists>x \<in> resting ob. orders (remove k ob) = (orders ob)(OrderID (objs ob x) := None) \<and>
        resting (remove k ob) = resting ob - {x})"
      using a(1) rest by blast
  qed (use r(3) in \<open>auto simp: ob' pointers_def\<close>)
  show "bid_list (remove k ob) = bid_list ob" by (rule ask)
  show "ask_list (remove k ob) = filter (\<lambda>x. OrderID x \<noteq> k) (ask_list ob)"
    using r(4) filter_view_id[OF wf a(1) list_subsets(2)] by (simp add: ask_list_def ob' a(2))
qed

text \<open>What \<open>remove\<close> does, for an id on either side of the book or on none.\<close>

definition without :: "(Order \<Rightarrow> bool) \<Rightarrow> Orderbook \<Rightarrow> Orderbook \<Rightarrow> bool" where
  "without P ob ob' \<longleftrightarrow>
     bid_list ob' = filter (\<lambda>x. \<not> P x) (bid_list ob) \<and> ask_list ob' = filter (\<lambda>x. \<not> P x) (ask_list ob) \<and>
     (\<forall>c. view (objs ob' c) = view (objs ob c)) \<and>
     resting ob' = {c \<in> resting ob. \<not> P (view (objs ob c))}"

lemma filter_id_absent:
  assumes "wf_book T ob" "a \<in> resting ob" "a \<notin> S" "S \<subseteq> resting ob" "set L = (\<lambda>c. view (objs ob c)) ` S"
  shows "filter (\<lambda>x. OrderID x \<noteq> OrderID (objs ob a)) L = L"
proof -
  have "OrderID (objs ob c) \<noteq> OrderID (objs ob a)" if "c \<in> S" for c
    using filter_other_id[OF assms(1,2), of c] assms(3,4) that by auto
  then show ?thesis using assms(5) by (auto intro!: filter_True)
qed

lemma remove_wf:
  assumes wf: "wf_book T ob"
  shows "wf_book T (remove k ob) \<and> without (\<lambda>x. OrderID x = k) ob (remove k ob)"
proof (cases "orders ob k")
  case None
  then have ids: "OrderID (objs ob c) \<noteq> k" if "c \<in> resting ob" for c
    using wf_orders[OF wf, of k c] that by auto
  have "OrderID x \<noteq> k" if x: "x \<in> set (bid_list ob) \<union> set (ask_list ob)" for x
  proof -
    obtain c where "c \<in> resting ob" "x = view (objs ob c)" using x list_subsets[of ob] by blast
    with ids[of c] show ?thesis by simp
  qed
  then show ?thesis
    using wf None ids by (auto simp: without_def remove_def intro!: filter_True[symmetric])
next
  case (Some a)
  have a: "a \<in> resting ob" "OrderID (objs ob a) = k" using wf_orders[OF wf, of k a] Some by simp_all
  have res: "resting ob - {a} = {c \<in> resting ob. OrderID (view (objs ob c)) \<noteq> k}"
    using filter_other_id[OF wf a(1)] a by auto
  show ?thesis
  proof (cases "a \<in> set (bids ob)")
    case True
    note r = remove_bid[OF wf Some True]
    have "a \<notin> set (asks ob)" using True wf_sides(3)[OF wf] by auto
    then have "filter (\<lambda>x. OrderID x \<noteq> OrderID (objs ob a)) (ask_list ob) = ask_list ob"
      using filter_id_absent[OF wf a(1) _ _ list_sets(2)] by (auto simp: resting_def)
    then show ?thesis using r res by (simp add: without_def a(2))
  next
    case False
    then have ask: "a \<in> set (asks ob)" using a(1) by (simp add: resting_def)
    note r = remove_ask[OF wf Some ask]
    have "filter (\<lambda>x. OrderID x \<noteq> OrderID (objs ob a)) (bid_list ob) = bid_list ob"
      using filter_id_absent[OF wf a(1) False _ list_sets(1)] by (auto simp: resting_def)
    then show ?thesis using r res by (simp add: without_def a(2))
  qed
qed

lemma without_trans:
  assumes "without P ob ob1" "without Q ob1 ob2"
  shows "without (\<lambda>x. P x \<or> Q x) ob ob2"
  using assms by (auto simp: without_def conj_commute)

lemma remove_all_wf:
  "wf_book T ob \<Longrightarrow>
    wf_book T (fold (\<lambda>a ob. remove (OrderID (objs ob a)) ob) as ob) \<and>
    without (\<lambda>x. OrderID x \<in> (\<lambda>a. OrderID (objs ob a)) ` set as) ob
      (fold (\<lambda>a ob. remove (OrderID (objs ob a)) ob) as ob)"
proof (induction as arbitrary: ob)
  case Nil
  then show ?case by (simp add: without_def)
next
  case (Cons a as)
  let ?ob = "remove (OrderID (objs ob a)) ob"
  have r: "wf_book T ?ob" "without (\<lambda>x. OrderID x = OrderID (objs ob a)) ob ?ob"
    using remove_wf[OF Cons.prems] by auto
  have "OrderID (objs ?ob c) = OrderID (objs ob c)" for c
  proof -
    have "view (objs ?ob c) = view (objs ob c)" using r(2) by (simp add: without_def)
    from arg_cong[OF this, of OrderID] show ?thesis by simp
  qed
  then show ?case using Cons.IH[OF r(1)] without_trans[OF r(2)] by auto
qed

text \<open>\<open>range_order m visit\<close>: a sequence in which Go may visit the keys of the map \<open>m\<close>.\<close>

definition range_order :: "('k \<rightharpoonup> 'v) \<Rightarrow> 'k list \<Rightarrow> bool" where
  "range_order m visit \<longleftrightarrow> distinct visit \<and> set visit = dom m"

theorem cancelSession_wf:
  assumes wf: "wf_book T ob" and visit: "range_order (orders ob) visit"
  shows "wf_book T (cancelSession visit sid ob) \<and>
    without (\<lambda>x. SessionID x = sid) ob (cancelSession visit sid ob)"
proof -
  define gone where "gone = [a. k \<leftarrow> visit, a \<leftarrow> (case orders ob k of None \<Rightarrow> [] | Some a \<Rightarrow> [a]),
                         SessionID (objs ob a) = sid]"
  let ?ob = "cancelSession visit sid ob"
  let ?ids = "(\<lambda>a. OrderID (objs ob a)) ` set gone"
  have gone: "a \<in> set gone \<longleftrightarrow> a \<in> resting ob \<and> SessionID (objs ob a) = sid" for a
  proof -
    have "a \<in> set gone \<longleftrightarrow> (\<exists>k. orders ob k = Some a) \<and> SessionID (objs ob a) = sid"
      using visit by (force simp: gone_def range_order_def split: option.splits)
    also have "(\<exists>k. orders ob k = Some a) \<longleftrightarrow> a \<in> resting ob" by (simp add: wf_orders[OF wf])
    finally show ?thesis .
  qed
  have eq: "OrderID x \<in> ?ids \<longleftrightarrow> SessionID x = sid" if x: "x \<in> (\<lambda>a. view (objs ob a)) ` resting ob" for x
  proof -
    obtain c where c: "c \<in> resting ob" "x = view (objs ob c)" using x by auto
    have "OrderID (objs ob c) \<in> ?ids \<longleftrightarrow> c \<in> set gone"
      using wf_book_id_unique[OF wf c(1)] gone by auto
    then show ?thesis using c gone[of c] by simp
  qed
  have all: "wf_book T ?ob" "without (\<lambda>x. OrderID x \<in> ?ids) ob ?ob"
    using remove_all_wf[OF wf, of gone] by (simp_all add: cancelSession_def gone_def)
  have "filter (\<lambda>x. OrderID x \<notin> ?ids) L = filter (\<lambda>x. SessionID x \<noteq> sid) L"
    if "set L \<subseteq> (\<lambda>a. view (objs ob a)) ` resting ob" for L
    using eq that by (intro filter_cong[OF refl]) blast
  moreover have "{c \<in> resting ob. OrderID (view (objs ob c)) \<notin> ?ids} =
      {c \<in> resting ob. SessionID (view (objs ob c)) \<noteq> sid}"
    using eq by blast
  ultimately show ?thesis
    using all list_subsets[of ob] by (simp add: without_def)
qed

end
