(* ===== verification/StubSession.thy ===== *)
theory StubSession
  imports StubMatch
begin

text \<open>
  The sessions of the matching engine (\<open>services/stub/main.go\<close>): what an order, a cancel and a
  disconnect do to the shared book and which messages the session is sent. The part of a
  handler that runs under the book's mutex is one function; a reject or a cancel ack outside
  of it takes its timestamp when it is sent, which is a second, separate moment.
\<close>

section \<open>Facts about the contract\<close>

lemma Remaining_self: "(x::Order)\<lparr>Remaining := Remaining x\<rparr> = x"
  by (cases x) simp

lemma spec_match_keeps:
  assumes "spec_match order L = (order', L', fs)" "0 \<le> Remaining order" "\<forall>x \<in> set L. 0 < Remaining x"
  shows "order' = order\<lparr>Remaining := Remaining order'\<rparr> \<and> 0 \<le> Remaining order' \<and>
    Remaining order' \<le> Remaining order \<and>
    (\<forall>x \<in> set L'. 0 < Remaining x \<and> (\<exists>y \<in> set L. x = y\<lparr>Remaining := Remaining x\<rparr>)) \<and>
    (\<forall>f \<in> set fs. 0 < fst f)"
  using assms
proof (induction order L arbitrary: order' L' fs rule: spec_match.induct)
  case (1 order)
  then show ?case by simp
next
  case (2 order best others)
  let ?turn = "order\<lparr>Remaining := Remaining order - Remaining best\<rparr>"
  consider (stop) "Remaining order \<le> 0 \<or> OrderType order = ''limit'' \<and> worse order best"
    | (all) "\<not> (Remaining order \<le> 0 \<or> OrderType order = ''limit'' \<and> worse order best)"
      "Remaining best \<le> Remaining order"
    | (part) "\<not> (Remaining order \<le> 0 \<or> OrderType order = ''limit'' \<and> worse order best)"
      "\<not> Remaining best \<le> Remaining order"
    by blast
  then show ?case
  proof cases
    case stop
    with "2.prems" have "order' = order" "L' = best # others" "fs = []" by auto
    moreover have "\<exists>y \<in> set L'. x = y\<lparr>Remaining := Remaining x\<rparr>" if "x \<in> set L'" for x
      using that Remaining_self[of x] by metis
    ultimately show ?thesis using "2.prems"(2,3) by simp
  next
    case all
    obtain o1 L1 f1 where r: "spec_match ?turn others = (o1, L1, f1)" by (cases "spec_match ?turn others")
    have res: "order' = o1" "L' = L1" "fs = (Remaining best, Price best, Remaining ?turn) # f1"
      using "2.prems"(1) all r by auto
    show ?thesis using "2.IH"[OF all r] "2.prems" all unfolding res by fastforce
  next
    case part
    with "2.prems" show ?thesis by (auto; metis Order.surjective Order.update_convs(6))
  qed
qed

text \<open>Quantity is conserved: what the order lost, the fills say and the other side lost too.\<close>

lemma spec_match_conserves:
  "spec_match order L = (order', L', fs) \<Longrightarrow>
    sum_list (map fst fs) = Remaining order - Remaining order' \<and>
    sum_list (map Remaining L') = sum_list (map Remaining L) - sum_list (map fst fs)"
  by (induction order L arbitrary: order' L' fs rule: spec_match.induct)
    (auto split: if_splits prod.splits)

text \<open>Every fill is at a price the order accepts.\<close>

lemma spec_match_prices:
  "spec_match order L = (order', L', fs) \<Longrightarrow> OrderType order = ''limit'' \<Longrightarrow>
    \<forall>f \<in> set fs. if Side order = ''buy'' then fst (snd f) \<le> Price order else Price order \<le> fst (snd f)"
proof (induction order L arbitrary: order' L' fs rule: spec_match.induct)
  case (2 order best others)
  then show ?case by (fastforce simp: worse_def not_less split: if_splits prod.splits)
qed simp

text \<open>Fills are made at the price of an order of the other side.\<close>

lemma spec_match_fills:
  "spec_match order L = (order', L', fs) \<Longrightarrow> 0 \<le> Remaining order \<Longrightarrow>
    \<forall>(q, p, r) \<in> set fs. 0 \<le> r \<and> (\<exists>x \<in> set L. p = Price x)"
proof (induction order L arbitrary: order' L' fs rule: spec_match.induct)
  case (2 order best others)
  then show ?case by (fastforce split: if_splits prod.splits)
qed simp

text \<open>What is left of the order does not cross what is left of the other side.\<close>

lemma spec_match_stuck:
  "spec_match order L = (order', L', fs) \<Longrightarrow> 0 < Remaining order' \<Longrightarrow>
    L' = [] \<or> OrderType order = ''limit'' \<and> worse order (hd L') \<and> (\<exists>n. L' = drop n L)"
proof (induction order L arbitrary: order' L' fs rule: spec_match.induct)
  case (2 order best others)
  let ?turn = "order\<lparr>Remaining := Remaining order - Remaining best\<rparr>"
  show ?case
  proof (cases "Remaining order \<le> 0 \<or> OrderType order = ''limit'' \<and> worse order best")
    case True
    with "2.prems" show ?thesis by (auto intro: exI[of _ 0])
  next
    case False
    with "2.prems" have all: "Remaining best \<le> Remaining order" by (auto split: if_splits)
    obtain o1 L1 f1 where r: "spec_match ?turn others = (o1, L1, f1)" by (cases "spec_match ?turn others")
    have res: "order' = o1" "L' = L1" using "2.prems"(1) all False r by auto
    have "L1 = [] \<or> OrderType ?turn = ''limit'' \<and> worse ?turn (hd L1) \<and> (\<exists>n. L1 = drop n others)"
      using "2.IH"[OF False all r] "2.prems"(2) res by simp
    then show ?thesis unfolding res worse_def by (auto intro: exI[of _ "Suc n" for n])
  qed
qed simp

lemma opposite_sorted:
  "sorted_wrt (\<lambda>x y. worse order x \<longrightarrow> worse order y) (opposite_list order ob)"
proof (cases "Side order = ''buy''")
  case True
  have "sorted (map ask_rank (ask_list ob))" unfolding ask_list_def by (rule ask_side.ranked_sorted)
  then have "sorted_wrt (\<lambda>x y. ask_rank x \<le> ask_rank y) (ask_list ob)" by (simp add: sorted_map)
  with True show ?thesis
    by (auto simp: opposite_list_def worse_def ask_rank_def less_eq_prod_def elim!: sorted_wrt_mono_rel[rotated])
next
  case False
  have "sorted (map bid_rank (bid_list ob))" unfolding bid_list_def by (rule bid_side.ranked_sorted)
  then have "sorted_wrt (\<lambda>x y. bid_rank x \<le> bid_rank y) (bid_list ob)" by (simp add: sorted_map)
  with False show ?thesis
    by (auto simp: opposite_list_def worse_def bid_rank_def less_eq_prod_def elim!: sorted_wrt_mono_rel[rotated])
qed

lemma spec_match_uncrossed:
  assumes "spec_match order (opposite_list order ob) = (order', L', fs)" "0 < Remaining order'" "x \<in> set L'"
  shows "OrderType order = ''limit'' \<and> worse order x"
proof -
  obtain n where L': "OrderType order = ''limit''" "worse order (hd L')" "L' = drop n (opposite_list order ob)"
    using spec_match_stuck[OF assms(1,2)] assms(3) by auto
  have s: "sorted_wrt (\<lambda>x y. worse order x \<longrightarrow> worse order y) L'"
    unfolding L'(3) by (rule sorted_wrt_drop[OF opposite_sorted])
  show ?thesis using L'(1,2) s assms(3) by (cases L') auto
qed

section \<open>Handlers\<close>

record engine =
  book :: Orderbook
  clk :: clock

definition id_char :: "char \<Rightarrow> bool" where
  "id_char c = (let n = of_char c :: nat
     in 65 \<le> n \<and> n \<le> 90 \<or> 97 \<le> n \<and> n \<le> 122 \<or> 48 \<le> n \<and> n \<le> 57 \<or> n = 47 \<or> n = 45)"

text \<open>The regular expression \<open>^[A-Za-z0-9/-]+$\<close>.\<close>

definition orderIDRegex :: "string \<Rightarrow> bool" where
  "orderIDRegex s \<longleftrightarrow> s \<noteq> [] \<and> list_all id_char s"

text \<open>
  What the locked part of a handler leaves to be sent: messages that are complete, or one that
  is stamped with \<open>now()\<close> when it is sent.
\<close>

datatype outcome = Ready "OutMessage list" | Stamp "int64 \<Rightarrow> OutMessage"

definition new_order :: "string \<Rightarrow> IncomingMessage \<Rightarrow> int64 \<Rightarrow> Order" where
  "new_order sid msg entered =
     \<lparr>OrderID = in_OrderID msg, Side = in_Side msg, OrderType = in_OrderType msg, Price = in_Price msg,
      Quantity = in_Quantity msg, Remaining = in_Quantity msg, EnteredAt = entered, SessionID = sid,
      index = - 1\<rparr>"

definition handleOrder :: "(nat \<Rightarrow> int64) \<Rightarrow> string \<Rightarrow> IncomingMessage \<Rightarrow> engine \<Rightarrow> engine \<times> outcome" where
  "handleOrder u sid msg eng =
     (if length (in_OrderID msg) = 0 \<or> length (in_OrderID msg) > 64 \<or> \<not> orderIDRegex (in_OrderID msg) \<or>
         (in_Side msg \<noteq> ''buy'' \<and> in_Side msg \<noteq> ''sell'') \<or>
         (in_OrderType msg \<noteq> ''limit'' \<and> in_OrderType msg \<noteq> ''market'')
      then (eng, Stamp (RejectMessage (in_OrderID msg) ''invalid_order''))
      else if in_Quantity msg \<le> 0 then (eng, Stamp (RejectMessage (in_OrderID msg) ''invalid_quantity''))
      else if in_OrderType msg = ''limit'' \<and> in_Price msg \<le> 0
      then (eng, Stamp (RejectMessage (in_OrderID msg) ''invalid_price''))
      else if orders (book eng) (in_OrderID msg) \<noteq> None
      then (eng, Stamp (RejectMessage (in_OrderID msg) ''duplicate_order_id''))
      else
        let (ts, c) = now u (clk eng);
            order = new_order sid msg ts;
            ack = AckMessage (in_OrderID msg) (EnteredAt order);
            (ob, c, order, fills) = match u (book eng) c order
        in if OrderType order = ''market'' \<and> Remaining order > 0
           then let (ts, c) = now u c
                in (\<lparr>book = ob, clk = c\<rparr>,
                    Ready (ack # fills @ [RejectMessage (in_OrderID msg) ''no_liquidity'' ts]))
           else if Remaining order > 0 then (\<lparr>book = rest order ob, clk = c\<rparr>, Ready (ack # fills))
           else (\<lparr>book = ob, clk = c\<rparr>, Ready (ack # fills)))"

definition handleCancel :: "string \<Rightarrow> IncomingMessage \<Rightarrow> engine \<Rightarrow> engine \<times> outcome" where
  "handleCancel sid msg eng =
     (case orders (book eng) (in_OrderID msg) of
        None \<Rightarrow> (eng, Stamp (RejectMessage (in_OrderID msg) ''unknown_order''))
      | Some a \<Rightarrow>
          if SessionID (objs (book eng) a) \<noteq> sid
          then (eng, Stamp (RejectMessage (in_OrderID msg) ''unauthorized''))
          else (eng\<lparr>book := remove (in_OrderID msg) (book eng)\<rparr>, Stamp (CancelAckMessage (in_OrderID msg))))"

text \<open>The read loop of \<open>streamHandler\<close>, for one message.\<close>

definition on_message :: "(nat \<Rightarrow> int64) \<Rightarrow> string \<Rightarrow> IncomingMessage \<Rightarrow> engine \<Rightarrow> engine \<times> outcome" where
  "on_message u sid msg eng =
     (if in_Type msg = ''order'' then handleOrder u sid msg eng
      else if in_Type msg = ''cancel'' then handleCancel sid msg eng
      else (eng, Stamp (RejectMessage (in_OrderID msg) ''unknown_type'')))"

text \<open>What the handler sends, when nothing happens between its locked part and its sends.\<close>

definition deliver :: "(nat \<Rightarrow> int64) \<Rightarrow> engine \<times> outcome \<Rightarrow> engine \<times> OutMessage list" where
  "deliver u r =
     (let (eng, out) = r in
      case out of
        Ready ms \<Rightarrow> (eng, ms)
      | Stamp m \<Rightarrow> (let (ts, c) = now u (clk eng) in (eng\<lparr>clk := c\<rparr>, [m ts])))"

section \<open>What the handlers do to the sorted book\<close>

text \<open>The checks an order has to pass, with the reason of the first one it fails.\<close>

definition order_error :: "Orderbook \<Rightarrow> IncomingMessage \<Rightarrow> string option" where
  "order_error ob msg =
     (if \<not> (orderIDRegex (in_OrderID msg) \<and> length (in_OrderID msg) \<le> 64 \<and>
           in_Side msg \<in> {''buy'', ''sell''} \<and> in_OrderType msg \<in> {''limit'', ''market''})
      then Some ''invalid_order''
      else if in_Quantity msg \<le> 0 then Some ''invalid_quantity''
      else if in_OrderType msg = ''limit'' \<and> in_Price msg \<le> 0 then Some ''invalid_price''
      else if in_OrderID msg \<in> dom (orders ob) then Some ''duplicate_order_id''
      else None)"

lemma order_error_None:
  "order_error ob msg = None \<longleftrightarrow>
    orderIDRegex (in_OrderID msg) \<and> length (in_OrderID msg) \<le> 64 \<and> in_Side msg \<in> {''buy'', ''sell''} \<and>
    in_OrderType msg \<in> {''limit'', ''market''} \<and> 0 < in_Quantity msg \<and>
    (in_OrderType msg = ''limit'' \<longrightarrow> 0 < in_Price msg) \<and> orders ob (in_OrderID msg) = None"
  by (auto simp: order_error_def)

lemma handleOrder_rejects:
  "order_error (book eng) msg = Some reason \<Longrightarrow>
    handleOrder u sid msg eng = (eng, Stamp (RejectMessage (in_OrderID msg) reason))"
  by (auto simp: order_error_def handleOrder_def orderIDRegex_def split: if_splits)

text \<open>The branch of an order that passes the checks.\<close>

lemma handleOrder_branch:
  assumes "order_error (book eng) msg = None" "now u (clk eng) = (ts, c)"
    "match u (book eng) c (new_order sid msg ts) = (ob, c1, order, fills)"
  shows "handleOrder u sid msg eng =
    (if OrderType order = ''market'' \<and> Remaining order > 0
     then (\<lparr>book = ob, clk = snd (now u c1)\<rparr>,
           Ready (AckMessage (in_OrderID msg) ts # fills @
             [RejectMessage (in_OrderID msg) ''no_liquidity'' (fst (now u c1))]))
     else if Remaining order > 0
     then (\<lparr>book = rest order ob, clk = c1\<rparr>, Ready (AckMessage (in_OrderID msg) ts # fills))
     else (\<lparr>book = ob, clk = c1\<rparr>, Ready (AckMessage (in_OrderID msg) ts # fills)))"
  using assms(1) unfolding order_error_None
  by (auto simp: handleOrder_def assms(2,3) new_order_def[of sid msg ts, THEN arg_cong[of _ _ EnteredAt]]
      orderIDRegex_def split: prod.splits)

lemma new_order_sel [simp]:
  "OrderID (new_order sid msg ts) = in_OrderID msg" "Side (new_order sid msg ts) = in_Side msg"
  "OrderType (new_order sid msg ts) = in_OrderType msg" "Price (new_order sid msg ts) = in_Price msg"
  "Quantity (new_order sid msg ts) = in_Quantity msg" "Remaining (new_order sid msg ts) = in_Quantity msg"
  "EnteredAt (new_order sid msg ts) = ts" "SessionID (new_order sid msg ts) = sid"
  by (simp_all add: new_order_def)

lemma resting_old:
  assumes "wf_book T ob" "x \<in> set (own_list order ob) \<union> set (opposite_list order ob)"
  shows "order_ok T x \<and> orders ob (OrderID x) \<noteq> None"
proof -
  obtain c where c: "c \<in> resting ob" "x = view (objs ob c)" using assms(2) unfolding resting_lists by auto
  then have "order_ok T (objs ob c)" "orders ob (OrderID (objs ob c)) = Some c"
    using wf_sides(7)[OF assms(1) c(1)] wf_orders[OF assms(1), of _ c] by auto
  with c(2) show ?thesis by (simp add: order_ok_def)
qed

text \<open>What is left of a limit order after \<open>match\<close> may rest.\<close>

lemma remainder_may_rest:
  assumes wf: "wf_book (lastTimestamp c0) ob" and ok: "order_error ob msg = None"
    and qty: "in_Quantity msg < 2 ^ 63" and ts: "lastTimestamp c0 < ts" "ts \<le> T'"
    and spec: "spec_match (new_order sid msg ts) (opposite_list (new_order sid msg ts) ob) = (order', opp', fs)"
    and lists: "opposite_list order' ob' = opp'" "own_list order' ob' = own_list (new_order sid msg ts) ob"
    and left: "0 < Remaining order'" "OrderType order' \<noteq> ''market''"
  shows "may_rest T' order' ob'"
proof -
  let ?o = "new_order sid msg ts"
  have ok': "0 < in_Quantity msg" "in_OrderType msg \<in> {''limit'', ''market''}" "in_Side msg \<in> {''buy'', ''sell''}"
    "in_OrderType msg = ''limit'' \<longrightarrow> 0 < in_Price msg" "orders ob (in_OrderID msg) = None"
    using ok unfolding order_error_None by blast+
  have old: "order_ok (lastTimestamp c0) x \<and> orders ob (OrderID x) \<noteq> None"
    if "x \<in> set (own_list ?o ob) \<union> set (opposite_list ?o ob)" for x by (rule resting_old[OF wf that])
  then have "\<forall>x \<in> set (opposite_list ?o ob). 0 < Remaining x" by (auto simp: order_ok_def)
  then have keep: "order' = ?o\<lparr>Remaining := Remaining order'\<rparr>" "Remaining order' \<le> in_Quantity msg"
    "\<forall>x \<in> set opp'. \<exists>y \<in> set (opposite_list ?o ob). x = y\<lparr>Remaining := Remaining x\<rparr>"
    using spec_match_keeps[OF spec] ok'(1) by auto
  have sel: "OrderID order' = in_OrderID msg" "Side order' = in_Side msg" "OrderType order' = in_OrderType msg"
    "Price order' = in_Price msg" "Quantity order' = in_Quantity msg" "EnteredAt order' = ts"
    by (subst keep(1), simp)+
  have seen: "EnteredAt x < ts \<and> OrderID x \<noteq> in_OrderID msg"
    if x: "x \<in> set (own_list ?o ob) \<union> set opp'" for x
  proof -
    obtain y where y: "y \<in> set (own_list ?o ob) \<union> set (opposite_list ?o ob)"
      "EnteredAt x = EnteredAt y" "OrderID x = OrderID y"
      using x keep(3) by (metis Order.select_convs(1,7) Order.surjective Order.update_convs(6) Un_iff)
    then show ?thesis using old[OF y(1)] ok'(5) ts(1) by (auto simp: order_ok_def)
  qed
  have "worse order' x" if "x \<in> set opp'" for x
    using spec_match_uncrossed[OF spec left(1) that] sel by (simp add: worse_def split: if_splits)
  moreover have "order_ok T' order'"
    using ok' left keep(2) qty ts(2) sel by (auto simp: order_ok_def)
  ultimately show ?thesis
    using seen ok'(3) sel unfolding may_rest_def lists by auto
qed

text \<open>
  An order that passes the checks, against the contract: the ack first, then a fill for every
  step of \<open>spec_match\<close>, then a reject when a market order found too little; a limit order's
  remainder is inserted on its own side by rank.
\<close>

definition accept_reply :: "string \<Rightarrow> int64 \<Rightarrow> OutMessage list \<Rightarrow> Order \<Rightarrow> int64 \<Rightarrow> OutMessage list" where
  "accept_reply k ts fills order' T' = AckMessage k ts # fills @
     (if OrderType order' = ''market'' \<and> 0 < Remaining order' then [RejectMessage k ''no_liquidity'' T'] else [])"

definition rested :: "Order \<Rightarrow> Order list \<Rightarrow> Order list" where
  "rested order own = (if OrderType order = ''limit'' \<and> 0 < Remaining order
     then insort_key (own_rank order) (view order) own else own)"

lemma stamped_append:
  "stamped T ms T' \<Longrightarrow> stamped T' ms' T'' \<Longrightarrow> stamped T (ms @ ms') T''"
  unfolding stamped_def by (fastforce simp: sorted_wrt_append)

lemma handleOrder_accepts:
  assumes wf: "wf_book (lastTimestamp (clk eng)) (book eng)" and ok: "order_error (book eng) msg = None"
    and qty: "in_Quantity msg < 2 ^ 63" and now: "now u (clk eng) = (ts, c)"
    and run: "handleOrder u sid msg eng = (eng', out)"
    and spec: "spec_match (new_order sid msg ts) (opposite_list (new_order sid msg ts) (book eng)) = (order', opp', fs)"
  shows "wf_book (lastTimestamp (clk eng')) (book eng') \<and>
    opposite_list (new_order sid msg ts) (book eng') = opp' \<and>
    own_list (new_order sid msg ts) (book eng') = rested order' (own_list (new_order sid msg ts) (book eng)) \<and>
    (\<exists>fills. out = Ready (accept_reply (in_OrderID msg) ts fills order' (lastTimestamp (clk eng'))) \<and>
      map fill_of fills = fs \<and> list_all (is_fill_for (in_OrderID msg)) fills \<and>
      stamped (lastTimestamp (clk eng))
        (accept_reply (in_OrderID msg) ts fills order' (lastTimestamp (clk eng'))) (lastTimestamp (clk eng')))"
proof -
  let ?o = "new_order sid msg ts"
  obtain ob c1 order1 fills where m: "match u (book eng) c ?o = (ob, c1, order1, fills)"
    by (cases "match u (book eng) c ?o")
  have ts: "lastTimestamp (clk eng) < ts" "lastTimestamp c = ts" using now_later[OF now] by auto
  have wf1: "wf_book (lastTimestamp c) (book eng)" using wf_book_later[OF wf] ts by simp
  have q: "0 < in_Quantity msg" using ok unfolding order_error_None by blast
  have ref: "order1 = order'" "opposite_list ?o ob = opp'" "map fill_of fills = fs"
    "own_list ?o ob = own_list ?o (book eng)" "wf_book (lastTimestamp c1) ob"
    "list_all (is_fill_for (in_OrderID msg)) fills" "stamped ts fills (lastTimestamp c1)"
    using match_refines_spec[OF wf1 _ _ m] q qty spec ts(2) by auto
  have type: "OrderType order' = in_OrderType msg" "Side order' = in_Side msg" "OrderType order' \<in> {''limit'', ''market''}"
  proof -
    have "order' = ?o\<lparr>Remaining := Remaining order'\<rparr>"
      using spec_match_keeps[OF spec] resting_old[OF wf] q by (auto simp: order_ok_def)
    then show "OrderType order' = in_OrderType msg" "Side order' = in_Side msg"
      by (metis Order.select_convs(2,3) Order.surjective Order.update_convs(6) new_order_sel(2,3))+
    with ok show "OrderType order' \<in> {''limit'', ''market''}" unfolding order_error_None by simp
  qed
  have ack: "stamped (lastTimestamp (clk eng)) (AckMessage (in_OrderID msg) ts # fills) (lastTimestamp c1)"
    using stamped_Cons[of _ "AckMessage (in_OrderID msg) ts"] ts ref(7) by simp
  have T1: "ts \<le> lastTimestamp c1" using ref(7) by (simp add: stamped_def)
  obtain t2 c2 where n2: "now u c1 = (t2, c2)" by (cases "now u c1")
  have side: "opposite_list order' = opposite_list ?o" "own_list order' = own_list ?o"
    using opposite_list_cong[of order' ?o] type by simp_all
  note br = handleOrder_branch[OF ok now m]
  consider (market) "OrderType order' = ''market''" "0 < Remaining order'"
    | (limit) "OrderType order' = ''limit''" "0 < Remaining order'" | (filled) "\<not> 0 < Remaining order'"
    using type(3) by auto
  then show ?thesis
  proof cases
    case market
    have t2: "lastTimestamp c1 < t2" "lastTimestamp c2 = t2" using now_later[OF n2] by auto
    have "stamped (lastTimestamp c1) [RejectMessage (in_OrderID msg) ''no_liquidity'' t2] t2"
      using t2 by (simp add: stamped_def)
    from stamped_append[OF ack this] show ?thesis
      using br[unfolded run] market ref t2 wf_book_later[OF ref(5)]
      by (auto simp: n2 accept_reply_def rested_def)
  next
    case limit
    have "may_rest (lastTimestamp c1) order' ob"
      using remainder_may_rest[OF wf ok qty ts(1) T1 spec] ref side limit by simp
    from rest_wf[OF ref(5) this] show ?thesis
      using br[unfolded run] limit ref ack side by (auto simp: accept_reply_def rested_def)
  next
    case filled
    then show ?thesis using br[unfolded run] ref ack by (auto simp: accept_reply_def rested_def)
  qed
qed

end
