(* ===== verification/StubServer.thy ===== *)
theory StubServer
  imports StubSession
begin

text \<open>
  The matching engine as a state machine (\<open>streamHandler\<close>, \<open>writeLoop\<close> and the handlers of
  \<open>services/stub/main.go\<close>). Any number of sessions run: a session's reader takes a message,
  works on the shared book under its mutex, stamps a late reply and puts its replies into
  the session's channel of 256 messages; its writer takes them out until a write or a ping
  fails; at the end the reader cancels the session's orders. A step is one of these moves of
  one session, so an execution is any interleaving of them. Within the mutex the timestamps of
  a handler are drawn together; \<open>Clock\<close> shows what \<open>now()\<close> returns under contention.
\<close>

record session =
  doing :: outcome
  chan :: "OutMessage list"
  wire :: "OutMessage list"
  writing :: bool

record server =
  engine :: engine
  sessions :: "string \<rightharpoonup> session"

abbreviation send_capacity :: nat where "send_capacity \<equiv> 256"

definition server_init :: server where
  "server_init = \<lparr>engine = \<lparr>book = NewOrderbook, clk = \<lparr>lastTimestamp = 0, readings = 0\<rparr>\<rparr>,
                  sessions = Map.empty\<rparr>"

definition new_session :: session where
  "new_session = \<lparr>doing = Ready [], chan = [], wire = [], writing = True\<rparr>"

definition session_id :: "string \<Rightarrow> int64 \<Rightarrow> string" where
  "session_id remoteAddr t = remoteAddr @ ''/'' @ show_int t"

text \<open>A turn of \<open>writeLoop\<close>: a message is written, a write fails, or a ping fails.\<close>

inductive writeLoop :: "session \<Rightarrow> session \<Rightarrow> bool" where
  written: "writing s \<Longrightarrow> chan s = m # ms \<Longrightarrow> writeLoop s (s\<lparr>chan := ms, wire := wire s @ [m]\<rparr>)"
| write_error: "writing s \<Longrightarrow> chan s = m # ms \<Longrightarrow> writeLoop s (s\<lparr>chan := ms, writing := False\<rparr>)"
| ping_error: "writing s \<Longrightarrow> writeLoop s (s\<lparr>writing := False\<rparr>)"

inductive server_step :: "(nat \<Rightarrow> int64) \<Rightarrow> server \<Rightarrow> server \<Rightarrow> bool" for u where
  accept:
    "now u (clk (engine sv)) = (t, c) \<Longrightarrow>
     server_step u sv (sv\<lparr>engine := (engine sv)\<lparr>clk := c\<rparr>,
       sessions := (sessions sv)(session_id remoteAddr t \<mapsto> new_session)\<rparr>)"
| receive:
    "sessions sv sid = Some s \<Longrightarrow> doing s = Ready [] \<Longrightarrow> int64_range (in_Quantity msg) \<Longrightarrow>
     on_message u sid msg (engine sv) = (eng, out) \<Longrightarrow>
     server_step u sv (sv\<lparr>engine := eng, sessions := (sessions sv)(sid \<mapsto> s\<lparr>doing := out\<rparr>)\<rparr>)"
| stamp:
    "sessions sv sid = Some s \<Longrightarrow> doing s = Stamp m \<Longrightarrow> now u (clk (engine sv)) = (t, c) \<Longrightarrow>
     server_step u sv (sv\<lparr>engine := (engine sv)\<lparr>clk := c\<rparr>,
       sessions := (sessions sv)(sid \<mapsto> s\<lparr>doing := Ready [m t]\<rparr>)\<rparr>)"
| send:
    "sessions sv sid = Some s \<Longrightarrow> doing s = Ready (m # ms) \<Longrightarrow> length (chan s) < send_capacity \<Longrightarrow>
     server_step u sv (sv\<lparr>sessions := (sessions sv)(sid \<mapsto> s\<lparr>doing := Ready ms, chan := chan s @ [m]\<rparr>)\<rparr>)"
| writer:
    "sessions sv sid = Some s \<Longrightarrow> writeLoop s s' \<Longrightarrow>
     server_step u sv (sv\<lparr>sessions := (sessions sv)(sid \<mapsto> s')\<rparr>)"
| read_error:
    "sessions sv sid = Some s \<Longrightarrow> doing s = Ready [] \<Longrightarrow> range_order (orders (book (engine sv))) visit \<Longrightarrow>
     server_step u sv (sv\<lparr>engine := (engine sv)\<lparr>book := cancelSession visit sid (book (engine sv))\<rparr>,
       sessions := (sessions sv)(sid := None)\<rparr>)"
| snapshot:
    "now u (clk (engine sv)) = (t, c) \<Longrightarrow> server_step u sv (sv\<lparr>engine := (engine sv)\<lparr>clk := c\<rparr>\<rparr>)"

inductive server_reachable :: "(nat \<Rightarrow> int64) \<Rightarrow> server \<Rightarrow> bool" for u where
  start: "server_reachable u server_init"
| step: "server_reachable u sv \<Longrightarrow> server_step u sv sv' \<Longrightarrow> server_reachable u sv'"

inductive_cases server_stepE: "server_step u sv sv'"

section \<open>Session ids\<close>

text \<open>Decimal numbers have no slash, so the part after the last slash of an id is its timestamp.\<close>

lemma show_int_no_slash: "CHR ''/'' \<notin> set (show_int i)"
proof
  assume "CHR ''/'' \<in> set (show_int i)"
  then obtain n where "CHR ''/'' \<in> set (show_nat n)" by (auto simp: show_int_def split: if_splits)
  from show_nat_chars[OF this] show False by simp
qed

lemma session_id_inj: "session_id r t = session_id r' t' \<Longrightarrow> t = t'"
proof -
  have "rev (takeWhile (\<lambda>c. c \<noteq> CHR ''/'') (rev (session_id r t))) = show_int t" for r t
  proof -
    have "takeWhile (\<lambda>c. c \<noteq> CHR ''/'') (rev (show_int t) @ CHR ''/'' # rev r) =
        rev (show_int t) @ takeWhile (\<lambda>c. c \<noteq> CHR ''/'') (CHR ''/'' # rev r)"
      by (rule takeWhile_append2) (use show_int_no_slash[of t] in auto)
    then show ?thesis by (simp add: session_id_def)
  qed
  then have "session_id r t = session_id r' t' \<Longrightarrow> show_int t = show_int t'" by metis
  then show "session_id r t = session_id r' t' \<Longrightarrow> t = t'" by (blast dest: show_int_inj)
qed

section \<open>What a message does\<close>

definition owners :: "Orderbook \<Rightarrow> string set" where
  "owners ob = SessionID ` (set (bid_list ob) \<union> set (ask_list ob))"

definition stamps :: "outcome \<Rightarrow> bool" where
  "stamps out \<longleftrightarrow> (\<forall>m. out = Stamp m \<longrightarrow> (\<forall>t. msg_time (m t) = t))"

definition pending :: "outcome \<Rightarrow> OutMessage list" where
  "pending out = (case out of Ready ms \<Rightarrow> ms | Stamp _ \<Rightarrow> [])"

lemma owners_lists: "owners ob = SessionID ` (set (own_list order ob) \<union> set (opposite_list order ob))"
  by (auto simp: owners_def own_list_def opposite_list_def)

lemma owners_resting: "owners ob = (\<lambda>a. SessionID (objs ob a)) ` resting ob"
  unfolding owners_lists[of _ undefined] resting_lists by (simp add: image_image)

lemma owners_without: "without P ob ob' \<Longrightarrow> owners ob' \<subseteq> owners ob"
  by (auto simp: owners_def without_def)

lemma handleOrder_ok:
  assumes wf: "wf_book (lastTimestamp (clk eng)) (book eng)" and qty: "int64_range (in_Quantity msg)"
    and run: "handleOrder u sid msg eng = (eng', out)"
  shows "wf_book (lastTimestamp (clk eng')) (book eng') \<and> lastTimestamp (clk eng) \<le> lastTimestamp (clk eng') \<and>
    owners (book eng') \<subseteq> insert sid (owners (book eng)) \<and> stamps out \<and>
    stamped (lastTimestamp (clk eng)) (pending out) (lastTimestamp (clk eng'))"
proof (cases "order_error (book eng) msg")
  case (Some reason)
  from run[unfolded handleOrder_rejects[OF Some]] wf show ?thesis
    by (auto simp: stamps_def pending_def stamped_Nil)
next
  case None
  obtain ts c where now: "now u (clk eng) = (ts, c)" by (cases "now u (clk eng)")
  let ?o = "new_order sid msg ts"
  obtain order' opp' fs where spec: "spec_match ?o (opposite_list ?o (book eng)) = (order', opp', fs)"
    by (cases "spec_match ?o (opposite_list ?o (book eng))")
  have q: "in_Quantity msg < 2 ^ 63" "0 < in_Quantity msg"
    using qty None unfolding order_error_None int64_range_def by auto
  have acc: "wf_book (lastTimestamp (clk eng')) (book eng')" "opposite_list ?o (book eng') = opp'"
    "own_list ?o (book eng') = rested order' (own_list ?o (book eng))"
    "\<exists>ms. out = Ready ms \<and> stamped (lastTimestamp (clk eng)) ms (lastTimestamp (clk eng'))"
    using handleOrder_accepts[OF wf None q(1) now run spec] by blast+
  have keep: "order' = ?o\<lparr>Remaining := Remaining order'\<rparr>"
    "\<forall>x \<in> set opp'. \<exists>y \<in> set (opposite_list ?o (book eng)). x = y\<lparr>Remaining := Remaining x\<rparr>"
    using spec_match_keeps[OF spec] resting_old[OF wf] q(2) by (auto simp: order_ok_def)
  have "SessionID order' = sid" by (subst keep(1)) simp
  moreover have "SessionID ` set opp' \<subseteq> SessionID ` set (opposite_list ?o (book eng))"
  proof
    fix z assume "z \<in> SessionID ` set opp'"
    then obtain x y where "z = SessionID x" "y \<in> set (opposite_list ?o (book eng))" "x = y\<lparr>Remaining := Remaining x\<rparr>"
      using keep(2) by blast
    then show "z \<in> SessionID ` set (opposite_list ?o (book eng))"
      by (metis Order.select_convs(8) Order.surjective Order.update_convs(6) imageI)
  qed
  ultimately have "owners (book eng') \<subseteq> insert sid (owners (book eng))"
    unfolding owners_lists[of _ ?o] acc(2,3) rested_def by (auto simp: set_insort_key)
  with acc(1,4) show ?thesis by (auto simp: stamps_def pending_def stamped_def)
qed

lemma handleCancel_ok:
  assumes wf: "wf_book (lastTimestamp (clk eng)) (book eng)" and run: "handleCancel sid msg eng = (eng', out)"
  shows "wf_book (lastTimestamp (clk eng')) (book eng') \<and> clk eng' = clk eng \<and>
    owners (book eng') \<subseteq> owners (book eng) \<and> stamps out \<and> pending out = []"
  using run wf remove_wf[OF wf, of "in_OrderID msg"]
    owners_without[of "\<lambda>x. OrderID x = in_OrderID msg" "book eng" "remove (in_OrderID msg) (book eng)"]
  by (auto simp: handleCancel_def stamps_def pending_def split: option.splits if_splits)

lemma on_message_ok:
  assumes "wf_book (lastTimestamp (clk eng)) (book eng)" "int64_range (in_Quantity msg)"
    "on_message u sid msg eng = (eng', out)"
  shows "wf_book (lastTimestamp (clk eng')) (book eng') \<and> lastTimestamp (clk eng) \<le> lastTimestamp (clk eng') \<and>
    owners (book eng') \<subseteq> insert sid (owners (book eng)) \<and> stamps out \<and>
    stamped (lastTimestamp (clk eng)) (pending out) (lastTimestamp (clk eng'))"
proof -
  consider "in_Type msg = ''order''" | "in_Type msg \<noteq> ''order''" "in_Type msg = ''cancel''"
    | "in_Type msg \<noteq> ''order''" "in_Type msg \<noteq> ''cancel''" by blast
  then show ?thesis
  proof cases
    case 1 with assms handleOrder_ok[OF assms(1,2)] show ?thesis by (simp add: on_message_def)
  next
    case 2
    with assms(3) have "handleCancel sid msg eng = (eng', out)" by (simp add: on_message_def)
    from handleCancel_ok[OF assms(1) this] show ?thesis by (auto simp: stamped_Nil)
  next
    case 3 with assms show ?thesis by (auto simp: on_message_def stamps_def pending_def stamped_Nil)
  qed
qed

section \<open>The invariant of every execution\<close>

definition in_order :: "OutMessage list \<Rightarrow> int64 \<Rightarrow> bool" where
  "in_order ms T \<longleftrightarrow> sorted_wrt (<) (map msg_time ms) \<and> (\<forall>m \<in> set ms. msg_time m \<le> T)"

definition session_ok :: "int64 \<Rightarrow> session \<Rightarrow> bool" where
  "session_ok T s \<longleftrightarrow> in_order (wire s @ chan s @ pending (doing s)) T \<and>
     length (chan s) \<le> send_capacity \<and> stamps (doing s)"

definition issued :: "int64 \<Rightarrow> string \<Rightarrow> bool" where
  "issued T sid \<longleftrightarrow> (\<exists>r t. sid = session_id r t \<and> t \<le> T)"

definition server_ok :: "server \<Rightarrow> bool" where
  "server_ok sv \<longleftrightarrow> (let T = lastTimestamp (clk (engine sv)) in
     wf_book T (book (engine sv)) \<and> owners (book (engine sv)) \<subseteq> dom (sessions sv) \<and>
     (\<forall>sid s. sessions sv sid = Some s \<longrightarrow> session_ok T s \<and> issued T sid))"

lemma in_order_append: "in_order ms T \<Longrightarrow> stamped T ms' T' \<Longrightarrow> in_order (ms @ ms') T'"
  unfolding in_order_def stamped_def by (fastforce simp: sorted_wrt_append)

lemma in_order_later: "in_order ms T \<Longrightarrow> T \<le> T' \<Longrightarrow> in_order ms T'"
  by (auto simp: in_order_def)

lemma session_ok_later: "session_ok T s \<Longrightarrow> T \<le> T' \<Longrightarrow> session_ok T' s"
  by (auto simp: session_ok_def intro: in_order_later)

lemma issued_later: "issued T sid \<Longrightarrow> T \<le> T' \<Longrightarrow> issued T' sid"
  by (force simp: issued_def)

text \<open>A step that changes one session and moves the clock forward.\<close>

lemma server_ok_update:
  assumes ok: "server_ok sv" and s: "sessions sv sid = Some s"
    and s': "session_ok (lastTimestamp (clk eng)) s'"
    and later: "lastTimestamp (clk (engine sv)) \<le> lastTimestamp (clk eng)"
    and wf: "wf_book (lastTimestamp (clk eng)) (book eng)"
    and own: "owners (book eng) \<subseteq> insert sid (owners (book (engine sv)))"
  shows "server_ok (sv\<lparr>engine := eng, sessions := (sessions sv)(sid \<mapsto> s')\<rparr>)"
proof -
  let ?T = "lastTimestamp (clk (engine sv))" and ?T' = "lastTimestamp (clk eng)"
  have old: "owners (book (engine sv)) \<subseteq> dom (sessions sv)"
    "\<And>k z. sessions sv k = Some z \<Longrightarrow> session_ok ?T z \<and> issued ?T k"
    using ok by (simp_all add: server_ok_def Let_def)
  have "session_ok ?T' z \<and> issued ?T' k"
    if k: "((sessions sv)(sid \<mapsto> s')) k = Some z" for k z
  proof -
    obtain z0 where z0: "sessions sv k = Some z0" "z = (if k = sid then s' else z0)"
      using k s by (auto split: if_splits)
    with old(2)[OF z0(1)] later s' show ?thesis by (auto intro: session_ok_later issued_later)
  qed
  moreover have "owners (book eng) \<subseteq> dom ((sessions sv)(sid \<mapsto> s'))" using own old(1) by auto
  ultimately show ?thesis using wf by (simp add: server_ok_def Let_def)
qed

lemma session_ok_new: "session_ok T new_session"
  by (simp add: session_ok_def new_session_def pending_def stamps_def in_order_def)

text \<open>The session's own moves keep its messages in order.\<close>

lemma session_ok_receive:
  assumes "session_ok T s" "doing s = Ready []" "stamped T (pending out) T'" "stamps out"
  shows "session_ok T' (s\<lparr>doing := out\<rparr>)"
  using assms in_order_append[of "wire s @ chan s" T "pending out" T']
  by (simp add: session_ok_def pending_def)

lemma session_ok_stamp:
  assumes "session_ok T s" "doing s = Stamp m" "T < t" "T' = t"
  shows "session_ok T' (s\<lparr>doing := Ready [m t]\<rparr>)"
proof -
  have "stamped T [m t] t" using assms by (simp add: session_ok_def stamps_def stamped_def)
  then show ?thesis
    using assms in_order_append[of "wire s @ chan s" T "[m t]" t]
    by (simp add: session_ok_def pending_def stamps_def)
qed

lemma session_ok_send:
  assumes "session_ok T s" "doing s = Ready (m # ms)" "length (chan s) < send_capacity"
  shows "session_ok T (s\<lparr>doing := Ready ms, chan := chan s @ [m]\<rparr>)"
  using assms by (simp add: session_ok_def pending_def stamps_def)

lemma session_ok_writer: "writeLoop s s' \<Longrightarrow> session_ok T s \<Longrightarrow> session_ok T s'"
  by (auto elim!: writeLoop.cases simp: session_ok_def in_order_def sorted_wrt_append)

lemma server_ok_step:
  assumes "server_step u sv sv'" "server_ok sv"
  shows "server_ok sv'"
proof -
  let ?T = "lastTimestamp (clk (engine sv))"
  have wf: "wf_book ?T (book (engine sv))" and own: "owners (book (engine sv)) \<subseteq> dom (sessions sv)"
    and sess: "sessions sv k = Some z \<Longrightarrow> session_ok ?T z \<and> issued ?T k" for k z
    using assms(2) by (simp_all add: server_ok_def Let_def)
  have same: "sv\<lparr>sessions := X\<rparr> = sv\<lparr>engine := engine sv, sessions := X\<rparr>" for X by simp
  note upd = server_ok_update[OF assms(2)]
  from assms(1) show ?thesis
  proof (cases rule: server_step.cases)
    case (accept t c remoteAddr)
    have "?T < t" "lastTimestamp c = t" using now_later[OF accept(2)] by auto
    moreover have "session_ok t z \<and> issued t k"
      if "((sessions sv)(session_id remoteAddr t \<mapsto> new_session)) k = Some z" for k z
    proof (cases "k = session_id remoteAddr t")
      case True
      then show ?thesis using that session_ok_new by (auto simp: issued_def)
    next
      case False
      then have "session_ok ?T z \<and> issued ?T k" using that by (intro sess) simp
      then show ?thesis using calculation(1) by (auto intro: session_ok_later issued_later)
    qed
    ultimately show ?thesis
      unfolding accept(1) server_ok_def Let_def using wf own by (auto intro: wf_book_later)
  next
    case (receive sid s msg eng out)
    from on_message_ok[OF wf receive(4,5)] sess[OF receive(2)] show ?thesis
      unfolding receive(1) by (intro upd[OF receive(2)]) (auto intro: session_ok_receive[OF _ receive(3)])
  next
    case (stamp sid s m t c)
    have "?T < t" "lastTimestamp c = t" using now_later[OF stamp(4)] by auto
    then show ?thesis
      unfolding stamp(1) using sess[OF stamp(2)] wf
      by (intro upd[OF stamp(2)]) (auto intro: session_ok_stamp[OF _ stamp(3)] wf_book_later)
  next
    case (send sid s m ms)
    show ?thesis unfolding send(1) same using sess[OF send(2)] wf
      by (intro upd[OF send(2)]) (auto intro: session_ok_send send(3,4))
  next
    case (writer sid s s')
    show ?thesis unfolding writer(1) same using sess[OF writer(2)] wf
      by (intro upd[OF writer(2)]) (auto intro: session_ok_writer[OF writer(3)])
  next
    case (read_error sid s visit)
    have c: "wf_book ?T (cancelSession visit sid (book (engine sv)))"
      "without (\<lambda>x. SessionID x = sid) (book (engine sv)) (cancelSession visit sid (book (engine sv)))"
      using cancelSession_wf[OF wf read_error(4)] by auto
    have "owners (cancelSession visit sid (book (engine sv))) \<subseteq> owners (book (engine sv)) - {sid}"
      using c(2) by (auto simp: owners_def without_def)
    with own c(1) sess show ?thesis
      unfolding read_error(1) server_ok_def Let_def by (auto split: if_splits)
  next
    case (snapshot t c)
    have "?T < t" "lastTimestamp c = t" using now_later[OF snapshot(2)] by auto
    moreover have "session_ok t z \<and> issued t k" if "sessions sv k = Some z" for k z
      using sess[OF that] calculation(1) by (auto intro: session_ok_later issued_later)
    ultimately show ?thesis
      unfolding snapshot(1) server_ok_def Let_def using wf own by (auto intro: wf_book_later)
  qed
qed

lemma server_ok_init: "server_ok server_init"
  using wf_NewOrderbook[of 0]
  by (simp add: server_ok_def server_init_def owners_resting resting_def NewOrderbook_def heap_Init_def
      Let_def bidHeap_def askHeap_def)

lemma server_reachable_ok: "server_reachable u sv \<Longrightarrow> server_ok sv"
  by (induction rule: server_reachable.induct) (auto intro: server_ok_init server_ok_step)

section \<open>A session that is never cleaned up\<close>

text \<open>
  The reader of a session blocks when the channel is full, and only the writer empties it. When
  the writer has stopped, the reader never gets to \<open>cancelSession\<close>.
\<close>

definition blocked :: "server \<Rightarrow> string \<Rightarrow> bool" where
  "blocked sv sid \<longleftrightarrow> (case sessions sv sid of None \<Rightarrow> False
     | Some s \<Rightarrow> pending (doing s) \<noteq> [] \<and> length (chan s) = send_capacity \<and> \<not> writing s)"

lemma fresh_session_id:
  assumes "server_ok sv" "now u (clk (engine sv)) = (t, c)"
  shows "sessions sv (session_id r t) = None"
proof (rule ccontr)
  assume "sessions sv (session_id r t) \<noteq> None"
  then obtain s where "sessions sv (session_id r t) = Some s" by auto
  with assms(1) have "issued (lastTimestamp (clk (engine sv))) (session_id r t)"
    by (simp add: server_ok_def Let_def)
  then obtain r' t' where t': "session_id r t = session_id r' t'" "t' \<le> lastTimestamp (clk (engine sv))"
    by (auto simp: issued_def)
  with session_id_inj[OF t'(1)] now_later[OF assms(2)] show False by simp
qed

lemma blocked_step:
  assumes "server_step u sv sv'" "server_ok sv" "blocked sv sid"
  shows "sessions sv' sid = sessions sv sid"
proof -
  obtain s where s: "sessions sv sid = Some s" "pending (doing s) \<noteq> []" "length (chan s) = send_capacity"
    "\<not> writing s"
    using assms(3) by (auto simp: blocked_def split: option.splits)
  show ?thesis using assms(1)
  proof (cases rule: server_step.cases)
    case (accept t c r)
    with fresh_session_id[OF assms(2) accept(2), of r] s show ?thesis by auto
  qed (use s in \<open>auto simp: pending_def elim: writeLoop.cases\<close>)
qed

inductive server_later :: "(nat \<Rightarrow> int64) \<Rightarrow> server \<Rightarrow> server \<Rightarrow> bool" for u where
  here: "server_later u sv sv"
| more: "server_later u sv sv1 \<Longrightarrow> server_step u sv1 sv2 \<Longrightarrow> server_later u sv sv2"

lemma blocked_forever:
  assumes "server_later u sv sv'" "server_ok sv" "blocked sv sid"
  shows "sessions sv' sid = sessions sv sid"
proof -
  have "server_ok sv' \<and> sessions sv' sid = sessions sv sid"
    using assms
  proof (induction rule: server_later.induct)
    case (more sv sv1 sv2)
    then have "blocked sv1 sid" by (simp add: blocked_def)
    with more show ?case using blocked_step[of u sv1 sv2 sid] server_ok_step[of u sv1 sv2] by simp
  qed simp
  then show ?thesis by simp
qed

text \<open>A session that talks and does not read can fill its channel and block.\<close>

definition chatter :: IncomingMessage where
  "chatter = \<lparr>in_Type = ''x'', in_OrderID = [], in_Side = [], in_OrderType = [], in_Price = 0,
              in_Quantity = 0\<rparr>"

definition idle_with :: "nat \<Rightarrow> string \<Rightarrow> Orderbook \<Rightarrow> server \<Rightarrow> bool" where
  "idle_with n sid ob sv \<longleftrightarrow> book (engine sv) = ob \<and> (\<exists>s. sessions sv sid = Some s \<and>
     doing s = Ready [] \<and> writing s \<and> length (chan s) = n)"

lemma one_reply:
  assumes "server_reachable u sv" "idle_with n sid ob sv"
  shows "\<exists>sv' s m. server_reachable u sv' \<and> book (engine sv') = ob \<and> sessions sv' sid = Some s \<and>
    doing s = Ready [m] \<and> writing s \<and> length (chan s) = n"
proof -
  obtain s where s: "sessions sv sid = Some s" "doing s = Ready []" "writing s" "length (chan s) = n"
    "book (engine sv) = ob" using assms(2) by (auto simp: idle_with_def)
  let ?out = "Stamp (RejectMessage [] ''unknown_type'')"
  let ?sv1 = "sv\<lparr>engine := engine sv, sessions := (sessions sv)(sid \<mapsto> s\<lparr>doing := ?out\<rparr>)\<rparr>"
  obtain t c where now: "now u (clk (engine ?sv1)) = (t, c)" by (cases "now u (clk (engine ?sv1))")
  have "server_step u sv ?sv1"
    by (rule receive[OF s(1,2), of chatter]) (simp_all add: chatter_def on_message_def int64_range_def)
  with assms(1) have "server_reachable u ?sv1" by (rule server_reachable.step)
  moreover have s1: "sessions ?sv1 sid = Some (s\<lparr>doing := ?out\<rparr>)" "doing (s\<lparr>doing := ?out\<rparr>) = ?out" by simp_all
  ultimately have "server_reachable u (?sv1\<lparr>engine := (engine ?sv1)\<lparr>clk := c\<rparr>,
      sessions := (sessions ?sv1)(sid \<mapsto> (s\<lparr>doing := ?out\<rparr>)\<lparr>doing := Ready [RejectMessage [] ''unknown_type'' t]\<rparr>)\<rparr>)"
    using stamp[OF s1 now] by (blast intro: server_reachable.step)
  note st = this
  show ?thesis by (rule exI, rule exI, rule exI, rule conjI, rule st) (use s in auto)
qed

lemma fill_channel:
  "server_reachable u sv \<Longrightarrow> idle_with n sid ob sv \<Longrightarrow> n \<le> k \<Longrightarrow> k \<le> send_capacity \<Longrightarrow>
    \<exists>sv'. server_reachable u sv' \<and> idle_with k sid ob sv'"
proof (induction k)
  case 0
  then show ?case by auto
next
  case (Suc k)
  show ?case
  proof (cases "n = Suc k")
    case True
    with Suc.prems show ?thesis by auto
  next
    case False
    with Suc obtain sv1 where "server_reachable u sv1" "idle_with k sid ob sv1" by auto
    from one_reply[OF this] obtain sv2 s m where r: "server_reachable u sv2" "book (engine sv2) = ob"
      "sessions sv2 sid = Some s" "doing s = Ready [m]" "writing s" "length (chan s) = k" by blast
    have "length (chan s) < send_capacity" using r(6) Suc.prems(4) by simp
    note st = server_reachable.step[OF r(1) send[OF r(3,4) this]]
    show ?thesis by (rule exI, rule conjI, rule st) (use r in \<open>simp add: idle_with_def\<close>)
  qed
qed

lemma blocked_reachable:
  assumes "server_reachable u sv" "idle_with n sid ob sv" "n \<le> send_capacity"
  shows "\<exists>sv'. server_reachable u sv' \<and> book (engine sv') = ob \<and> blocked sv' sid"
proof -
  obtain sv1 where "server_reachable u sv1" "idle_with send_capacity sid ob sv1"
    using fill_channel[OF assms le_refl] by auto
  from one_reply[OF this] obtain sv2 s m where r: "server_reachable u sv2" "book (engine sv2) = ob"
    "sessions sv2 sid = Some s" "doing s = Ready [m]" "writing s" "length (chan s) = send_capacity" by blast
  note st = server_reachable.step[OF r(1) writer[OF r(3) ping_error[OF r(5)]]]
  show ?thesis
    by (rule exI, rule conjI, rule st) (use r in \<open>simp add: blocked_def pending_def\<close>)
qed

definition buy_one :: IncomingMessage where
  "buy_one = \<lparr>in_Type = ''order'', in_OrderID = ''a'', in_Side = ''buy'', in_OrderType = ''limit'',
              in_Price = 1, in_Quantity = 1\<rparr>"

lemma NewOrderbook_empty: "bid_list NewOrderbook = []" "ask_list NewOrderbook = []" "orders NewOrderbook k = None"
  by (simp_all add: NewOrderbook_def heap_Init_def Let_def bidHeap_def askHeap_def bid_list_def ask_list_def
      bid_side.heaped_Nil ask_side.heaped_Nil)

lemma buy_one_rests:
  assumes "book eng = NewOrderbook" "on_message u sid buy_one eng = (eng', out)"
  shows "sid \<in> owners (book eng') \<and> (\<exists>m. out = Ready [m])"
proof -
  let ?T = "lastTimestamp (clk eng)"
  have wf: "wf_book ?T (book eng)" unfolding assms(1) by (rule wf_NewOrderbook)
  have ok: "order_error (book eng) buy_one = None"
    unfolding order_error_None assms(1) by (simp add: buy_one_def orderIDRegex_def id_char_def NewOrderbook_empty)
  obtain ts c where now: "now u (clk eng) = (ts, c)" by (cases "now u (clk eng)")
  let ?o = "new_order sid buy_one ts"
  have lists: "opposite_list ?o (book eng) = []" "own_list ?o (book eng) = []"
    by (simp_all add: opposite_list_def own_list_def assms(1) NewOrderbook_empty)
  have "handleOrder u sid buy_one eng = (eng', out)"
    using assms(2) by (simp add: on_message_def buy_one_def)
  from handleOrder_accepts[OF wf ok _ now this, unfolded lists spec_match.simps, OF _ refl]
  have acc: "own_list ?o (book eng') = rested ?o []"
    "\<exists>fills. out = Ready (accept_reply (in_OrderID buy_one) ts fills ?o (lastTimestamp (clk eng'))) \<and> map fill_of fills = []"
    by (auto simp: buy_one_def)
  have "rested ?o [] = [view ?o]" by (simp add: rested_def) (simp add: buy_one_def)
  then have "sid \<in> owners (book eng')" unfolding owners_lists[of _ ?o] acc(1) by simp
  moreover have "\<exists>m. out = Ready [m]" using acc(2) by (auto simp: accept_reply_def buy_one_def)
  ultimately show ?thesis by blast
qed

lemma one_order_reachable: "\<exists>sv sid. server_reachable u sv \<and> idle_with 1 sid (book (engine sv)) sv \<and>
  sid \<in> owners (book (engine sv))"
proof -
  obtain t c where now: "now u (clk (engine server_init)) = (t, c)" by (cases "now u (clk (engine server_init))")
  define sid where "sid = session_id [] t"
  note s1 = server_reachable.step[OF server_reachable.start accept[OF now, of "[]"], folded sid_def]
  let ?sv1 = "server_init\<lparr>engine := (engine server_init)\<lparr>clk := c\<rparr>,
       sessions := (sessions server_init)(sid \<mapsto> new_session)\<rparr>"
  obtain eng out where run: "on_message u sid buy_one (engine ?sv1) = (eng, out)"
    by (cases "on_message u sid buy_one (engine ?sv1)")
  have "book (engine ?sv1) = NewOrderbook" by (simp add: server_init_def)
  from buy_one_rests[OF this run] obtain m where own: "sid \<in> owners (book eng)" "out = Ready [m]" by blast
  have "sessions ?sv1 sid = Some new_session" "doing new_session = Ready []" "int64_range (in_Quantity buy_one)"
    by (simp_all add: new_session_def buy_one_def int64_range_def)
  from server_reachable.step[OF s1 receive[OF this run]] own(2)
  have s2: "server_reachable u (?sv1\<lparr>engine := eng,
      sessions := (sessions ?sv1)(sid \<mapsto> new_session\<lparr>doing := Ready [m]\<rparr>)\<rparr>)" by simp
  let ?sv2 = "?sv1\<lparr>engine := eng, sessions := (sessions ?sv1)(sid \<mapsto> new_session\<lparr>doing := Ready [m]\<rparr>)\<rparr>"
  have "sessions ?sv2 sid = Some (new_session\<lparr>doing := Ready [m]\<rparr>)"
    "doing (new_session\<lparr>doing := Ready [m]\<rparr>) = Ready [m]"
    "length (chan (new_session\<lparr>doing := Ready [m]\<rparr>)) < send_capacity"
    by (simp_all add: new_session_def)
  note s3 = server_reachable.step[OF s2 send[OF this]]
  show ?thesis
    by (rule exI, rule exI[of _ sid], rule conjI, rule s3)
      (use own in \<open>auto simp: idle_with_def new_session_def\<close>)
qed

lemma ghost_orders:
  "\<exists>sv sid. server_reachable u sv \<and> sid \<in> owners (book (engine sv)) \<and> blocked sv sid \<and>
    (\<forall>sv'. server_later u sv sv' \<longrightarrow> sessions sv' sid = sessions sv sid)"
proof -
  obtain sv sid where 1: "server_reachable u sv" "idle_with 1 sid (book (engine sv)) sv"
    "sid \<in> owners (book (engine sv))" using one_order_reachable by blast
  obtain sv' where 2: "server_reachable u sv'" "book (engine sv') = book (engine sv)" "blocked sv' sid"
    using blocked_reachable[OF 1(1,2)] by auto
  then show ?thesis using 1(3) blocked_forever[OF _ server_reachable_ok[OF 2(1)] 2(3)]
    by (intro exI[of _ sv'] exI[of _ sid]) auto
qed

end
