(* ===== verification/StubTypes.thy ===== *)
theory StubTypes
  imports StubServer
begin

text \<open>
  The wire format of the matching engine: what a client may rely on of every message it is sent
  (\<open>AckMessage\<close>, \<open>FillMessage\<close>, \<open>CancelAckMessage\<close> and \<open>RejectMessage\<close> of \<open>services/stub/main.go\<close>), as a type that
  every step of every session keeps.
\<close>

section \<open>The type of a message\<close>

text \<open>An id the engine has accepted.\<close>

definition valid_id :: "string \<Rightarrow> bool" where
  "valid_id k \<longleftrightarrow> orderIDRegex k \<and> length k \<le> 64"

definition reject_reasons :: "string list" where
  "reject_reasons = [''invalid_order'', ''invalid_quantity'', ''invalid_price'', ''duplicate_order_id'',
     ''no_liquidity'', ''unknown_order'', ''unauthorized'', ''unknown_type'']"

fun well_typed :: "OutMessage \<Rightarrow> bool" where
  "well_typed (AckMessage k t) = valid_id k"
| "well_typed (FillMessage k q p r t) = (valid_id k \<and> 0 < q \<and> 0 \<le> r \<and> q + r < 2 ^ 63 \<and> 0 < p)"
| "well_typed (CancelAckMessage k t) = valid_id k"
| "well_typed (RejectMessage k reason t) = (reason \<in> set reject_reasons)"

definition typed_book :: "Orderbook \<Rightarrow> bool" where
  "typed_book ob \<longleftrightarrow> (\<forall>x \<in> set (bid_list ob) \<union> set (ask_list ob). valid_id (OrderID x))"

definition typed_out :: "outcome \<Rightarrow> bool" where
  "typed_out out = (case out of Ready ms \<Rightarrow> list_all well_typed ms | Stamp m \<Rightarrow> \<forall>t. well_typed (m t))"

definition typed_session :: "session \<Rightarrow> bool" where
  "typed_session s \<longleftrightarrow> list_all well_typed (wire s @ chan s) \<and> typed_out (doing s)"

definition typed_server :: "server \<Rightarrow> bool" where
  "typed_server sv \<longleftrightarrow> typed_book (book (engine sv)) \<and> (\<forall>sid s. sessions sv sid = Some s \<longrightarrow> typed_session s)"

section \<open>The handlers keep it\<close>

lemma typed_book_lists: "typed_book ob \<longleftrightarrow> (\<forall>x \<in> set (own_list order ob) \<union> set (opposite_list order ob). valid_id (OrderID x))"
  by (auto simp: typed_book_def own_list_def opposite_list_def)

lemma typed_book_without: "without P ob ob' \<Longrightarrow> typed_book ob \<Longrightarrow> typed_book ob'"
  by (auto simp: typed_book_def without_def)

text \<open>A fill and what it leaves are within the quantity of the order.\<close>

lemma spec_match_within:
  "spec_match order L = (order', L', fs) \<Longrightarrow> 0 \<le> Remaining order \<Longrightarrow> \<forall>x \<in> set L. 0 < Remaining x \<Longrightarrow>
    \<forall>(q, p, r) \<in> set fs. q + r \<le> Remaining order"
proof (induction order L arbitrary: order' L' fs rule: spec_match.induct)
  case (2 order best others)
  then show ?case by (fastforce split: if_splits prod.splits)
qed simp

lemma order_error_reason: "order_error ob msg = Some reason \<Longrightarrow> reason \<in> set reject_reasons"
  by (auto simp: order_error_def reject_reasons_def split: if_splits)

lemma no_liquidity_reason: "''no_liquidity'' \<in> set reject_reasons" "''unknown_order'' \<in> set reject_reasons"
  "''unauthorized'' \<in> set reject_reasons" "''unknown_type'' \<in> set reject_reasons"
  by (simp_all add: reject_reasons_def)

lemma handleOrder_typed:
  assumes wf: "wf_book (lastTimestamp (clk eng)) (book eng)" and qty: "int64_range (in_Quantity msg)"
    and typed: "typed_book (book eng)" and run: "handleOrder u sid msg eng = (eng', out)"
  shows "typed_book (book eng') \<and> typed_out out"
proof (cases "order_error (book eng) msg")
  case (Some reason)
  from run[unfolded handleOrder_rejects[OF Some]] typed order_error_reason[OF Some] show ?thesis
    by (auto simp: typed_out_def)
next
  case None
  obtain ts c where now: "now u (clk eng) = (ts, c)" by (cases "now u (clk eng)")
  let ?o = "new_order sid msg ts"
  let ?opp = "opposite_list ?o (book eng)"
  obtain order' opp' fs where spec: "spec_match ?o ?opp = (order', opp', fs)" by (cases "spec_match ?o ?opp")
  have q: "in_Quantity msg < 2 ^ 63" "0 < in_Quantity msg" "valid_id (in_OrderID msg)"
    using qty None unfolding order_error_None int64_range_def valid_id_def by auto
  have old: "order_ok (lastTimestamp (clk eng)) x" if "x \<in> set ?opp" for x using resting_old[OF wf] that by blast
  have acc: "opposite_list ?o (book eng') = opp'"
    "own_list ?o (book eng') = rested order' (own_list ?o (book eng))"
    "\<exists>fills. out = Ready (accept_reply (in_OrderID msg) ts fills order' (lastTimestamp (clk eng'))) \<and>
       map fill_of fills = fs \<and> list_all (is_fill_for (in_OrderID msg)) fills"
    using handleOrder_accepts[OF wf None q(1) now run spec] by blast+
  have pos: "\<forall>x \<in> set ?opp. 0 < Remaining x" using old by (auto simp: order_ok_def)
  have keep: "order' = ?o\<lparr>Remaining := Remaining order'\<rparr>" "\<forall>f \<in> set fs. 0 < fst f"
    "\<forall>x \<in> set opp'. \<exists>y \<in> set ?opp. x = y\<lparr>Remaining := Remaining x\<rparr>"
    using spec_match_keeps[OF spec _ pos] q(2) by auto
  have "\<exists>y \<in> set ?opp. OrderID x = OrderID y" if "x \<in> set opp'" for x
    using keep(3) that by (metis Order.select_convs(1) Order.surjective Order.update_convs(6))
  moreover have "OrderID order' = in_OrderID msg" by (subst keep(1)) simp
  moreover have "valid_id (OrderID x)" if "x \<in> set ?opp" for x
    using typed that unfolding typed_book_lists[of _ ?o] by blast
  ultimately have "valid_id (OrderID x)" if "x \<in> set opp'" for x using that by metis
  with \<open>OrderID order' = in_OrderID msg\<close> have book: "typed_book (book eng')"
    using typed q(3) unfolding typed_book_lists[of _ ?o] acc(1,2) rested_def by (auto simp: set_insort_key)
  obtain fills where out: "out = Ready (accept_reply (in_OrderID msg) ts fills order' (lastTimestamp (clk eng')))"
    "map fill_of fills = fs" "list_all (is_fill_for (in_OrderID msg)) fills" using acc(3) by blast
  have "well_typed m" if m: "m \<in> set fills" for m
  proof -
    obtain a p r t where f: "m = FillMessage (in_OrderID msg) a p r t"
      using out(3) m by (auto simp: list_all_iff is_fill_for_def)
    then have "(a, p, r) \<in> set fs" using out(2) m by (force simp: fill_of_def)
    then have "0 < a" "0 \<le> r" "\<exists>x \<in> set ?opp. p = Price x" "a + r \<le> in_Quantity msg"
      using keep(2) spec_match_fills[OF spec] spec_match_within[OF spec _ pos] q(2) by fastforce+
    then show ?thesis using q old by (auto simp: f order_ok_def)
  qed
  then show ?thesis
    using book q(3) no_liquidity_reason by (auto simp: out(1) typed_out_def accept_reply_def list_all_iff)
qed

lemma handleCancel_typed:
  assumes wf: "wf_book (lastTimestamp (clk eng)) (book eng)" and typed: "typed_book (book eng)"
    and run: "handleCancel sid msg eng = (eng', out)"
  shows "typed_book (book eng') \<and> typed_out out"
proof (cases "orders (book eng) (in_OrderID msg)")
  case None
  with run typed no_liquidity_reason show ?thesis by (auto simp: handleCancel_def typed_out_def)
next
  case (Some a)
  then have a: "a \<in> resting (book eng)" "OrderID (objs (book eng) a) = in_OrderID msg"
    using wf_orders[OF wf, of "in_OrderID msg" a] by simp_all
  then have "view (objs (book eng) a) \<in> set (bid_list (book eng)) \<union> set (ask_list (book eng))"
    using list_sets[of "book eng"] by (auto simp: resting_def)
  then have "valid_id (in_OrderID msg)" using typed a(2) by (force simp: typed_book_def)
  moreover have "typed_book (remove (in_OrderID msg) (book eng))"
    using typed_book_without remove_wf[OF wf] typed by blast
  ultimately show ?thesis using run Some typed no_liquidity_reason
    by (auto simp: handleCancel_def typed_out_def split: if_splits)
qed

lemma on_message_typed:
  assumes "wf_book (lastTimestamp (clk eng)) (book eng)" "int64_range (in_Quantity msg)" "typed_book (book eng)"
    "on_message u sid msg eng = (eng', out)"
  shows "typed_book (book eng') \<and> typed_out out"
proof -
  consider "in_Type msg = ''order''" | "in_Type msg \<noteq> ''order''" "in_Type msg = ''cancel''"
    | "in_Type msg \<noteq> ''order''" "in_Type msg \<noteq> ''cancel''" by blast
  then show ?thesis
  proof cases
    case 1 with assms handleOrder_typed[OF assms(1-3)] show ?thesis by (simp add: on_message_def)
  next
    case 2 with assms handleCancel_typed[OF assms(1,3)] show ?thesis by (simp add: on_message_def)
  next
    case 3 with assms no_liquidity_reason show ?thesis by (auto simp: on_message_def typed_out_def)
  qed
qed

section \<open>Every step keeps it\<close>

lemma typed_session_writer: "writeLoop s s' \<Longrightarrow> typed_session s \<Longrightarrow> typed_session s'"
  by (auto elim!: writeLoop.cases simp: typed_session_def)

lemma typed_step:
  assumes "server_step u sv sv'" "server_ok sv" "typed_server sv"
  shows "typed_server sv'"
proof -
  have wf: "wf_book (lastTimestamp (clk (engine sv))) (book (engine sv))"
    using assms(2) by (simp add: server_ok_def Let_def)
  have typed: "typed_book (book (engine sv))" "\<And>k s. sessions sv k = Some s \<Longrightarrow> typed_session s"
    using assms(3) by (auto simp: typed_server_def)
  from assms(1) show ?thesis
  proof (cases rule: server_step.cases)
    case (accept t c r)
    have "typed_session new_session" by (simp add: typed_session_def new_session_def typed_out_def)
    with typed show ?thesis unfolding accept(1) by (auto simp: typed_server_def)
  next
    case (receive sid s msg eng out)
    from on_message_typed[OF wf receive(4) typed(1) receive(5)] typed(2)[OF receive(2)] typed show ?thesis
      unfolding receive(1) by (auto simp: typed_server_def typed_session_def)
  next
    case (stamp sid s m t c)
    from typed(2)[OF stamp(2)] stamp(3) typed show ?thesis
      unfolding stamp(1) by (auto simp: typed_server_def typed_session_def typed_out_def)
  next
    case (send sid s m ms)
    from typed(2)[OF send(2)] send(3) typed show ?thesis
      unfolding send(1) by (auto simp: typed_server_def typed_session_def typed_out_def)
  next
    case (writer sid s s')
    from typed_session_writer[OF writer(3) typed(2)[OF writer(2)]] typed show ?thesis
      unfolding writer(1) by (auto simp: typed_server_def)
  next
    case (read_error sid s visit)
    have "typed_book (cancelSession visit sid (book (engine sv)))"
      using typed_book_without cancelSession_wf[OF wf read_error(4)] typed(1) by blast
    with typed show ?thesis unfolding read_error(1) by (auto simp: typed_server_def)
  next
    case (snapshot t c)
    with typed show ?thesis unfolding snapshot(1) by (auto simp: typed_server_def)
  qed
qed

lemma typed_init: "typed_server server_init"
  by (simp add: typed_server_def server_init_def typed_book_def list_sets NewOrderbook_def heap_Init_def Let_def
      bidHeap_def askHeap_def)

lemma reachable_typed: "server_reachable u sv \<Longrightarrow> typed_server sv"
  by (induction rule: server_reachable.induct) (auto intro: typed_init typed_step server_reachable_ok)

section \<open>Property\<close>

text \<open>C33: Every message a client is sent is well typed: in every reachable state, each message that was written to
  a session, waits in its channel or is about to be sent has an accepted id when it is an ack, a fill or a
  cancel ack, a reject has one of the eight reasons, and a fill has a positive quantity and price, a
  remainder that is not negative, and quantity and remainder fit an \<open>int64\<close> together.\<close>

theorem messages_well_typed:
  assumes "server_reachable u sv" "sessions sv sid = Some s" "m \<in> set (wire s @ chan s @ pending (doing s))"
  shows "well_typed m"
proof -
  have "typed_session s" using reachable_typed[OF assms(1)] assms(2) by (auto simp: typed_server_def)
  with assms(3) show ?thesis
    by (auto simp: typed_session_def typed_out_def pending_def list_all_iff split: outcome.splits)
qed

theorem messages_well_typed_witness:
  "\<exists>sv sid s. server_reachable int sv \<and> sessions sv sid = Some s \<and> chan s \<noteq> [] \<and> well_typed (hd (chan s))"
proof -
  obtain sv sid where sv: "server_reachable int sv" "idle_with 1 sid (book (engine sv)) sv"
    using one_order_reachable by blast
  then obtain s where s: "sessions sv sid = Some s" "chan s \<noteq> []" by (fastforce simp: idle_with_def)
  then have "hd (chan s) \<in> set (wire s @ chan s @ pending (doing s))" by simp
  from messages_well_typed[OF sv(1) s(1) this] sv(1) s show ?thesis by blast
qed

end
