(* ===== verification/Utf8.thy ===== *)
theory Utf8
  imports Prelude "HOL-Library.Sublist"
begin

text \<open>
  UTF-8 as the package \<open>unicode/utf8\<close> checks it, on strings of bytes, and the three ways in which the
  services cut a text: \<open>truncate\<close> of the publishers of the build service and the sandbox
  orchestrator, the trimming loop of \<open>readPodLogs\<close>, and \<open>limitWriter\<close> under \<open>io.Copy\<close>.
\<close>

section \<open>Validity\<close>

definition byte :: "char \<Rightarrow> nat" where
  "byte c = of_char c"

text \<open>The ranges of the bytes that must follow a first byte; \<open>None\<close> for a byte that starts no rune.\<close>

definition lead :: "nat \<Rightarrow> (nat \<times> nat) list option" where
  "lead b =
     (if b < 128 then Some []
      else if 194 \<le> b \<and> b \<le> 223 then Some [(128, 191)]
      else if b = 224 then Some [(160, 191), (128, 191)]
      else if b = 237 then Some [(128, 159), (128, 191)]
      else if 225 \<le> b \<and> b \<le> 239 then Some [(128, 191), (128, 191)]
      else if b = 240 then Some [(144, 191), (128, 191), (128, 191)]
      else if 241 \<le> b \<and> b \<le> 243 then Some [(128, 191), (128, 191), (128, 191)]
      else if b = 244 then Some [(128, 143), (128, 191), (128, 191)]
      else None)"

fun followed :: "(nat \<times> nat) list \<Rightarrow> string \<Rightarrow> bool" where
  "followed [] s = True"
| "followed (r # rs) [] = False"
| "followed ((lo, hi) # rs) (c # s) = (lo \<le> byte c \<and> byte c \<le> hi \<and> followed rs s)"

text \<open>The size of the rune at the front of a string.\<close>

definition rune_at :: "string \<Rightarrow> nat option" where
  "rune_at s = (case s of [] \<Rightarrow> None | a # t \<Rightarrow>
     (case lead (byte a) of None \<Rightarrow> None | Some rs \<Rightarrow> if followed rs t then Some (Suc (length rs)) else None))"

lemma rune_at_size: "rune_at s = Some k \<Longrightarrow> 0 < k \<and> k \<le> 4 \<and> k \<le> length s"
proof -
  assume r: "rune_at s = Some k"
  then obtain a t rs where s: "s = a # t" "lead (byte a) = Some rs" "followed rs t" "k = Suc (length rs)"
    by (auto simp: rune_at_def split: list.splits option.splits if_splits)
  have "length rs \<le> 3" using s(2) by (auto simp: lead_def split: if_splits)
  moreover have "length rs \<le> length t" using s(3) by (induction rs t rule: followed.induct) auto
  ultimately show ?thesis using s by simp
qed

function ValidString :: "string \<Rightarrow> bool" where
  "ValidString s = (if s = [] then True
     else case rune_at s of None \<Rightarrow> False | Some k \<Rightarrow> ValidString (drop k s))"
  by pat_completeness auto
termination
  by (relation "measure length") (auto dest!: rune_at_size)

declare ValidString.simps [simp del]

text \<open>\<open>FullRuneInString\<close>: the string begins with a rune or with something that can become none.\<close>

fun partial_rune :: "(nat \<times> nat) list \<Rightarrow> string \<Rightarrow> bool" where
  "partial_rune [] s = False"
| "partial_rune (r # rs) [] = True"
| "partial_rune ((lo, hi) # rs) (c # s) = (lo \<le> byte c \<and> byte c \<le> hi \<and> partial_rune rs s)"

definition FullRune :: "string \<Rightarrow> bool" where
  "FullRune s = (case s of [] \<Rightarrow> False | a # t \<Rightarrow>
     (case lead (byte a) of None \<Rightarrow> True | Some rs \<Rightarrow> \<not> partial_rune rs t))"

section \<open>Cutting\<close>

function cut_valid :: "string \<Rightarrow> string" where
  "cut_valid s = (if s \<noteq> [] \<and> \<not> ValidString s then cut_valid (butlast s) else s)"
  by pat_completeness auto
termination
  by (relation "measure length") auto

declare cut_valid.simps [simp del]

definition truncate_utf8 :: "string \<Rightarrow> nat \<Rightarrow> string" where
  "truncate_utf8 s maxlen = (if length s \<le> maxlen then s else cut_valid (take maxlen s))"

text \<open>The loop at the end of \<open>readPodLogs\<close> looks at the last byte alone first.\<close>

function trim_reason :: "string \<Rightarrow> string" where
  "trim_reason s = (if s \<noteq> [] \<and> \<not> FullRune [last s] \<and> \<not> ValidString s then trim_reason (butlast s) else s)"
  by pat_completeness auto
termination
  by (relation "measure length") auto

declare trim_reason.simps [simp del]

section \<open>What is left is valid, and it is the longest such prefix\<close>

lemma followed_take: "length rs \<le> n \<Longrightarrow> followed rs (take n s) = followed rs s"
proof (induction rs s arbitrary: n rule: followed.induct)
  case (3 lo hi rs c s)
  then show ?case by (cases n) auto
qed auto

lemma rune_at_take: "rune_at s = Some k \<Longrightarrow> k \<le> n \<Longrightarrow> rune_at (take n s) = Some k"
  by (cases n) (auto simp: rune_at_def followed_take split: list.splits option.splits if_splits)

lemma ValidString_Nil [simp]: "ValidString []"
  by (simp add: ValidString.simps)

lemma ValidString_prefix:
  "ValidString s \<Longrightarrow> m \<le> length s \<Longrightarrow> \<exists>k \<le> m. m \<le> k + 3 \<and> ValidString (take k s)"
proof (induction s arbitrary: m rule: ValidString.induct)
  case (1 s)
  show ?case
  proof (cases "s = []")
    case True
    with 1 show ?thesis by (intro exI[of _ 0]) simp
  next
    case False
    then obtain r where r: "rune_at s = Some r" "ValidString (drop r s)"
      using "1.prems"(1) by (subst (asm) ValidString.simps) (auto split: option.splits)
    note size = rune_at_size[OF r(1)]
    show ?thesis
    proof (cases "m < r")
      case True
      with size show ?thesis by (intro exI[of _ 0]) simp
    next
      case False
      have "m - r \<le> length (drop r s)" using "1.prems"(2) by simp
      from "1.IH"[OF \<open>s \<noteq> []\<close> r(1) r(2) this] obtain k where
        k: "k \<le> m - r" "m - r \<le> k + 3" "ValidString (take k (drop r s))" by blast
      have "ValidString (take (r + k) s)"
        using rune_at_take[OF r(1), of "r + k"] k(3) size \<open>s \<noteq> []\<close>
        by (subst ValidString.simps) (simp add: drop_take)
      with k False show ?thesis by (intro exI[of _ "r + k"]) auto
    qed
  qed
qed

lemma cut_valid_prefix: "\<exists>k \<le> length s. cut_valid s = take k s"
proof (induction s rule: cut_valid.induct)
  case (1 s)
  show ?case
  proof (cases "s \<noteq> [] \<and> \<not> ValidString s")
    case True
    with "1.IH" obtain k where k: "k \<le> length (butlast s)" "cut_valid (butlast s) = take k (butlast s)" by blast
    have "take k (butlast s) = take k s" using k(1) by (simp add: butlast_conv_take)
    with True k have "cut_valid s = take k s" by (subst cut_valid.simps) simp
    with k(1) show ?thesis by (intro exI[of _ k]) simp
  next
    case False
    then show ?thesis by (subst cut_valid.simps) (intro exI[of _ "length s"], auto)
  qed
qed

lemma cut_valid_valid: "ValidString (cut_valid s)"
proof (induction s rule: cut_valid.induct)
  case (1 s)
  then show ?case by (cases "s \<noteq> [] \<and> \<not> ValidString s") (auto simp: cut_valid.simps[of s])
qed

lemma cut_valid_longest: "k \<le> length s \<Longrightarrow> ValidString (take k s) \<Longrightarrow> k \<le> length (cut_valid s)"
proof (induction s rule: cut_valid.induct)
  case (1 s)
  show ?case
  proof (cases "s \<noteq> [] \<and> \<not> ValidString s")
    case True
    then have "k \<noteq> length s" using "1.prems"(2) by auto
    then have "k \<le> length (butlast s)" using "1.prems"(1) by simp
    moreover from this have "take k (butlast s) = take k s" by (simp add: butlast_conv_take)
    ultimately show ?thesis using "1.IH" True "1.prems"(2) by (subst cut_valid.simps) simp
  next
    case False
    then have "cut_valid s = s" by (subst cut_valid.simps) (simp only: if_False)
    with "1.prems"(1) show ?thesis by simp
  qed
qed

lemma truncate_facts:
  "length (truncate_utf8 s n) \<le> n" "prefix (truncate_utf8 s n) s" "length s > n \<Longrightarrow> ValidString (truncate_utf8 s n)"
  "ValidString s \<Longrightarrow> ValidString (truncate_utf8 s n)"
  "ValidString s \<Longrightarrow> min n (length s) \<le> length (truncate_utf8 s n) + 3"
proof -
  obtain k where k: "k \<le> length (take n s)" "cut_valid (take n s) = take k (take n s)" using cut_valid_prefix by blast
  then show "length (truncate_utf8 s n) \<le> n" "prefix (truncate_utf8 s n) s"
    by (auto simp: truncate_utf8_def take_is_prefix)
  show "length s > n \<Longrightarrow> ValidString (truncate_utf8 s n)" "ValidString s \<Longrightarrow> ValidString (truncate_utf8 s n)"
    by (auto simp: truncate_utf8_def cut_valid_valid)
  show "min n (length s) \<le> length (truncate_utf8 s n) + 3" if v: "ValidString s"
  proof (cases "length s \<le> n")
    case False
    then obtain j where j: "j \<le> n" "n \<le> j + 3" "ValidString (take j s)" using ValidString_prefix[OF v, of n] by auto
    then have "take j (take n s) = take j s" by (simp add: min_def)
    with cut_valid_longest[of j "take n s"] j False have "j \<le> length (cut_valid (take n s))" by simp
    with j False show ?thesis by (simp add: truncate_utf8_def)
  qed (simp add: truncate_utf8_def)
qed

section \<open>The limited writer under a copy\<close>

text \<open>
  \<open>limitWriter.Write\<close>: the state is \<open>n\<close> and what the buffer behind it holds; the result is the number it
  returns. The buffer never fails. \<open>p\<close> is reassigned before the length is taken.
\<close>

definition limit_write :: "nat \<Rightarrow> string \<Rightarrow> nat \<times> string \<Rightarrow> nat \<times> nat \<times> string" where
  "limit_write limit p w =
     (let (n, buf) = w in
      if n \<ge> limit then (length p, w)
      else let p = (if n + length p > limit then take (limit - n) p else p)
           in (length p, n + length p, buf @ p))"

text \<open>\<open>io.Copy\<close> over the chunks it reads: a short write ends it with an error.\<close>

fun io_copy :: "nat \<Rightarrow> string list \<Rightarrow> nat \<times> string \<Rightarrow> (nat \<times> string) \<times> bool" where
  "io_copy limit [] w = (w, True)"
| "io_copy limit (c # cs) w =
     (let (k, w) = limit_write limit c w in if k \<noteq> length c then (w, False) else io_copy limit cs w)"

text \<open>The buffer is right, but the copy fails when the limit falls inside a chunk.\<close>

lemma io_copy_result:
  assumes "n = length buf" "n \<le> limit" "\<forall>c \<in> set cs. c \<noteq> []"
  shows "\<exists>m. io_copy limit cs (n, buf) = ((m, buf @ take (limit - n) (concat cs)),
     length (concat cs) \<le> limit - n \<or> (\<exists>k \<le> length cs. length (concat (take k cs)) = limit - n))"
  using assms
proof (induction cs arbitrary: n buf)
  case (Cons c cs)
  have len0: "length (concat (take k (c # cs))) = (if k = 0 then 0 else length c + length (concat (take (k - 1) cs)))" for k
    by (cases k) simp_all
  consider "n = limit" | "n < limit" "n + length c > limit" | "n < limit" "n + length c \<le> limit"
    using Cons.prems(2) by linarith
  then show ?case
  proof cases
    case 1
    have "io_copy limit cs (n, buf) = ((n, buf), True)" for cs
      by (induction cs) (simp_all add: limit_write_def 1)
    from this[of "c # cs"] show ?thesis using 1
      by (intro exI[of _ n]) (simp del: io_copy.simps, intro disjI2 exI[of _ 0], simp)
  next
    case 2
    have "\<nexists>k. k \<le> length (c # cs) \<and> length (concat (take k (c # cs))) = limit - n"
      using 2 len0 by (auto split: if_splits)
    then show ?thesis using 2 by (intro exI[of _ limit]) (auto simp: limit_write_def)
  next
    case 3
    have c: "0 < length c" using Cons.prems(3) by simp
    have step: "io_copy limit (c # cs) (n, buf) = io_copy limit cs (n + length c, buf @ c)"
      using 3 by (simp add: limit_write_def)
    have "n + length c = length (buf @ c)" "n + length c \<le> limit" "\<forall>c \<in> set cs. c \<noteq> []"
      using 3 Cons.prems by auto
    from Cons.IH[OF this] obtain m where m: "io_copy limit cs (n + length c, buf @ c) =
       ((m, (buf @ c) @ take (limit - (n + length c)) (concat cs)),
        length (concat cs) \<le> limit - (n + length c) \<or>
        (\<exists>k \<le> length cs. length (concat (take k cs)) = limit - (n + length c)))" by blast
    have iff: "(\<exists>k \<le> length (c # cs). length (concat (take k (c # cs))) = limit - n) \<longleftrightarrow>
        (\<exists>k \<le> length cs. length (concat (take k cs)) = limit - (n + length c))"
    proof
      assume "\<exists>k \<le> length (c # cs). length (concat (take k (c # cs))) = limit - n"
      then obtain k where k: "k \<le> Suc (length cs)" "length (concat (take k (c # cs))) = limit - n" by auto
      with len0[of k] 3 have "k \<noteq> 0" "length (concat (take (k - 1) cs)) = limit - (n + length c)" by (auto split: if_splits)
      with k(1) show "\<exists>k \<le> length cs. length (concat (take k cs)) = limit - (n + length c)" by (intro exI[of _ "k - 1"]) auto
    next
      assume "\<exists>k \<le> length cs. length (concat (take k cs)) = limit - (n + length c)"
      then obtain k where "k \<le> length cs" "length (concat (take k cs)) = limit - (n + length c)" by blast
      with 3 show "\<exists>k \<le> length (c # cs). length (concat (take k (c # cs))) = limit - n"
        by (intro exI[of _ "Suc k"]) auto
    qed
    have "buf @ take (limit - n) (concat (c # cs)) = (buf @ c) @ take (limit - (n + length c)) (concat cs)"
      using 3 by simp
    moreover have "length (concat (c # cs)) \<le> limit - n \<longleftrightarrow> length (concat cs) \<le> limit - (n + length c)"
      using 3 by auto
    ultimately show ?thesis unfolding step iff using m by (intro exI[of _ m]) simp
  qed
qed simp

text \<open>\<open>truncate\<close> gives a prefix of at most the given length. When it cuts, the result is valid
  UTF-8, and of a valid text it loses at most the three bytes of a rune that the limit splits;
  but a text that fits is returned as it is, valid or not.\<close>

lemma truncate_valid_utf8:
  "length (truncate_utf8 s n) \<le> n \<and> prefix (truncate_utf8 s n) s \<and>
   (n < length s \<longrightarrow> ValidString (truncate_utf8 s n)) \<and>
   (ValidString s \<longrightarrow> ValidString (truncate_utf8 s n) \<and> min n (length s) \<le> length (truncate_utf8 s n) + 3) \<and>
   (length s \<le> n \<longrightarrow> truncate_utf8 s n = s)"
  using truncate_facts(1,2)[of s n] truncate_facts(3)[of n s] truncate_facts(4,5)[of s n] by (simp add: truncate_utf8_def)

text \<open>Bytes of ASCII in front of a text do not change its validity.\<close>

lemma ValidString_ascii: "list_all (\<lambda>c. byte c < 128) p \<Longrightarrow> ValidString (p @ s) = ValidString s"
proof (induction p)
  case (Cons c p)
  then have "rune_at (c # p @ s) = Some 1" by (simp add: rune_at_def lead_def)
  with Cons show ?case by (simp add: ValidString.simps[of "c # p @ s"])
qed simp

lemma trim_reason_prefix: "\<exists>k \<le> length s. trim_reason s = take k s"
proof (induction s rule: trim_reason.induct)
  case (1 s)
  show ?case
  proof (cases "s \<noteq> [] \<and> \<not> FullRune [last s] \<and> \<not> ValidString s")
    case True
    with "1.IH" obtain k where k: "k \<le> length (butlast s)" "trim_reason (butlast s) = take k (butlast s)" by blast
    have "take k (butlast s) = take k s" using k(1) by (simp add: butlast_conv_take)
    with True k have "trim_reason s = take k s" by (subst trim_reason.simps) simp
    with k(1) show ?thesis by (intro exI[of _ k]) simp
  next
    case False
    then have "trim_reason s = s" by (subst trim_reason.simps) (simp only: if_False)
    then show ?thesis by (intro exI[of _ "length s"]) simp
  qed
qed

text \<open>The trimming loop stops at a last byte that is no first byte of a longer rune.\<close>

lemma trim_reason_stops: "s = [] \<or> FullRune [last s] \<Longrightarrow> trim_reason s = s"
  by (subst trim_reason.simps) auto

end
