(* ===== verification/Lifecycle.thy ===== *)
theory Lifecycle
  imports Utf8
begin

text \<open>
  What the services between submission and test share: the events of the topic
  \<open>submission.lifecycle\<close> (\<open>pkg/schema/protos.go\<close>), what happens when one is published, and the parts of
  a Kubernetes pod that the build service and the sandbox orchestrator fill in.
\<close>

section \<open>Events\<close>

datatype LifecycleEvent =
    SubmissionCreated (sc_SubmissionId: string) (sc_Language: string) (sc_TeamName: string) (sc_ArtifactPath: string)
      (sc_CreatedAt: int64)
  | BuildComplete (bc_SubmissionId: string) (bc_BinaryPath: string) (bc_Language: string) (bc_TeamName: string)
      (bc_BuiltAt: int64)
  | BuildFailed (bf_SubmissionId: string) (bf_Reason: string) (bf_FailedAt: int64)
  | SandboxReady (sr_SubmissionId: string) (sr_PodName: string) (sr_PodIp: string) (sr_HttpPort: int) (sr_WsPort: int)
      (sr_TeamName: string) (sr_ReadyAt: int64)
  | SandboxFailed (sf_SubmissionId: string) (sf_Reason: string) (sf_FailedAt: int64)
  | TestComplete (tst_SubmissionId: string) (tst_TeamName: string) (tst_Success: bool) (tst_Reason: string)
      (tst_CompletedAt: int64)

text \<open>
  \<open>publish\<close>: encode, then produce; both may fail, with a text. The encoder and the broker are
  parameters. An error is taken to mean that the record is not on the topic. (A produce that times out
  may have put it there all the same; for the services that consume the topic that is a publication
  followed by a redelivery, which the runs of \<open>Pipeline\<close> contain.)
\<close>

datatype publish_error = EncodeEvent string | Produce string

record broker =
  encode_error :: "LifecycleEvent \<Rightarrow> string option"
  produce_error :: "string \<Rightarrow> LifecycleEvent \<Rightarrow> string option"

definition publish :: "broker \<Rightarrow> string \<Rightarrow> LifecycleEvent \<Rightarrow> publish_error option" where
  "publish br key event =
     (case encode_error br event of
        Some e \<Rightarrow> Some (EncodeEvent e)
      | None \<Rightarrow> (case produce_error br key event of Some e \<Rightarrow> Some (Produce e) | None \<Rightarrow> None))"

text \<open>
  What a consumer does with one record: nothing; an event is on the topic; a failure report was
  dropped, only logged; or an error that ends the consumer before it commits the record.
\<close>

datatype handled = Skipped | Published LifecycleEvent | ReportDropped LifecycleEvent | ConsumerError publish_error

definition commits :: "handled \<Rightarrow> bool" where
  "commits h = (case h of ConsumerError _ \<Rightarrow> False | _ \<Rightarrow> True)"

text \<open>The text of an event that is not UTF-8 is refused by the encoder; \<open>proto3\<close> strings are UTF-8.\<close>

definition strict_encoder :: "broker \<Rightarrow> bool" where
  "strict_encoder br \<longleftrightarrow>
     (\<forall>k reason t. encode_error br (BuildFailed k reason t) = None \<longrightarrow> ValidString reason) \<and>
     (\<forall>k reason t. encode_error br (SandboxFailed k reason t) = None \<longrightarrow> ValidString reason)"

text \<open>A broker that takes everything the encoder takes.\<close>

definition open_broker :: broker where
  "open_broker = \<lparr>encode_error = (\<lambda>e. case e of BuildFailed _ r _ \<Rightarrow> if ValidString r then None else Some ''invalid UTF-8''
      | SandboxFailed _ r _ \<Rightarrow> if ValidString r then None else Some ''invalid UTF-8'' | _ \<Rightarrow> None),
     produce_error = (\<lambda>_ _. None)\<rparr>"

lemma open_broker_strict: "strict_encoder open_broker"
  by (simp add: strict_encoder_def open_broker_def)

section \<open>Pods\<close>

datatype profile = RuntimeDefault | Localhost string

record security_context =
  RunAsUser :: "int option"
  RunAsNonRoot :: "bool option"
  ReadOnlyRootFilesystem :: "bool option"
  AllowPrivilegeEscalation :: "bool option"
  CapabilitiesDrop :: "string list"
  SeccompProfile :: "profile option"
  AppArmorProfile :: "profile option"

record probe =
  probe_Path :: string
  probe_Port :: int
  InitialDelaySeconds :: int
  PeriodSeconds :: int
  FailureThreshold :: int

record container =
  c_Name :: string
  c_Image :: string
  c_Command :: "string list"
  c_Args :: "string list"
  c_WorkingDir :: string
  c_Env :: "(string \<times> string) list"
  c_Ports :: "(string \<times> int) list"
  c_SecurityContext :: "security_context option"
  c_VolumeMounts :: "(string \<times> string) list"
  c_ReadinessProbe :: "probe option"
  c_Limits :: "(string \<times> string) list"
  c_Requests :: "(string \<times> string) list"

definition container0 :: container where
  "container0 = \<lparr>c_Name = [], c_Image = [], c_Command = [], c_Args = [], c_WorkingDir = [], c_Env = [], c_Ports = [],
     c_SecurityContext = None, c_VolumeMounts = [], c_ReadinessProbe = None, c_Limits = [], c_Requests = []\<rparr>"

record toleration =
  t_Key :: string
  t_Value :: string

record pod =
  p_Name :: string
  p_Namespace :: string
  p_Labels :: "(string \<times> string) list"
  p_RestartPolicy :: string
  p_Automount :: "bool option"
  p_InitContainers :: "container list"
  p_Containers :: "container list"
  p_Volumes :: "(string \<times> string option) list"
  p_NodeSelector :: "(string \<times> string) list"
  p_Tolerations :: "toleration list"

text \<open>No root, no new privileges, a read-only root, no capabilities, a seccomp and an AppArmor profile.\<close>

definition restricted :: "container \<Rightarrow> bool" where
  "restricted c = (case c_SecurityContext c of None \<Rightarrow> False | Some sc \<Rightarrow>
     RunAsNonRoot sc = Some True \<and> AllowPrivilegeEscalation sc = Some False \<and> ReadOnlyRootFilesystem sc = Some True \<and>
     CapabilitiesDrop sc = [''ALL''] \<and> SeccompProfile sc \<noteq> None \<and> AppArmorProfile sc \<noteq> None)"

text \<open>What the API server is asked to do.\<close>

datatype pod_action = CreatePod pod | DeletePodNamed string string

text \<open>An event of a watch on a pod: no pod, or a pod with its phase and whether it is ready.\<close>

datatype pod_phase = PodPending | PodRunning | PodSucceeded | PodFailed | PodUnknown

datatype pod_event = NotAPod | PodSeen pod_phase bool

definition phase_name :: "pod_phase \<Rightarrow> string" where
  "phase_name ph = (case ph of PodPending \<Rightarrow> ''Pending'' | PodRunning \<Rightarrow> ''Running'' | PodSucceeded \<Rightarrow> ''Succeeded''
     | PodFailed \<Rightarrow> ''Failed'' | PodUnknown \<Rightarrow> ''Unknown'')"

end
