(* ===== verification/ConsumerLoops.thy ===== *)
theory ConsumerLoops
  imports Lifecycle
begin

text \<open>
  The loops of the consumers: \<open>Consumer.Run\<close> of the build service and of the sandbox orchestrator, which
  handle and commit one record after the other, and \<open>Consumer.Run\<close> of the bot orchestrator, which starts
  a goroutine for each. What the broker delivers is a parameter, and so is what the handler does.
\<close>

section \<open>Records and commits\<close>

record 'v kafka_record =
  kr_partition :: int
  kr_offset :: nat
  kr_value :: 'v

text \<open>
  A commit of a record moves its partition past it, and a group that starts again is given the
  records from there on; so a record comes again unless a later one, or itself, has been committed.
\<close>

definition later :: "'v kafka_record \<Rightarrow> 'v kafka_record \<Rightarrow> bool" where
  "later r c \<longleftrightarrow> kr_partition c = kr_partition r \<and> kr_offset r \<le> kr_offset c"

definition redelivered :: "'v kafka_record list \<Rightarrow> 'v kafka_record \<Rightarrow> bool" where
  "redelivered committed r \<longleftrightarrow> \<not> list_ex (later r) committed"

text \<open>The broker gives the records of a partition in their order.\<close>

definition by_offset :: "'v kafka_record list \<Rightarrow> bool" where
  "by_offset rs \<longleftrightarrow> sorted_wrt (\<lambda>x y. kr_partition x = kr_partition y \<longrightarrow> kr_offset x < kr_offset y) rs"

section \<open>Build service and sandbox orchestrator\<close>

datatype run_end = ContextEnded | HandleFailed | CommitFailed

text \<open>
  The loop over the records of one fetch: the records handled, those committed, and the error that
  ends it, if any. A panic of the handler counts as an error.
\<close>

fun handle_records :: "('r \<Rightarrow> handled) \<Rightarrow> ('r \<Rightarrow> bool) \<Rightarrow> 'r list \<Rightarrow> 'r list \<times> 'r list \<times> run_end option" where
  "handle_records handle commit [] = ([], [], None)"
| "handle_records handle commit (r # rs) =
     (if \<not> commits (handle r) then ([r], [], Some HandleFailed)
      else if \<not> commit r then ([r], [], Some CommitFailed)
      else let (hs, cs, e) = handle_records handle commit rs in (r # hs, r # cs, e))"

text \<open>
  What \<open>PollFetches\<close> gives: whether the context is done, the errors of the partitions that failed, the
  records of the others, and whether the context ends in the second of waiting after an error.
\<close>

record 'r poll =
  p_done :: bool
  p_errors :: "string list"
  p_wait_done :: bool
  p_records :: "'r list"

text \<open>\<open>None\<close>: the loop is still running after these polls.\<close>

fun Run_consumer :: "('r \<Rightarrow> handled) \<Rightarrow> ('r \<Rightarrow> bool) \<Rightarrow> 'r poll list \<Rightarrow> 'r list \<times> 'r list \<times> run_end option" where
  "Run_consumer handle commit [] = ([], [], None)"
| "Run_consumer handle commit (p # ps) =
     (if p_done p then ([], [], Some ContextEnded)
      else if p_errors p \<noteq> [] then
        (if p_wait_done p then ([], [], Some ContextEnded) else Run_consumer handle commit ps)
      else (case handle_records handle commit (p_records p) of
          (hs, cs, Some e) \<Rightarrow> (hs, cs, Some e)
        | (hs, cs, None) \<Rightarrow>
            let (hs', cs', e) = Run_consumer handle commit ps in (hs @ hs', cs @ cs', e)))"

abbreviation delivered :: "'r poll list \<Rightarrow> 'r list" where
  "delivered ps \<equiv> concat (map p_records ps)"

text \<open>What is committed is what was handled without error, in order, up to the first failure.\<close>

lemma handle_records_prefix:
  "handle_records handle commit rs = (hs, cs, e) \<Longrightarrow> cs = takeWhile (\<lambda>r. commits (handle r) \<and> commit r) rs"
  by (induction rs arbitrary: hs cs e) (auto split: if_splits prod.splits)

lemma handle_records_whole: "handle_records handle commit rs = (hs, cs, None) \<Longrightarrow> hs = rs \<and> cs = rs"
  by (induction rs arbitrary: hs cs) (auto split: if_splits prod.splits)

lemma handle_records_sub:
  assumes "handle_records handle commit rs = (hs, cs, e)"
  shows "set cs \<subseteq> set hs" "set hs \<subseteq> set rs" "\<forall>r \<in> set cs. commits (handle r) \<and> commit r"
proof -
  show "set cs \<subseteq> set hs" "set hs \<subseteq> set rs"
    using assms by (induction rs arbitrary: hs cs e) (auto split: if_splits prod.splits)
  show "\<forall>r \<in> set cs. commits (handle r) \<and> commit r"
    unfolding handle_records_prefix[OF assms] using set_takeWhileD by fast
qed

text \<open>A fetch with an error handles nothing, whatever records came with it.\<close>

definition healthy :: "'r poll \<Rightarrow> bool" where
  "healthy p \<longleftrightarrow> \<not> p_done p \<and> p_errors p = []"

lemma Run_consumer_facts:
  "Run_consumer handle commit ps = (hs, cs, e) \<Longrightarrow>
    set cs \<subseteq> set hs \<and> set hs \<subseteq> set (delivered (filter healthy ps)) \<and> (\<forall>r \<in> set cs. commits (handle r) \<and> commit r)"
proof (induction ps arbitrary: hs cs e)
  case (Cons p ps)
  obtain hs1 cs1 e1 where h: "handle_records handle commit (p_records p) = (hs1, cs1, e1)" by (metis prod.exhaust)
  obtain hs2 cs2 e2 where r: "Run_consumer handle commit ps = (hs2, cs2, e2)" by (metis prod.exhaust)
  show ?case
  proof (cases "healthy p")
    case True
    note f = handle_records_sub[OF h] and g = Cons.IH[OF r]
    have "e1 = None \<and> hs = hs1 @ hs2 \<and> cs = cs1 @ cs2 \<or> hs = hs1 \<and> cs = cs1"
      using Cons.prems True h r by (cases e1) (simp_all add: healthy_def)
    moreover have "set (delivered (filter healthy (p # ps))) = set (p_records p) \<union> set (delivered (filter healthy ps))"
      using True by simp
    ultimately show ?thesis using f g by (metis Un_iff Un_mono set_append sup.coboundedI1)
  next
    case False
    then show ?thesis using Cons.prems r Cons.IH[OF r] by (auto simp: healthy_def split: if_splits)
  qed
qed simp

lemma by_offset_append:
  "by_offset (xs @ ys) \<longleftrightarrow> by_offset xs \<and> by_offset ys \<and>
     (\<forall>x \<in> set xs. \<forall>y \<in> set ys. kr_partition x = kr_partition y \<longrightarrow> kr_offset x < kr_offset y)"
  by (auto simp: by_offset_def sorted_wrt_append)

lemma redelivered_append [simp]: "redelivered (xs @ ys) r \<longleftrightarrow> redelivered xs r \<and> redelivered ys r"
  by (auto simp: redelivered_def)

lemma redelivered_before: "\<forall>x \<in> set xs. kr_partition x = kr_partition r \<longrightarrow> kr_offset x < kr_offset r \<Longrightarrow> redelivered xs r"
  by (force simp: redelivered_def list_ex_iff later_def)

text \<open>Of one fetch, what is not committed comes again.\<close>

lemma handle_records_redelivers:
  assumes "handle_records handle commit rs = (hs, cs, e)" "by_offset rs" "r \<in> set rs" "r \<notin> set cs"
  shows "redelivered cs r"
proof -
  let ?P = "\<lambda>r. commits (handle r) \<and> commit r"
  note cs = handle_records_prefix[OF assms(1)]
  have o: "by_offset (takeWhile ?P rs @ dropWhile ?P rs)" using assms(2) by simp
  have "r \<in> set (dropWhile ?P rs)" using assms(3,4) unfolding cs by (metis Un_iff set_append takeWhile_dropWhile_id)
  with o[unfolded by_offset_append] show ?thesis unfolding cs by (intro redelivered_before) blast
qed

lemma Run_consumer_redelivers:
  assumes "Run_consumer handle commit ps = (hs, cs, e)" "by_offset (delivered ps)"
    "r \<in> set (delivered (filter (\<lambda>p. p_errors p = []) ps))" "r \<notin> set cs"
  shows "redelivered cs r"
  using assms
proof (induction ps arbitrary: hs cs e)
  case (Cons p ps)
  obtain hs1 cs1 e1 where h: "handle_records handle commit (p_records p) = (hs1, cs1, e1)" by (metis prod.exhaust)
  obtain hs2 cs2 e2 where r: "Run_consumer handle commit ps = (hs2, cs2, e2)" by (metis prod.exhaust)
  have o: "by_offset (p_records p)" "by_offset (delivered ps)"
    and apart: "\<forall>x \<in> set (p_records p). \<forall>y \<in> set (delivered ps). kr_partition x = kr_partition y \<longrightarrow> kr_offset x < kr_offset y"
    using Cons.prems(2) by (simp_all add: by_offset_append)
  have sub: "set cs1 \<subseteq> set (p_records p)" "set cs2 \<subseteq> set (delivered ps)"
    using handle_records_sub[OF h] Run_consumer_facts[OF r] by auto
  show ?case
  proof (cases "healthy p")
    case False
    then have "(cs = [] \<or> cs = cs2 \<and> p_errors p \<noteq> [])"
      using Cons.prems(1) r by (auto simp: healthy_def split: if_splits)
    then show ?thesis
    proof
      assume "cs = []"
      then show ?thesis by (simp add: redelivered_def)
    next
      assume "cs = cs2 \<and> p_errors p \<noteq> []"
      with Cons.IH[OF r o(2)] Cons.prems(3,4) show ?thesis by simp
    qed
  next
    case True
    then have pe: "p_errors p = []" by (simp add: healthy_def)
    have all: "r \<in> set (p_records p) \<or> r \<in> set (delivered (filter (\<lambda>p. p_errors p = []) ps))"
      using Cons.prems(3) pe by simp
    have cs: "cs = cs1 \<or> cs = cs1 @ cs2 \<and> cs1 = p_records p"
    proof (cases e1)
      case None
      then show ?thesis using Cons.prems(1) True h r handle_records_whole[of handle commit "p_records p" hs1 cs1]
        by (simp add: healthy_def)
    next
      case (Some x)
      then show ?thesis using Cons.prems(1) True h r by (simp add: healthy_def)
    qed
    have first: "redelivered cs1 r" if "r \<notin> set cs1"
    proof (cases "r \<in> set (p_records p)")
      case True
      then show ?thesis using handle_records_redelivers[OF h o(1)] that by blast
    next
      case False
      then have "r \<in> set (delivered ps)" using all by auto
      then show ?thesis using apart sub(1) by (intro redelivered_before) blast
    qed
    from cs show ?thesis
    proof
      assume "cs = cs1"
      then show ?thesis using first Cons.prems(4) by simp
    next
      assume c: "cs = cs1 @ cs2 \<and> cs1 = p_records p"
      then have "r \<notin> set cs1" "r \<notin> set cs2" using Cons.prems(4) by auto
      moreover from this c all have "r \<in> set (delivered (filter (\<lambda>p. p_errors p = []) ps))" by auto
      ultimately show ?thesis using c first Cons.IH[OF r o(2)] by simp
    qed
  qed
qed simp

section \<open>Bot orchestrator\<close>

text \<open>
  Each record that holds a ready sandbox is handed to a goroutine, which commits it when the handler
  has returned, whenever that is, unless the handler panicked or the commit fails; all other records are
  passed over without a commit.
\<close>

record 'v test_consumer =
  in_hand :: "'v kafka_record list"
  tc_commits :: "'v kafka_record list"

inductive dispatch_step :: "('v \<Rightarrow> bool) \<Rightarrow> 'v test_consumer \<Rightarrow> 'v test_consumer \<Rightarrow> bool" for ready :: "'v \<Rightarrow> bool" where
  pass: "\<not> ready (kr_value (r :: 'v kafka_record)) \<Longrightarrow> dispatch_step ready s s"
| dispatch: "ready (kr_value r) \<Longrightarrow> dispatch_step ready s (s\<lparr>in_hand := in_hand s @ [r]\<rparr>)"
| returned: "r \<in> set (in_hand s) \<Longrightarrow>
    dispatch_step ready s (s\<lparr>in_hand := remove1 r (in_hand s), tc_commits := tc_commits s @ [r]\<rparr>)"
| not_committed: "r \<in> set (in_hand s) \<Longrightarrow> dispatch_step ready s (s\<lparr>in_hand := remove1 r (in_hand s)\<rparr>)"

inductive dispatch_reachable :: "('v \<Rightarrow> bool) \<Rightarrow> 'v test_consumer \<Rightarrow> bool" for ready :: "'v \<Rightarrow> bool" where
  start: "dispatch_reachable ready \<lparr>in_hand = [], tc_commits = []\<rparr>"
| step: "dispatch_reachable ready s \<Longrightarrow> dispatch_step ready s s' \<Longrightarrow> dispatch_reachable ready s'"

section \<open>Telemetry ingester\<close>

text \<open>
  Errors of a fetch are only logged; what decodes is handled, then everything polled and not yet committed is
  committed, and a commit that fails is only logged too, so that its records wait for the next one.
  \<open>accept\<close> is the decoding of a record's value; the result is what was handled, what was committed, and
  whether the context ended the loop.
\<close>

fun Run_ingester :: "('v \<Rightarrow> 'e option) \<Rightarrow> ('v kafka_record poll \<Rightarrow> bool) \<Rightarrow> 'v kafka_record list \<Rightarrow>
    'v kafka_record poll list \<Rightarrow> 'e list \<times> 'v kafka_record list \<times> bool" where
  "Run_ingester accept commit uncommitted [] = ([], [], False)"
| "Run_ingester accept commit uncommitted (p # ps) =
     (if p_done p then ([], [], True)
      else let polled = uncommitted @ p_records p;
               (es, cs, ended) = Run_ingester accept commit (if commit p then [] else polled) ps
           in (List.map_filter accept (map kr_value (p_records p)) @ es, (if commit p then polled else []) @ cs, ended))"

text \<open>No fetch is thrown away: every record that decodes is handled, in order, until the context ends.\<close>

lemma Run_ingester_handles:
  "fst (Run_ingester accept commit unc ps) = List.map_filter accept (map kr_value (delivered (takeWhile (\<lambda>p. \<not> p_done p) ps)))"
  by (induction accept commit unc ps rule: Run_ingester.induct) (auto simp: List.map_filter_def Let_def split: prod.splits)

text \<open>A commit that works makes up for those that failed before it.\<close>

lemma Run_ingester_commits:
  "list_all (\<lambda>p. \<not> p_done p) ps \<Longrightarrow> ps \<noteq> [] \<Longrightarrow> commit (last ps) \<Longrightarrow>
    fst (snd (Run_ingester accept commit unc ps)) = unc @ delivered ps"
proof (induction accept commit unc ps rule: Run_ingester.induct)
  case (2 accept commit unc p ps)
  show ?case
  proof (cases "ps = []")
    case True
    with "2.prems" show ?thesis by (simp add: Let_def)
  next
    case False
    with "2.prems" "2.IH"[OF _ refl] show ?thesis by (auto simp: Let_def split: prod.splits)
  qed
qed simp

section \<open>Properties\<close>

text \<open>C34: A record is lost only in a fetch that failed in part. Of all that the broker delivers to the
  build service or the sandbox orchestrator, each record is handled without error and committed, or
  comes again when the consumer is started again, except the records that come in one fetch with
  the error of another partition: the loop throws that fetch away, nothing of it is ever handled, and a
  later commit in the partition moves past it.\<close>

theorem record_handled_or_redelivered:
  assumes "Run_consumer handle commit ps = (hs, cs, e)" "by_offset (delivered ps)" "r \<in> set (delivered ps)"
  shows "(r \<in> set cs \<and> r \<in> set hs \<and> commits (handle r) \<or> redelivered cs r \<or>
      list_ex (\<lambda>p. p_errors p \<noteq> [] \<and> r \<in> set (p_records p)) ps) \<and>
    (r \<in> set hs \<longrightarrow> list_ex (\<lambda>p. p_errors p = [] \<and> r \<in> set (p_records p)) ps)"
proof -
  have "r \<in> set (delivered (filter (\<lambda>p. p_errors p = []) ps)) \<or> list_ex (\<lambda>p. p_errors p \<noteq> [] \<and> r \<in> set (p_records p)) ps"
    using assms(3) by (auto simp: list_ex_iff)
  then have "r \<in> set cs \<and> r \<in> set hs \<and> commits (handle r) \<or> redelivered cs r \<or>
      list_ex (\<lambda>p. p_errors p \<noteq> [] \<and> r \<in> set (p_records p)) ps"
    using Run_consumer_redelivers[OF assms(1,2)] Run_consumer_facts[OF assms(1)] by blast
  moreover have "r \<in> set hs \<Longrightarrow> list_ex (\<lambda>p. p_errors p = [] \<and> r \<in> set (p_records p)) ps"
    using Run_consumer_facts[OF assms(1)] by (auto simp: list_ex_iff healthy_def)
  ultimately show ?thesis by blast
qed

definition rec_at :: "nat \<Rightarrow> string \<Rightarrow> string kafka_record" where
  "rec_at off v = \<lparr>kr_partition = 0, kr_offset = off, kr_value = v\<rparr>"

text \<open>Two fetches: the first brings a record and the error of another partition.\<close>

definition torn_polls :: "string kafka_record poll list" where
  "torn_polls = [\<lparr>p_done = False, p_errors = [''partition 1''], p_wait_done = False, p_records = [rec_at 0 ''a'']\<rparr>,
     \<lparr>p_done = False, p_errors = [], p_wait_done = False, p_records = [rec_at 1 ''b'']\<rparr>]"

theorem record_handled_or_redelivered_witness:
  "Run_consumer (\<lambda>_. Skipped) (\<lambda>_. True) torn_polls = ([rec_at 1 ''b''], [rec_at 1 ''b''], None) \<and>
   by_offset (delivered torn_polls) \<and> rec_at 0 ''a'' \<in> set (delivered torn_polls) \<and>
   rec_at 0 ''a'' \<notin> set [rec_at 1 ''b''] \<and> \<not> redelivered [rec_at 1 ''b''] (rec_at 0 ''a'') \<and>
   list_ex (\<lambda>p. p_errors p \<noteq> [] \<and> rec_at 0 ''a'' \<in> set (p_records p)) torn_polls"
proof -
  have r: "Run_consumer (\<lambda>_. Skipped) (\<lambda>_. True) torn_polls = ([rec_at 1 ''b''], [rec_at 1 ''b''], None)"
    "by_offset (delivered torn_polls)" "rec_at 0 ''a'' \<in> set (delivered torn_polls)"
    by (simp_all add: torn_polls_def commits_def by_offset_def rec_at_def)
  moreover have "rec_at 0 ''a'' \<notin> set [rec_at 1 ''b'']" "\<not> redelivered [rec_at 1 ''b''] (rec_at 0 ''a'')"
    by (simp_all add: rec_at_def redelivered_def later_def)
  ultimately show ?thesis using record_handled_or_redelivered[OF r] by blast
qed

text \<open>
  The bot orchestrator commits past a test that is still running: of two ready sandboxes of one
  partition the second may return first, at once if its submission is being tested already. A
  process that dies then is not given the first one again.
\<close>

lemma commit_past_running:
  "\<exists>s r. dispatch_reachable ready s \<and> r \<in> set (in_hand s) \<and> \<not> redelivered (tc_commits s) r" if "ready v"
proof -
  let ?a = "\<lparr>kr_partition = 0, kr_offset = 0, kr_value = v\<rparr>" and ?b = "\<lparr>kr_partition = 0, kr_offset = 1, kr_value = v\<rparr>"
  have "dispatch_reachable ready \<lparr>in_hand = [?a], tc_commits = []\<rparr>"
    using dispatch_reachable.step[OF dispatch_reachable.start dispatch_step.dispatch[where r = ?a]] that by simp
  from dispatch_reachable.step[OF this dispatch_step.dispatch[where r = ?b]] that
  have "dispatch_reachable ready \<lparr>in_hand = [?a, ?b], tc_commits = []\<rparr>" by simp
  from dispatch_reachable.step[OF this dispatch_step.returned[where r = ?b]]
  have "dispatch_reachable ready \<lparr>in_hand = [?a], tc_commits = [?b]\<rparr>" by simp
  then show ?thesis by (intro exI[of _ "\<lparr>in_hand = [?a], tc_commits = [?b]\<rparr>"] exI[of _ ?a])
    (simp add: redelivered_def later_def)
qed

end
