(* ===== verification/Settings.thy ===== *)
theory Settings
  imports Prelude
begin

text \<open>
  How the services read their environment (\<open>envStr\<close>, \<open>envInt\<close>, \<open>envInt64\<close> and the list of brokers in each
  \<open>main.go\<close>), with what they use of \<open>strconv\<close> and \<open>strings\<close>. An unset variable reads as the empty
  string. Strings are bytes; \<open>TrimSpace\<close> is that of ASCII text.
\<close>

section \<open>Numbers\<close>

fun digits_value :: "int \<Rightarrow> string \<Rightarrow> int option" where
  "digits_value acc [] = Some acc"
| "digits_value acc (c # cs) =
     (let d = (of_char c :: int) in if 48 \<le> d \<and> d \<le> 57 then digits_value (acc * 10 + (d - 48)) cs else None)"

text \<open>\<open>strconv.Atoi\<close> and \<open>strconv.ParseInt(s, 10, 64)\<close>: a sign, then digits, in the range of an \<open>int64\<close>.\<close>

definition Atoi :: "string \<Rightarrow> int64 option" where
  "Atoi s =
     (let (neg, digits) = (case s of [] \<Rightarrow> (False, []) | c # cs \<Rightarrow>
        if c = CHR ''-'' then (True, cs) else if c = CHR ''+'' then (False, cs) else (False, s))
      in if digits = [] then None
         else case digits_value 0 digits of
           None \<Rightarrow> None
         | Some n \<Rightarrow> let v = (if neg then - n else n) in if int64_range v then Some v else None)"

type_synonym environment = "string \<Rightarrow> string"

definition envStr :: "environment \<Rightarrow> string \<Rightarrow> string \<Rightarrow> string" where
  "envStr env key fallback = (if env key \<noteq> [] then env key else fallback)"

definition envInt :: "environment \<Rightarrow> string \<Rightarrow> int64 \<Rightarrow> int64" where
  "envInt env key fallback =
     (if env key \<noteq> [] then (case Atoi (env key) of Some n \<Rightarrow> n | None \<Rightarrow> fallback) else fallback)"

section \<open>Lists\<close>

text \<open>\<open>strings.Split\<close> and \<open>strings.Join\<close> with the separator \<open>","\<close>.\<close>

fun split_comma :: "string \<Rightarrow> string list" where
  "split_comma [] = [[]]"
| "split_comma (c # cs) =
     (if c = CHR '','' then [] # split_comma cs
      else case split_comma cs of [] \<Rightarrow> [[c]] | p # ps \<Rightarrow> (c # p) # ps)"

fun join_comma :: "string list \<Rightarrow> string" where
  "join_comma [] = []"
| "join_comma [p] = p"
| "join_comma (p # q # ps) = p @ CHR '','' # join_comma (q # ps)"

definition is_space :: "char \<Rightarrow> bool" where
  "is_space c \<longleftrightarrow> c = CHR '' '' \<or> 9 \<le> (of_char c :: nat) \<and> (of_char c :: nat) \<le> 13"

definition TrimSpace :: "string \<Rightarrow> string" where
  "TrimSpace s = rev (dropWhile is_space (rev (dropWhile is_space s)))"

text \<open>The loop over the brokers: trimmed, empty ones skipped.\<close>

fun brokers_of :: "string list \<Rightarrow> string list" where
  "brokers_of [] = []"
| "brokers_of (b # bs) = (let trimmed = TrimSpace b in if trimmed \<noteq> [] then trimmed # brokers_of bs else brokers_of bs)"

definition parse_brokers :: "string \<Rightarrow> string list" where
  "parse_brokers raw = brokers_of (split_comma raw)"

section \<open>Round trips\<close>

lemma digits_value_append: "digits_value acc (xs @ ys) = Option.bind (digits_value acc xs) (\<lambda>a. digits_value a ys)"
  by (induction acc xs rule: digits_value.induct) (auto simp: Let_def)

lemma digit_char_value: "d < 10 \<Longrightarrow> (of_char (digit_char d) :: int) = 48 + int d"
proof -
  assume "d < 10"
  then have "(of_char (digit_char d) :: nat) = 48 + d" by (simp add: digit_char_def of_char_of)
  then have "int (of_char (digit_char d)) = int (48 + d)" by (rule arg_cong)
  then show ?thesis by (metis of_nat_of_char of_nat_add of_nat_numeral)
qed

lemma digits_value_show_nat: "digits_value 0 (show_nat n) = Some (int n)"
proof (induction n rule: show_nat.induct)
  case (1 n)
  show ?case
  proof (cases "n < 10")
    case True
    then show ?thesis by (subst show_nat.simps) (simp add: digit_char_value Let_def)
  next
    case False
    then have IH: "digits_value 0 (show_nat (n div 10)) = Some (int (n div 10))" by (rule "1.IH")
    have "int (n div 10) * 10 + int (n mod 10) = int n" by (simp add: zdiv_int zmod_int)
    with False IH digit_char_value[of "n mod 10"] show ?thesis
      by (subst show_nat.simps) (simp add: digits_value_append Let_def)
  qed
qed

lemma show_nat_first: "\<exists>c cs. show_nat n = c # cs \<and> c \<noteq> CHR ''-'' \<and> c \<noteq> CHR ''+''"
proof -
  obtain c cs where c: "show_nat n = c # cs" using show_nat_neq_Nil by (cases "show_nat n") auto
  then have "c \<in> set (show_nat n)" by simp
  from show_nat_chars[OF this] show ?thesis using c by fastforce
qed

lemma Atoi_show_int: "int64_range i \<Longrightarrow> Atoi (show_int i) = Some i"
proof -
  assume i: "int64_range i"
  show ?thesis
  proof (cases "i < 0")
    case True
    with i digits_value_show_nat[of "nat (- i)"] show ?thesis
      by (simp add: Atoi_def show_int_def show_nat_neq_Nil Let_def)
  next
    case False
    obtain c cs where c: "show_nat (nat i) = c # cs" "c \<noteq> CHR ''-''" "c \<noteq> CHR ''+''" using show_nat_first by blast
    with False i digits_value_show_nat[of "nat i"] show ?thesis
      by (simp add: Atoi_def show_int_def Let_def)
  qed
qed

lemma Atoi_range: "Atoi s = Some n \<Longrightarrow> int64_range n"
  by (auto simp: Atoi_def Let_def split: prod.splits option.splits if_splits list.splits)

lemma split_comma_plain: "CHR '','' \<notin> set s \<Longrightarrow> split_comma s = [s]"
  by (induction s) auto

lemma split_comma_append: "CHR '','' \<notin> set p \<Longrightarrow> split_comma (p @ CHR '','' # s) = p # split_comma s"
  by (induction p) auto

lemma split_join_comma: "ps \<noteq> [] \<Longrightarrow> \<forall>p \<in> set ps. CHR '','' \<notin> set p \<Longrightarrow> split_comma (join_comma ps) = ps"
  by (induction ps rule: join_comma.induct) (auto simp: split_comma_plain split_comma_append)

lemma split_comma_parts: "p \<in> set (split_comma s) \<Longrightarrow> CHR '','' \<notin> set p"
  by (induction s arbitrary: p) (auto split: if_splits list.splits)

lemma TrimSpace_subset: "set (TrimSpace s) \<subseteq> set s"
  unfolding TrimSpace_def by (auto dest!: set_dropWhileD)

lemma TrimSpace_idem: "TrimSpace (TrimSpace s) = TrimSpace s"
proof -
  let ?a = "dropWhile is_space s" let ?b = "rev (dropWhile is_space (rev ?a))"
  have "dropWhile is_space ?b = ?b"
  proof (cases "?b = []")
    case False
    obtain ys where ys: "rev ?a = ys @ rev ?b"
      by (metis rev_rev_ident takeWhile_dropWhile_id)
    then have "?a = ?b @ rev ys" by (metis rev_append rev_rev_ident)
    with False have "hd ?b = hd ?a" "?a \<noteq> []" by (metis hd_append2, metis Nil_is_append_conv)
    then have "\<not> is_space (hd ?b)" using hd_dropWhile[of is_space s] by simp
    then show ?thesis unfolding dropWhile_eq_self_iff by blast
  next
    case True
    then show ?thesis by (simp only: dropWhile.simps)
  qed
  moreover have "dropWhile is_space (dropWhile is_space (rev ?a)) = dropWhile is_space (rev ?a)"
    by (simp add: dropWhile_eq_self_iff hd_dropWhile)
  ultimately show ?thesis by (simp add: TrimSpace_def)
qed

lemma brokers_of_ok: "p \<in> set (brokers_of bs) \<Longrightarrow> p \<noteq> [] \<and> TrimSpace p = p \<and> (\<exists>b \<in> set bs. set p \<subseteq> set b)"
  using TrimSpace_subset by (induction bs) (auto simp: Let_def TrimSpace_idem split: if_splits)

lemma brokers_of_trimmed: "\<forall>p \<in> set ps. p \<noteq> [] \<and> TrimSpace p = p \<Longrightarrow> brokers_of ps = ps"
  by (induction ps) (auto simp: Let_def)

lemma parse_brokers_ok: "p \<in> set (parse_brokers raw) \<Longrightarrow> p \<noteq> [] \<and> TrimSpace p = p \<and> CHR '','' \<notin> set p"
  unfolding parse_brokers_def using brokers_of_ok split_comma_parts by blast

lemma parse_join_brokers: "parse_brokers (join_comma (parse_brokers raw)) = parse_brokers raw"
proof (cases "parse_brokers raw = []")
  case True
  then show ?thesis by (simp add: parse_brokers_def TrimSpace_def)
next
  case False
  then have "split_comma (join_comma (parse_brokers raw)) = parse_brokers raw"
    by (rule split_join_comma) (use parse_brokers_ok in blast)
  then show ?thesis unfolding parse_brokers_def[of "join_comma _"]
    by (simp add: brokers_of_trimmed parse_brokers_ok)
qed

end
