(* ===== verification/ProcessStart.thy ===== *)
theory ProcessStart
  imports Settings
begin

text \<open>
  The processes (\<open>run\<close> and \<open>main\<close> in each \<open>main.go\<close>): what is created in which order, what is closed by
  \<open>defer\<close> when \<open>run\<close> returns, the exit code, and the end of the HTTP servers on a signal. Whether a
  creation fails is a parameter.
\<close>

section \<open>Creation and clean-up\<close>

text \<open>
  A step of \<open>run\<close>: the prefix of its error text and the resource whose \<open>Close\<close> is deferred when it has
  succeeded, if any.
\<close>

record start_step =
  st_prefix :: string
  st_resource :: "string option"

datatype process_action = Opened string | Closed string

text \<open>The deferred calls of \<open>run\<close> are made when it returns, the last one first, whatever it returns.\<close>

fun start_steps :: "(string \<Rightarrow> string option) \<Rightarrow> start_step list \<Rightarrow> string option \<times> process_action list \<Rightarrow>
    string option \<times> process_action list" where
  "start_steps fails [] body = body"
| "start_steps fails (s # ss) body =
     (case fails (st_prefix s) of
        Some e \<Rightarrow> (Some (st_prefix s @ '': '' @ e), [])
      | None \<Rightarrow>
          let (err, acts) = start_steps fails ss body
          in (err, case st_resource s of None \<Rightarrow> acts | Some r \<Rightarrow> Opened r # acts @ [Closed r]))"

abbreviation plain_step :: "string \<Rightarrow> start_step" where
  "plain_step prefix \<equiv> \<lparr>st_prefix = prefix, st_resource = None\<rparr>"

abbreviation closing_step :: "string \<Rightarrow> string \<Rightarrow> start_step" where
  "closing_step prefix r \<equiv> \<lparr>st_prefix = prefix, st_resource = Some r\<rparr>"

definition exit_code :: "string option \<times> process_action list \<Rightarrow> nat" where
  "exit_code r = (if fst r = None then 0 else 1)"

text \<open>
  A constructor makes one client after the other and returns the error of the first that fails, with a
  prefix, as \<open>NewPublisher\<close>, \<open>NewConsumer\<close> and the two orchestrators do.
\<close>

fun first_failure :: "(string \<Rightarrow> string option) \<Rightarrow> string list \<Rightarrow> 'a \<Rightarrow> string + 'a" where
  "first_failure fails [] made = Inr made"
| "first_failure fails (s # ss) made =
     (case fails s of Some e \<Rightarrow> Inl (s @ '': '' @ e) | None \<Rightarrow> first_failure fails ss made)"

text \<open>A publisher or consumer is its brokers, its topic and, for a consumer, its group.\<close>

record kafka_client =
  kc_brokers :: "string list"
  kc_topic :: string
  kc_group :: "string option"

definition NewPublisher :: "(string \<Rightarrow> string option) \<Rightarrow> string list \<Rightarrow> string \<Rightarrow> string + kafka_client" where
  "NewPublisher fails brokers topic =
     first_failure fails [''new kafka client''] \<lparr>kc_brokers = brokers, kc_topic = topic, kc_group = None\<rparr>"

definition NewConsumer :: "(string \<Rightarrow> string option) \<Rightarrow> string list \<Rightarrow> string \<Rightarrow> string + kafka_client" where
  "NewConsumer fails brokers topic =
     first_failure fails [''new kafka client''] \<lparr>kc_brokers = brokers, kc_topic = topic, kc_group = Some ''build-service''\<rparr>"

section \<open>The services\<close>

text \<open>
  \<open>consumer_end\<close> is the error with which \<open>consumer.Run\<close> returned and \<open>ctx_done\<close> whether a signal came: an
  error after a signal is none.
\<close>

definition consumer_body :: "string option \<Rightarrow> bool \<Rightarrow> string option \<times> process_action list" where
  "consumer_body consumer_end ctx_done =
     (case consumer_end of None \<Rightarrow> None | Some e \<Rightarrow> if ctx_done then None else Some (''consumer: '' @ e), [])"

definition build_service_run :: "(string \<Rightarrow> string option) \<Rightarrow> string option \<Rightarrow> bool \<Rightarrow> string option \<times> process_action list" where
  "build_service_run fails consumer_end ctx_done =
     start_steps fails
       [plain_step ''schema registry'', plain_step ''register schema'', closing_step ''init publisher'' ''publisher'',
        plain_step ''init builder'', closing_step ''init consumer'' ''consumer'']
       (consumer_body consumer_end ctx_done)"

definition sandbox_orchestrator_run :: "(string \<Rightarrow> string option) \<Rightarrow> string option \<Rightarrow> bool \<Rightarrow> string option \<times> process_action list" where
  "sandbox_orchestrator_run fails consumer_end ctx_done =
     start_steps fails
       [plain_step ''schema registry'', plain_step ''register schema'', closing_step ''init publisher'' ''publisher'',
        closing_step ''init orchestrator'' ''orchestrator'', closing_step ''init consumer'' ''consumer'']
       (consumer_body consumer_end ctx_done)"

text \<open>The health server of the ingester is shut down by a deferred function too.\<close>

definition ingester_run :: "environment \<Rightarrow> (string \<Rightarrow> string option) \<Rightarrow> string option \<times> process_action list" where
  "ingester_run env fails =
     (if envStr env ''TIMESCALEDB_DSN'' [] = [] then (Some ''TIMESCALEDB_DSN must be set'', [])
      else start_steps fails
        [plain_step ''schema registry'', plain_step ''register schema'', closing_step ''init ingester'' ''ingester'',
         closing_step ''init consumer'' ''consumer'']
        (None, [Opened ''health server'', Closed ''health server'']))"

text \<open>
  The bot orchestrator waits for a signal, shuts its HTTP server down and waits for the goroutines of
  the server and of the consumer; \<open>shutdown\<close> is the error of the former.
\<close>

definition bot_orchestrator_run :: "(string \<Rightarrow> string option) \<Rightarrow> string option \<Rightarrow> string option \<times> process_action list" where
  "bot_orchestrator_run fails shutdown =
     start_steps fails
       [plain_step ''schema registry'', plain_step ''register schema'', closing_step ''init publisher'' ''publisher'',
        plain_step ''init orchestrator'', closing_step ''init consumer'' ''consumer'']
       (case shutdown of None \<Rightarrow> None | Some e \<Rightarrow> Some (''http server shutdown: '' @ e), [])"

text \<open>\<open>serve_end\<close>: the error of \<open>ListenAndServe\<close>, \<open>None\<close> for \<open>ErrServerClosed\<close>; it is returned as it is.\<close>

definition submission_api_run :: "(string \<Rightarrow> string option) \<Rightarrow> string option \<Rightarrow> string option \<times> process_action list" where
  "submission_api_run fails serve_end =
     start_steps fails [plain_step ''init storage'', closing_step ''init publisher'' ''publisher''] (serve_end, [])"

text \<open>The Redis client and the hub cannot fail; the listening server reports its error to the log only.\<close>

definition leaderboard_run :: "(string \<Rightarrow> string option) \<Rightarrow> string option \<Rightarrow> string option \<times> process_action list" where
  "leaderboard_run fails shutdown =
     (let (err, acts) = start_steps fails [plain_step ''fs.Sub'']
        (case shutdown of None \<Rightarrow> None | Some e \<Rightarrow> Some (''http server shutdown: '' @ e), [])
      in (err, Opened ''redis'' # acts @ [Closed ''redis'']))"

text \<open>The runner makes a Kafka client only when it has a broker; \<open>result\<close> is how the test went.\<close>

definition bot_runner_run :: "environment \<Rightarrow> (string \<Rightarrow> string option) \<Rightarrow> string option \<Rightarrow> string option \<times> process_action list" where
  "bot_runner_run env fails result =
     start_steps fails
       (if parse_brokers (envStr env ''REDPANDA_BROKERS'' []) \<noteq> []
        then [closing_step ''failed to create kafka client'' ''client'', plain_step ''schema registry'', plain_step ''register schema'']
        else [])
       (result, [])"

lemma first_failure_result:
  "first_failure fails ss made = (case find (\<lambda>s. fails s \<noteq> None) ss of
     None \<Rightarrow> Inr made | Some s \<Rightarrow> Inl (s @ '': '' @ the (fails s)))"
  by (induction ss) (auto split: option.splits)

section \<open>Nothing stays open\<close>

text \<open>Well bracketed: what is opened is closed once, and after what was opened later.\<close>

fun bracketed :: "string list \<Rightarrow> process_action list \<Rightarrow> bool" where
  "bracketed open_now [] = (open_now = [])"
| "bracketed open_now (Opened r # as) = bracketed (r # open_now) as"
| "bracketed open_now (Closed r # as) = (open_now \<noteq> [] \<and> hd open_now = r \<and> bracketed (tl open_now) as)"

lemma bracketed_append: "bracketed [] as \<Longrightarrow> bracketed st (as @ bs) = bracketed st bs"
proof -
  have "bracketed (xs @ st) (as @ bs) = bracketed st bs" if "bracketed xs as" for xs
    using that
  proof (induction xs as rule: bracketed.induct)
    case (3 open_now r as)
    then show ?case by (cases open_now) auto
  qed auto
  from this[of "[]"] show "bracketed [] as \<Longrightarrow> bracketed st (as @ bs) = bracketed st bs" by simp
qed

lemma run_steps_bracketed:
  assumes "bracketed [] (snd body)" shows "bracketed [] (snd (start_steps fails steps body))"
proof (induction steps)
  case (Cons s ss)
  obtain err acts where r: "start_steps fails ss body = (err, acts)" by (metis prod.exhaust)
  with Cons have "bracketed [] acts" by simp
  with r show ?case by (auto simp: bracketed_append split: option.splits)
qed (use assms in simp)

text \<open>\<open>run\<close> fails with the text of the first step that fails, or as its body does.\<close>

lemma run_steps_error:
  "fst (start_steps fails steps body) =
     (case find (\<lambda>s. fails (st_prefix s) \<noteq> None) steps of
        Some s \<Rightarrow> Some (st_prefix s @ '': '' @ the (fails (st_prefix s))) | None \<Rightarrow> fst body)"
  by (induction steps) (auto split: option.splits prod.splits)

lemma consumer_body_facts [simp]:
  "bracketed [] (snd (consumer_body x d))" "fst (consumer_body x d) = None \<longleftrightarrow> x = None \<or> d"
  by (auto simp: consumer_body_def split: option.splits)

lemma exit_code_steps:
  "exit_code (start_steps fails steps body) = 0 \<longleftrightarrow> list_all (\<lambda>s. fails (st_prefix s) = None) steps \<and> fst body = None"
  by (induction steps) (auto simp: exit_code_def split: option.splits prod.splits)

section \<open>Servers and signals\<close>

text \<open>
  An HTTP server from its start to the end of its process. On a signal \<open>Shutdown\<close> stops the listening,
  which makes \<open>ListenAndServe\<close> return at once, and returns itself when the requests in flight have
  been answered or its deadline has passed. \<open>joins\<close>: \<open>run\<close> waits for \<open>Shutdown\<close> (leaderboard, bot orchestrator);
  otherwise a goroutine calls it and \<open>run\<close> waits for \<open>ListenAndServe\<close> (submission API).
\<close>

record server_life =
  serving :: bool
  in_flight :: nat
  signalled :: bool
  deadline_passed :: bool
  process_ended :: bool

definition server_up :: server_life where
  "server_up = \<lparr>serving = True, in_flight = 0, signalled = False, deadline_passed = False, process_ended = False\<rparr>"

inductive life_step :: "bool \<Rightarrow> server_life \<Rightarrow> server_life \<Rightarrow> bool" for joins :: bool where
  request: "serving s \<Longrightarrow> \<not> process_ended s \<Longrightarrow> life_step joins s (s\<lparr>in_flight := in_flight s + 1\<rparr>)"
| respond: "0 < in_flight s \<Longrightarrow> \<not> process_ended s \<Longrightarrow> life_step joins s (s\<lparr>in_flight := in_flight s - 1\<rparr>)"
| signal: "life_step joins s (s\<lparr>signalled := True, serving := False\<rparr>)"
| expire: "signalled s \<Longrightarrow> life_step joins s (s\<lparr>deadline_passed := True\<rparr>)"
| finish: "signalled s \<Longrightarrow> (joins \<Longrightarrow> in_flight s = 0 \<or> deadline_passed s) \<Longrightarrow> life_step joins s (s\<lparr>process_ended := True\<rparr>)"

inductive life_reachable :: "bool \<Rightarrow> server_life \<Rightarrow> bool" for joins :: bool where
  up: "life_reachable joins server_up"
| step: "life_reachable joins s \<Longrightarrow> life_step joins s s' \<Longrightarrow> life_reachable joins s'"

lemma joined_life:
  "life_reachable True s \<Longrightarrow> process_ended s \<Longrightarrow> (in_flight s = 0 \<or> deadline_passed s) \<and> \<not> serving s"
proof -
  assume "life_reachable True s"
  then have "(process_ended s \<longrightarrow> in_flight s = 0 \<or> deadline_passed s) \<and> (signalled s \<longrightarrow> \<not> serving s) \<and>
      (process_ended s \<longrightarrow> signalled s)"
  proof (induction rule: life_reachable.induct)
    case (step s s')
    from step(2,3) show ?case by (cases rule: life_step.cases) auto
  qed (simp add: server_up_def)
  then show "process_ended s \<Longrightarrow> (in_flight s = 0 \<or> deadline_passed s) \<and> \<not> serving s" by blast
qed

section \<open>Properties\<close>

text \<open>Every service closes what it opened, once, and in the reverse order, whichever step of its start
  fails and however its work ends. Those that live on a consumer exit with code 0 exactly when every step
  succeeded and the consumer ended without an error or on a signal.\<close>

lemma services_release_resources:
  "bracketed [] (snd (build_service_run f c d)) \<and> bracketed [] (snd (sandbox_orchestrator_run f c d)) \<and>
   bracketed [] (snd (ingester_run env f)) \<and> bracketed [] (snd (bot_orchestrator_run f c)) \<and>
   bracketed [] (snd (submission_api_run f c)) \<and> bracketed [] (snd (leaderboard_run f c)) \<and>
   bracketed [] (snd (bot_runner_run env f c)) \<and>
   (exit_code (build_service_run f c d) = 0 \<longleftrightarrow> list_all (\<lambda>p. f p = None)
      [''schema registry'', ''register schema'', ''init publisher'', ''init builder'', ''init consumer''] \<and> (c = None \<or> d)) \<and>
   (exit_code (sandbox_orchestrator_run f c d) = 0 \<longleftrightarrow> list_all (\<lambda>p. f p = None)
      [''schema registry'', ''register schema'', ''init publisher'', ''init orchestrator'', ''init consumer''] \<and> (c = None \<or> d))"
proof -
  have lead: "bracketed [] (snd (leaderboard_run f c))"
    by (simp add: leaderboard_run_def split: option.split)
  show ?thesis
    unfolding build_service_run_def sandbox_orchestrator_run_def ingester_run_def bot_orchestrator_run_def
      submission_api_run_def bot_runner_run_def
    using lead by (intro conjI) (simp_all add: run_steps_bracketed exit_code_steps del: start_steps.simps)
qed

text \<open>On a signal a service that waits for \<open>Shutdown\<close> ends only when every request has been answered or
  the deadline has passed. The submission API does not wait: it can end, within its deadline, with a request
  in flight, for instance a confirmation that has not been published yet.\<close>

lemma graceful_shutdown:
  "(life_reachable True s \<and> process_ended s \<longrightarrow> (in_flight s = 0 \<or> deadline_passed s) \<and> \<not> serving s) \<and>
   (\<exists>s. life_reachable False s \<and> process_ended s \<and> 0 < in_flight s \<and> \<not> deadline_passed s)"
proof -
  have "life_reachable False (server_up\<lparr>in_flight := 1\<rparr>)"
    using life_reachable.step[OF life_reachable.up life_step.request] by (simp add: server_up_def)
  from life_reachable.step[OF this life_step.signal]
  have "life_reachable False (server_up\<lparr>in_flight := 1, signalled := True, serving := False\<rparr>)" by (simp add: server_up_def)
  from life_reachable.step[OF this life_step.finish]
  have "life_reachable False (server_up\<lparr>in_flight := 1, signalled := True, serving := False, process_ended := True\<rparr>)"
    by (simp add: server_up_def)
  then have "\<exists>s. life_reachable False s \<and> process_ended s \<and> 0 < in_flight s \<and> \<not> deadline_passed s"
    by (intro exI[of _ "server_up\<lparr>in_flight := 1, signalled := True, serving := False, process_ended := True\<rparr>"])
      (simp add: server_up_def)
  with joined_life show ?thesis by blast
qed

end
