(* ===== verification/IngesterStart.thy ===== *)
theory IngesterStart
  imports Ingester ProcessStart ConsumerLoops
begin

text \<open>
  The settings of the telemetry ingester (\<open>services/telemetry-ingester/main.go\<close>): \<open>envFloat\<close> with what it
  uses of \<open>strconv.ParseFloat\<close>, and the settings that \<open>run\<close> reads.
\<close>

section \<open>Numbers with a point\<close>

definition lower_char :: "char \<Rightarrow> char" where
  "lower_char c = (let d = (of_char c :: nat) in if 65 \<le> d \<and> d \<le> 90 then char_of (d + 32) else c)"

definition digit_of :: "char \<Rightarrow> nat option" where
  "digit_of c = (let d = (of_char c :: nat) in if 48 \<le> d \<and> d \<le> 57 then Some (d - 48) else None)"

definition split_sign :: "string \<Rightarrow> bool \<times> bool \<times> string" where
  "split_sign s = (case s of [] \<Rightarrow> (False, False, [])
     | c # cs \<Rightarrow> if c = CHR ''-'' then (True, True, cs) else if c = CHR ''+'' then (True, False, cs) else (False, False, s))"

text \<open>The words, whatever their case: \<open>nan\<close> takes no sign.\<close>

definition float_word :: "string \<Rightarrow> float64 option" where
  "float_word s =
     (let (signed, neg, t) = split_sign s; w = map lower_char t
      in if w = ''inf'' \<or> w = ''infinity'' then Some (if neg then NInf else PInf)
         else if w = ''nan'' \<and> \<not> signed then Some NaN else None)"

text \<open>Digits from the front: the value with what came before, their number, and the rest.\<close>

fun digits_run :: "nat \<Rightarrow> string \<Rightarrow> nat \<times> nat \<times> string" where
  "digits_run v [] = (v, 0, [])"
| "digits_run v (c # cs) =
     (case digit_of c of None \<Rightarrow> (v, 0, c # cs)
      | Some d \<Rightarrow> let (w, k, rest) = digits_run (v * 10 + d) cs in (w, Suc k, rest))"

text \<open>An exponent has digits to the end; from 10000 on further digits are not counted.\<close>

fun exponent_digits :: "nat \<Rightarrow> string \<Rightarrow> nat option" where
  "exponent_digits e [] = Some e"
| "exponent_digits e (c # cs) =
     (case digit_of c of None \<Rightarrow> None | Some d \<Rightarrow> exponent_digits (if e < 10000 then e * 10 + d else e) cs)"

definition float_exponent :: "string \<Rightarrow> int option" where
  "float_exponent s =
     (case s of [] \<Rightarrow> Some 0
      | c # cs \<Rightarrow>
          if lower_char c \<noteq> CHR ''e'' then None
          else let (signed, neg, t) = split_sign cs
               in if t = [] then None
                  else map_option (\<lambda>e. if neg then - int e else int e) (exponent_digits 0 t))"

definition pow10 :: "int \<Rightarrow> rat" where
  "pow10 e = (if 0 \<le> e then 10 ^ nat e else inverse (10 ^ nat (- e)))"

text \<open>A number that rounds to infinity is an error.\<close>

definition float_decimal :: "string \<Rightarrow> float64 option" where
  "float_decimal s =
     (let (signed, neg, t) = split_sign s;
          (v, k, rest) = digits_run 0 t;
          (v, frac, rest) = (case rest of [] \<Rightarrow> (v, 0, rest)
             | c # cs \<Rightarrow> if c = CHR ''.'' then digits_run v cs else (v, 0, rest))
      in if k + frac = 0 then None
         else case float_exponent rest of
           None \<Rightarrow> None
         | Some e \<Rightarrow>
             if v = 0 then Some (if neg then NegZero else Fin 0)
             else let x = of_nat v * pow10 (e - int frac); y = rnd64 (if neg then - x else x)
                  in if y = PInf \<or> y = NInf then None else Some y)"

text \<open>
  \<open>strconv.ParseFloat(s, 64)\<close>. Hexadecimal numbers and underscores between digits are left to the
  parameter \<open>exotic\<close>.
\<close>

definition ParseFloat :: "(string \<Rightarrow> float64 option) \<Rightarrow> string \<Rightarrow> float64 option" where
  "ParseFloat exotic s =
     (if s = [] then None
      else if list_ex (\<lambda>c. c = CHR ''_'' \<or> lower_char c = CHR ''x'') s then exotic s
      else case float_word s of Some f \<Rightarrow> Some f | None \<Rightarrow> float_decimal s)"

definition envFloat :: "(string \<Rightarrow> float64 option) \<Rightarrow> environment \<Rightarrow> string \<Rightarrow> float64 \<Rightarrow> float64" where
  "envFloat exotic env key fallback =
     (if env key \<noteq> [] then (case ParseFloat exotic (env key) of Some f \<Rightarrow> f | None \<Rightarrow> fallback) else fallback)"

section \<open>The settings\<close>

record ingester_settings =
  is_brokers :: "string list"
  is_dsn :: string
  is_topic :: string
  is_schemaRegistryURL :: string
  is_redisAddr :: string
  is_redisPass :: string
  is_scoring :: scoring_config

text \<open>\<open>None\<close>: the process ends because the database is not set.\<close>

definition ingester_settings_of :: "(string \<Rightarrow> float64 option) \<Rightarrow> environment \<Rightarrow> ingester_settings option" where
  "ingester_settings_of exotic env =
     (if envStr env ''TIMESCALEDB_DSN'' [] = [] then None
      else Some \<lparr>
        is_brokers = parse_brokers (envStr env ''REDPANDA_BROKERS'' ''redpanda.platform.svc.cluster.local:9092''),
        is_dsn = envStr env ''TIMESCALEDB_DSN'' [],
        is_topic = envStr env ''KAFKA_TOPIC'' ''bot.metrics'',
        is_schemaRegistryURL = envStr env ''SCHEMA_REGISTRY_URL'' ''http://redpanda.platform.svc.cluster.local:8081'',
        is_redisAddr = envStr env ''REDIS_ADDR'' ''redis.platform.svc.cluster.local:6379'',
        is_redisPass = envStr env ''REDIS_PASSWORD'' [],
        is_scoring = \<lparr>maxAcceptableLatencyUS = envFloat exotic env ''MAX_LATENCY_US'' (Fin 50000),
          maxAcceptableTPS = envFloat exotic env ''MAX_TPS'' (Fin 1000)\<rparr>\<rparr>)"

section \<open>Creation and end\<close>

text \<open>
  \<open>NewIngester\<close>, over the rounds of its two connections: no result yet, an error, or the ingester, with what
  it has opened and closed.
\<close>

definition NewIngester :: "ping list \<Rightarrow> pg_round list \<Rightarrow> scoring_config \<Rightarrow> (string + Ingester) option \<times> process_action list" where
  "NewIngester pings rounds cfg =
     (case connectRedis 1 pings of
        None \<Rightarrow> (None, [Opened ''redis''])
      | Some (False, _) \<Rightarrow> (Some (Inl ''context''), [Opened ''redis'', Closed ''redis''])
      | Some (True, _) \<Rightarrow>
          (case connectPostgres 1 rounds of
             None \<Rightarrow> (None, [Opened ''redis''])
           | Some (False, _) \<Rightarrow> (Some (Inl ''context''), [Opened ''redis'', Closed ''redis''])
           | Some (True, _) \<Rightarrow>
               if config_refused cfg then (Some (Inl ''MAX_LATENCY_US must be > 0''), [Opened ''redis'', Opened ''db'', Opened ''ticker''])
               else (Some (Inr (ingester (ing_start cfg))), [Opened ''redis'', Opened ''db'', Opened ''ticker''])))"

text \<open>\<open>Close\<close>: the flush loop stops the ticker and flushes, then the connections are closed.\<close>

definition close_ingester :: "bool \<Rightarrow> flush_world \<Rightarrow> Ingester \<Rightarrow> Ingester \<times> process_action list" where
  "close_ingester lifecycle_done w i = (Close lifecycle_done w i, [Closed ''ticker'', Closed ''db'', Closed ''redis''])"

text \<open>
  An ingester that was created and closed leaves nothing open, and neither does one whose connections fail;
  one whose setting is refused leaves everything open (and the process ends).
\<close>

lemma NewIngester_brackets:
  assumes "NewIngester pings rounds cfg = (Some r, acts)"
  shows "(\<forall>i. r = Inr i \<longrightarrow> \<not> config_refused cfg \<and> config i = cfg \<and> eventBuffer i = [] \<and>
      bracketed [] (acts @ snd (close_ingester d w i))) \<and>
    (isl r \<longrightarrow> (bracketed [] acts \<longleftrightarrow> r \<noteq> Inl ''MAX_LATENCY_US must be > 0''))"
  using assms by (auto simp: NewIngester_def close_ingester_def ing_start_def split: option.splits prod.splits bool.splits if_splits)

text \<open>
  A record is committed before its event is written: when the loop has handled and committed a record, the
  event is in the buffer and not in the tables, and a process that dies before the next flush loses it.
\<close>

lemma committed_before_written:
  assumes "accept (kr_value r) = Some e"
  shows "Run_ingester accept (\<lambda>_. True) [] [\<lparr>p_done = False, p_errors = [], p_wait_done = False, p_records = [r]\<rparr>] = ([e], [r], False)"
    and "map fst (eventBuffer (ingester (ing_after cfg [Arrives stamp ok e]))) = [e]"
    and "telemetry_events (db (ingester (ing_after cfg [Arrives stamp ok e]))) = []"
  using assms Handle_fst[of stamp ok e "ingester (ing_start cfg)" "redis (ing_start cfg)"]
  by (auto simp: List.map_filter_def ing_after_def ing_start_def Let_def split: prod.splits)

section \<open>Whole numbers are read back\<close>

lemma digit_of_digit_char: "d < 10 \<Longrightarrow> digit_of (digit_char d) = Some d"
  by (simp add: digit_of_def digit_char_def of_char_of Let_def)

lemma digit_of_char: "48 \<le> (of_char c :: nat) \<Longrightarrow> (of_char c :: nat) \<le> 57 \<Longrightarrow> digit_of c = Some (of_char c - 48)"
  by (simp add: digit_of_def Let_def)

lemma digits_run_append:
  "digits_run v xs = (w, k, []) \<Longrightarrow> digits_run v (xs @ ys) = (let (w', k', r) = digits_run w ys in (w', k + k', r))"
  by (induction xs arbitrary: v w k) (auto split: option.splits prod.splits)

lemma digits_run_show_nat: "digits_run 0 (show_nat n) = (n, length (show_nat n), [])"
proof (induction n rule: show_nat.induct)
  case (1 n)
  show ?case
  proof (cases "n < 10")
    case True
    then show ?thesis by (simp add: show_nat.simps[of n] digit_of_digit_char)
  next
    case False
    then have "digits_run 0 (show_nat (n div 10)) = (n div 10, length (show_nat (n div 10)), [])" by (rule "1.IH")
    from digits_run_append[OF this] False show ?thesis
      by (simp add: show_nat.simps[of n] digit_of_digit_char)
  qed
qed

lemma show_nat_no_letters:
  "c \<in> set (show_nat n) \<Longrightarrow> c \<noteq> CHR ''_'' \<and> lower_char c = c \<and> c \<noteq> CHR ''x'' \<and> c \<noteq> CHR ''i'' \<and> c \<noteq> CHR ''n''"
  using show_nat_chars[of c n] by (auto simp: lower_char_def Let_def)

lemma split_sign_show_nat: "split_sign (show_nat n) = (False, False, show_nat n)"
  using show_nat_first[of n] by (auto simp: split_sign_def)

lemma float_word_show_nat: "float_word (show_nat n) = None"
proof -
  have m: "map lower_char (show_nat n) = show_nat n" using show_nat_no_letters by (auto intro: map_idI)
  obtain c cs where c: "show_nat n = c # cs" using show_nat_first by blast
  then have "c \<noteq> CHR ''i''" "c \<noteq> CHR ''n''" using show_nat_no_letters[of c n] by simp_all
  then have "show_nat n \<noteq> ''inf''" "show_nat n \<noteq> ''infinity''" "show_nat n \<noteq> ''nan''" using c by auto
  then show ?thesis using m by (simp add: float_word_def split_sign_show_nat)
qed

lemma ParseFloat_show_nat: "n \<le> 2 ^ 53 \<Longrightarrow> ParseFloat exotic (show_nat n) = Some (Fin (of_nat n))"
proof -
  assume n: "n \<le> 2 ^ 53"
  have "\<not> list_ex (\<lambda>c. c = CHR ''_'' \<or> lower_char c = CHR ''x'') (show_nat n)"
    using show_nat_no_letters by (fastforce simp: list_ex_iff)
  moreover have "rnd64 (of_nat n) = Fin (of_nat n)" using rnd64_int[of "int n"] n by simp
  moreover have "length (show_nat n) \<noteq> 0" using show_nat_neq_Nil by simp
  ultimately show ?thesis
    by (simp add: ParseFloat_def float_word_show_nat float_decimal_def split_sign_show_nat digits_run_show_nat
        float_exponent_def pow10_def Let_def show_nat_neq_Nil)
qed

text \<open>A word is read whatever its case.\<close>

lemma lower_char_plain: "lower_char CHR ''_'' = CHR ''_''" "lower_char CHR ''-'' = CHR ''-''" "lower_char CHR ''+'' = CHR ''+''"
  by code_simp+

lemma ParseFloat_nan:
  assumes "map lower_char s = ''nan''"
  shows "ParseFloat exotic s = Some NaN"
proof -
  obtain a b c where s: "s = [a, b, c]" and low: "lower_char a = CHR ''n''" "lower_char b = CHR ''a''" "lower_char c = CHR ''n''"
    using assms by (auto simp: map_eq_Cons_conv)
  then have plain: "a \<noteq> CHR ''_''" "b \<noteq> CHR ''_''" "c \<noteq> CHR ''_''" "a \<noteq> CHR ''-''" "a \<noteq> CHR ''+''"
    using lower_char_plain by auto
  then have sign: "split_sign s = (False, False, s)" by (simp add: split_sign_def s)
  have "float_word s = Some NaN" by (simp add: float_word_def sign Let_def assms)
  then show ?thesis by (simp add: ParseFloat_def s low plain)
qed

section \<open>Properties\<close>

text \<open>A whole number up to \<open>2 ^ 53\<close> in the environment is read back exactly, as are the two limits of
  the score from the settings; with the variable unset or unreadable the default holds.\<close>

lemma float_settings_roundtrip:
  assumes "n \<le> 2 ^ 53" "m \<le> 2 ^ 53" "env ''TIMESCALEDB_DSN'' \<noteq> []" "env ''MAX_LATENCY_US'' = show_nat n" "env ''MAX_TPS'' = show_nat m"
  shows "\<exists>st. ingester_settings_of exotic env = Some st \<and>
      is_scoring st = \<lparr>maxAcceptableLatencyUS = Fin (of_nat n), maxAcceptableTPS = Fin (of_nat m)\<rparr> \<and>
      (config_refused (is_scoring st) \<longleftrightarrow> n = 0)"
  using assms by (simp add: ingester_settings_of_def envFloat_def envStr_def ParseFloat_show_nat show_nat_neq_Nil
    config_refused_def fle_def feq_def)

text \<open>C35: A setting that empties the leaderboard. With \<open>MAX_LATENCY_US\<close> set to \<open>nan\<close>, in any case, the ingester
  starts, because no comparison with 0 refuses the limit; then every score it computes is NaN, the entry
  of no event can be marshalled, and after any run the leaderboard is as empty as at the start.\<close>

theorem nan_setting_empties_leaderboard:
  assumes "map lower_char (env ''MAX_LATENCY_US'') = ''nan''" "ingester_settings_of exotic env = Some st"
  shows "\<not> config_refused (is_scoring st) \<and> computeScore (is_scoring st) e = NaN \<and>
    redis (ing_after (is_scoring st) evs) =
      \<lparr>leaderboard = Map.empty, leaderboard_details = Map.empty, leaderboard_updates = []\<rparr>"
proof -
  let ?cfg = "is_scoring st"
  have "env ''MAX_LATENCY_US'' \<noteq> []" using assms(1) by auto
  then have nan: "maxAcceptableLatencyUS ?cfg = NaN"
    using assms ParseFloat_nan[OF assms(1)] by (auto simp: ingester_settings_of_def envFloat_def split: if_splits)
  note bad = accepted_config_nan_score[of ?cfg]
  have "config (ingester (ing_after ?cfg evs)) = ?cfg \<and> redis (ing_after ?cfg evs) =
      \<lparr>leaderboard = Map.empty, leaderboard_details = Map.empty, leaderboard_updates = []\<rparr>"
  proof (induction evs rule: rev_induct)
    case Nil
    show ?case by (simp add: ing_after_def ing_start_def)
  next
    case (snoc x evs)
    show ?case
    proof (cases x)
      case (Arrives stamp ok ev)
      have "updateLeaderboard stamp ok ev (computeScore ?cfg ev) b = (Some MarshalFailed, b)" for b
        using bad nan by blast
      with snoc show ?thesis unfolding ing_after_snoc Arrives ing_arrives by simp
    next
      case (FlushTick w)
      obtain i' r where f: "flush w (ingester (ing_after ?cfg evs)) = (i', r)" by (cases "flush w (ingester (ing_after ?cfg evs))") simp
      then have "config i' = config (ingester (ing_after ?cfg evs))" using flush_result by blast
      with snoc f show ?thesis unfolding ing_after_snoc FlushTick by (simp add: Let_def)
    qed
  qed
  then show ?thesis using bad nan by blast
qed

theorem nan_setting_empties_leaderboard_witness:
  "redis (ing_after (is_scoring (the (ingester_settings_of (\<lambda>_. None)
     ((\<lambda>_. [])(''TIMESCALEDB_DSN'' := ''db'', ''MAX_LATENCY_US'' := ''NaN''))))) []) =
     \<lparr>leaderboard = Map.empty, leaderboard_details = Map.empty, leaderboard_updates = []\<rparr>"
proof -
  let ?env = "(\<lambda>_. [])(''TIMESCALEDB_DSN'' := ''db'', ''MAX_LATENCY_US'' := ''NaN'')"
  have "map lower_char (?env ''MAX_LATENCY_US'') = ''nan''" by code_simp
  moreover obtain st where "ingester_settings_of (\<lambda>_. None) ?env = Some st"
    by (simp add: ingester_settings_of_def envStr_def)
  ultimately show ?thesis using nan_setting_empties_leaderboard[of ?env "\<lambda>_. None" st] by simp
qed

end
