(* ===== verification/SubmissionApi.thy ===== *)
theory SubmissionApi
  imports Lifecycle
begin

text \<open>
  The submission API (\<open>services/submission-api/handler.go\<close>): \<open>handleSubmitInit\<close>, \<open>handleConfirm\<close>, the
  map of pending submissions that they share, and confirmations that overlap. The object store that signs
  the upload URL, the source of the ids and the broker are parameters; a body that is not the JSON of
  a request is \<open>None\<close>.
\<close>

section \<open>Requests\<close>

definition allowedLanguages :: "string \<Rightarrow> bool" where
  "allowedLanguages lang \<longleftrightarrow> lang \<in> {''cpp'', ''rust'', ''go''}"

text \<open>\<open>^[A-Za-z0-9_-]+$\<close>\<close>

definition team_char :: "char \<Rightarrow> bool" where
  "team_char c = (let d = (of_char c :: nat) in 65 \<le> d \<and> d \<le> 90 \<or> 97 \<le> d \<and> d \<le> 122 \<or> 48 \<le> d \<and> d \<le> 57 \<or>
     c \<in> {CHR ''_'', CHR ''-''})"

definition teamNameRe :: "string \<Rightarrow> bool" where
  "teamNameRe s \<longleftrightarrow> s \<noteq> [] \<and> list_all team_char s"

definition maxTeamNameLen :: nat where
  "maxTeamNameLen = 64"

record pendingSubmit =
  ps_Language :: string
  ps_TeamName :: string

record SubmitInitRequest =
  ir_Language :: string
  ir_TeamName :: string

record SubmitInitResponse =
  si_SubmissionID :: string
  si_PresignedURL :: string
  si_ArtifactKey :: string
  si_ExpiresAt :: int

text \<open>An answer: a status with an error text, or one of the two answers with status 202.\<close>

datatype http_answer = Refused nat string | Initiated SubmitInitResponse | Confirmed string

type_synonym pending_map = "string \<rightharpoonup> pendingSubmit"

definition artifact_key :: "string \<Rightarrow> string" where
  "artifact_key submissionID = ''submissions/'' @ submissionID @ ''.tar.gz''"

definition handleSubmitInit :: "string \<Rightarrow> (string \<Rightarrow> string + string) \<Rightarrow> int \<Rightarrow> SubmitInitRequest option \<Rightarrow> pending_map \<Rightarrow>
    http_answer \<times> pending_map" where
  "handleSubmitInit submissionID presign unix_nano body pending =
     (case body of
        None \<Rightarrow> (Refused 400 ''invalid JSON'', pending)
      | Some req \<Rightarrow>
          if \<not> allowedLanguages (ir_Language req) then (Refused 400 ''unsupported language'', pending)
          else if ir_TeamName req = [] then (Refused 400 ''team_name required'', pending)
          else if length (ir_TeamName req) > maxTeamNameLen then (Refused 400 ''team_name too long'', pending)
          else if \<not> teamNameRe (ir_TeamName req) then (Refused 400 ''team_name contains invalid characters'', pending)
          else (case presign (artifact_key submissionID) of
                  Inl e \<Rightarrow> (Refused 500 ''internal error'', pending)
                | Inr url \<Rightarrow>
                    (Initiated \<lparr>si_SubmissionID = submissionID, si_PresignedURL = url,
                       si_ArtifactKey = artifact_key submissionID, si_ExpiresAt = (unix_nano + 900 * 10 ^ 9) div 10 ^ 9\<rparr>,
                     pending(submissionID \<mapsto> \<lparr>ps_Language = ir_Language req, ps_TeamName = ir_TeamName req\<rparr>))))"

section \<open>Confirmations\<close>

definition PublishSubmissionCreated :: "broker \<Rightarrow> int64 \<Rightarrow> string \<Rightarrow> string \<Rightarrow> string \<Rightarrow> string \<Rightarrow>
    LifecycleEvent \<times> publish_error option" where
  "PublishSubmissionCreated br at_time submissionID language teamName artifactPath =
     (let event = SubmissionCreated submissionID language teamName artifactPath at_time in (event, publish br submissionID event))"

text \<open>
  The handler of one confirmation, in the steps between which others may run: the lookup, the
  publication, the deletion. The topic has its newest event first.
\<close>

datatype confirm_pc = Arrived string | Loaded string pendingSubmit | Sent string pendingSubmit | Answered http_answer

fun confirm_step :: "broker \<Rightarrow> int64 \<Rightarrow> confirm_pc \<Rightarrow> pending_map \<times> LifecycleEvent list \<Rightarrow>
    confirm_pc \<times> pending_map \<times> LifecycleEvent list" where
  "confirm_step br t (Arrived submissionID) (pending, topic) =
     (if submissionID = [] then (Answered (Refused 400 ''submission_id required''), pending, topic)
      else case pending submissionID of
        None \<Rightarrow> (Answered (Refused 404 ''submission not found or expired''), pending, topic)
      | Some p \<Rightarrow> (Loaded submissionID p, pending, topic))"
| "confirm_step br t (Loaded submissionID p) (pending, topic) =
     (let (event, e) = PublishSubmissionCreated br t submissionID (ps_Language p) (ps_TeamName p) (artifact_key submissionID)
      in if e = None then (Sent submissionID p, pending, event # topic)
         else (Answered (Refused 500 ''internal error''), pending, topic))"
| "confirm_step br t (Sent submissionID p) (pending, topic) =
     (Answered (Confirmed submissionID), pending(submissionID := None), topic)"
| "confirm_step br t (Answered a) st = (Answered a, st)"

text \<open>The whole handler, when nothing comes in between.\<close>

definition handleConfirm :: "broker \<Rightarrow> int64 \<Rightarrow> string \<Rightarrow> pending_map \<times> LifecycleEvent list \<Rightarrow>
    http_answer \<times> pending_map \<times> LifecycleEvent list" where
  "handleConfirm br t submissionID st =
     (let (pc, st) = confirm_step br t (Arrived submissionID) st;
          (pc, st) = confirm_step br t pc st;
          (pc, st) = confirm_step br t pc st
      in case pc of Answered a \<Rightarrow> (a, st) | _ \<Rightarrow> (Refused 500 [], st))"

section \<open>The service\<close>

text \<open>
  The handler's map, the topic, the confirmations under way, and the ids that were drawn. An id is what
  \<open>uuid.New\<close> gives as text, and none is given twice: its 122 random bits are taken to be fresh.
\<close>

definition uuid_char :: "char \<Rightarrow> bool" where
  "uuid_char c = (let d = (of_char c :: nat) in 48 \<le> d \<and> d \<le> 57 \<or> 97 \<le> d \<and> d \<le> 102 \<or> c = CHR ''-'')"

definition uuid_text :: "string \<Rightarrow> bool" where
  "uuid_text s \<longleftrightarrow> length s = 36 \<and> list_all uuid_char s"

record api =
  pending :: pending_map
  topic :: "LifecycleEvent list"
  confirms :: "confirm_pc list"
  drawn :: "string set"

definition api_start :: api where
  "api_start = \<lparr>pending = Map.empty, topic = [], confirms = [], drawn = {}\<rparr>"

inductive api_step :: "api \<Rightarrow> api \<Rightarrow> bool" where
  submit: "uuid_text u \<Longrightarrow> u \<notin> drawn a \<Longrightarrow> handleSubmitInit u presign t body (pending a) = (answer, ps) \<Longrightarrow>
    api_step a (a\<lparr>pending := ps, drawn := insert u (drawn a)\<rparr>)"
| arrive: "api_step a (a\<lparr>confirms := confirms a @ [Arrived submissionID]\<rparr>)"
| confirm: "i < length (confirms a) \<Longrightarrow> confirm_step br t (confirms a ! i) (pending a, topic a) = (pc, ps, tp) \<Longrightarrow>
    api_step a (a\<lparr>pending := ps, topic := tp, confirms := (confirms a)[i := pc]\<rparr>)"

section \<open>The invariant\<close>

definition valid_pending :: "string \<Rightarrow> pendingSubmit \<Rightarrow> bool" where
  "valid_pending u p \<longleftrightarrow> uuid_text u \<and> allowedLanguages (ps_Language p) \<and> teamNameRe (ps_TeamName p) \<and>
     length (ps_TeamName p) \<le> 64"

definition valid_pc :: "confirm_pc \<Rightarrow> bool" where
  "valid_pc pc = (case pc of Loaded u p \<Rightarrow> valid_pending u p | Sent u p \<Rightarrow> valid_pending u p | _ \<Rightarrow> True)"

text \<open>What every \<open>submission.created\<close> carries.\<close>

definition valid_created :: "LifecycleEvent \<Rightarrow> bool" where
  "valid_created e = (case e of SubmissionCreated u lang team path t \<Rightarrow>
     valid_pending u \<lparr>ps_Language = lang, ps_TeamName = team\<rparr> \<and> path = artifact_key u | _ \<Rightarrow> True)"

definition api_ok :: "api \<Rightarrow> bool" where
  "api_ok a \<longleftrightarrow> (\<forall>u p. pending a u = Some p \<longrightarrow> valid_pending u p) \<and> list_all valid_pc (confirms a) \<and>
     list_all valid_created (topic a)"

lemma submit_pending:
  assumes "handleSubmitInit u presign t body ps = (answer, ps')"
  shows "ps' = ps \<or> (\<exists>p. ps' = ps(u \<mapsto> p) \<and> (uuid_text u \<longrightarrow> valid_pending u p))"
  using assms by (auto simp: handleSubmitInit_def valid_pending_def maxTeamNameLen_def split: option.splits sum.splits if_splits)

lemma confirm_step_ok:
  assumes "confirm_step br t pc (ps, tp) = (pc', ps', tp')" "\<forall>u p. ps u = Some p \<longrightarrow> valid_pending u p" "valid_pc pc"
  shows "(\<forall>u p. ps' u = Some p \<longrightarrow> valid_pending u p) \<and> valid_pc pc' \<and>
    (tp' = tp \<or> (\<exists>e. tp' = e # tp \<and> valid_created e \<and> (\<exists>u l tn p d. e = SubmissionCreated u l tn p d)))"
  using assms
  by (cases pc) (auto simp: valid_pc_def valid_created_def PublishSubmissionCreated_def valid_pending_def Let_def
    split: if_splits option.splits)

lemma list_all_update: "list_all P xs \<Longrightarrow> P y \<Longrightarrow> list_all P (xs[i := y])"
  using set_update_subset_insert[of xs i y] by (auto simp: list_all_iff)

lemma api_ok_step: "api_step a b \<Longrightarrow> api_ok a \<Longrightarrow> api_ok b"
proof (induction rule: api_step.induct)
  case (submit u presign t body a answer ps)
  then show ?case using submit_pending[OF submit(3)] by (auto simp: api_ok_def split: if_splits)
next
  case (arrive a submissionID)
  then show ?case by (simp add: api_ok_def valid_pc_def)
next
  case (confirm i a br t pc ps tp)
  have "valid_pc (confirms a ! i)" using confirm by (simp add: api_ok_def list_all_length)
  with confirm_step_ok[OF confirm(2)] confirm show ?case
    by (auto simp: api_ok_def list_all_update)
qed

inductive api_reachable :: "api \<Rightarrow> bool" where
  start: "api_reachable api_start"
| step: "api_reachable a \<Longrightarrow> api_step a b \<Longrightarrow> api_reachable b"

lemma api_reachable_ok: "api_reachable a \<Longrightarrow> api_ok a"
proof (induction rule: api_reachable.induct)
  case start
  then show ?case by (simp add: api_ok_def api_start_def)
qed (rule api_ok_step)

text \<open>
  The runs in which a confirmation is answered before the next request is looked at: whole requests, one
  after the other. They are runs of the service.
\<close>

inductive serial_reachable :: "api \<Rightarrow> bool" where
  start: "serial_reachable api_start"
| submit: "serial_reachable a \<Longrightarrow> uuid_text u \<Longrightarrow> u \<notin> drawn a \<Longrightarrow>
    handleSubmitInit u presign t body (pending a) = (answer, ps) \<Longrightarrow>
    serial_reachable (a\<lparr>pending := ps, drawn := insert u (drawn a)\<rparr>)"
| confirm: "serial_reachable a \<Longrightarrow> handleConfirm br t submissionID (pending a, topic a) = (answer, ps, tp) \<Longrightarrow>
    serial_reachable (a\<lparr>pending := ps, topic := tp, confirms := confirms a @ [Answered answer]\<rparr>)"

lemma api_reachable_confirm:
  assumes "api_reachable (a\<lparr>confirms := cs @ [pc]\<rparr>)" "confirm_step br t pc (pending a, topic a) = (pc', ps, tp)"
  shows "api_reachable (a\<lparr>pending := ps, topic := tp, confirms := cs @ [pc']\<rparr>)"
  using api_reachable.step[OF assms(1) api_step.confirm[where i = "length cs" and br = br and t = t]] assms(2) by simp

lemma confirm_answered: "\<exists>pc1 st1 pc2 st2 a. confirm_step br t (Arrived u) st = (pc1, st1) \<and> confirm_step br t pc1 st1 = (pc2, st2) \<and>
      confirm_step br t pc2 st2 = (Answered a, snd (handleConfirm br t u st)) \<and> a = fst (handleConfirm br t u st)"
  by (cases st) (auto simp: handleConfirm_def PublishSubmissionCreated_def Let_def split: option.splits)

lemma serial_api: "serial_reachable a \<Longrightarrow> api_reachable a"
proof (induction rule: serial_reachable.induct)
  case start
  show ?case by (rule api_reachable.start)
next
  case (submit a u presign t body answer ps)
  then show ?case using api_reachable.step api_step.submit by blast
next
  case (confirm a br t submissionID answer ps tp)
  obtain pc1 ps1 tp1 pc2 ps2 tp2 where c: "confirm_step br t (Arrived submissionID) (pending a, topic a) = (pc1, ps1, tp1)"
    "confirm_step br t pc1 (ps1, tp1) = (pc2, ps2, tp2)" "confirm_step br t pc2 (ps2, tp2) = (Answered answer, ps, tp)"
    using confirm_answered[of br t submissionID "(pending a, topic a)"] confirm(2) by (metis fst_conv snd_conv surj_pair)
  have "api_reachable (a\<lparr>confirms := confirms a @ [Arrived submissionID]\<rparr>)"
    by (rule api_reachable.step[OF confirm(3) api_step.arrive])
  from api_reachable_confirm[OF this c(1)]
  have "api_reachable (a\<lparr>pending := ps1, topic := tp1, confirms := confirms a @ [pc1]\<rparr>)" .
  from api_reachable_confirm[where a = "a\<lparr>pending := ps1, topic := tp1\<rparr>" and cs = "confirms a" and pc = pc1] this c(2)
  have "api_reachable (a\<lparr>pending := ps2, topic := tp2, confirms := confirms a @ [pc2]\<rparr>)" by simp
  from api_reachable_confirm[where a = "a\<lparr>pending := ps2, topic := tp2\<rparr>" and cs = "confirms a" and pc = pc2] this c(3)
  show ?case by simp
qed

section \<open>Properties\<close>

definition well_formed :: "SubmitInitRequest option \<Rightarrow> bool" where
  "well_formed body = (case body of None \<Rightarrow> False
     | Some req \<Rightarrow> allowedLanguages (ir_Language req) \<and> teamNameRe (ir_TeamName req) \<and> length (ir_TeamName req) \<le> 64)"

text \<open>A submission is initiated exactly when the body is a request for a known language with a team
  name of 1 to 64 characters of the alphabet, and the upload could be signed; the answer then names the
  key of the artifact and an expiry 15 minutes ahead, and the submission is pending. Every other request
  leaves the pending submissions alone, and is the client's fault (400) unless only the signing failed.\<close>

lemma submit_init_checks:
  "((\<exists>r. fst (handleSubmitInit u presign t body ps) = Initiated r) \<longleftrightarrow> well_formed body \<and> (\<exists>url. presign (artifact_key u) = Inr url)) \<and>
   ((\<exists>e. fst (handleSubmitInit u presign t body ps) = Refused 400 e) \<longleftrightarrow> \<not> well_formed body) \<and>
   ((\<exists>e. fst (handleSubmitInit u presign t body ps) = Refused 500 e) \<longleftrightarrow> well_formed body \<and> isl (presign (artifact_key u))) \<and>
   snd (handleSubmitInit u presign t body ps) =
     (if well_formed body \<and> \<not> isl (presign (artifact_key u))
      then ps(u \<mapsto> \<lparr>ps_Language = ir_Language (the body), ps_TeamName = ir_TeamName (the body)\<rparr>) else ps) \<and>
   (well_formed body \<and> presign (artifact_key u) = Inr url \<longrightarrow> fst (handleSubmitInit u presign t body ps) =
      Initiated \<lparr>si_SubmissionID = u, si_PresignedURL = url, si_ArtifactKey = artifact_key u, si_ExpiresAt = t div 10 ^ 9 + 900\<rparr>)"
  by (cases body; cases "presign (artifact_key u)")
    (auto simp: handleSubmitInit_def maxTeamNameLen_def teamNameRe_def well_formed_def)

text \<open>A confirmation that no other one overlaps. It publishes the language and the team of the
  pending submission and the key of its artifact, forgets the submission only after that succeeded, and
  publishes nothing in the other cases; a second confirmation is answered with 404 and publishes nothing.\<close>

lemma confirm_answers:
  "handleConfirm br t u (ps, tp) =
     (if u = [] then (Refused 400 ''submission_id required'', ps, tp)
      else case ps u of None \<Rightarrow> (Refused 404 ''submission not found or expired'', ps, tp)
      | Some p \<Rightarrow>
          let event = SubmissionCreated u (ps_Language p) (ps_TeamName p) (artifact_key u) t
          in if publish br u event = None then (Confirmed u, ps(u := None), event # tp)
             else (Refused 500 ''internal error'', ps, tp)) \<and>
   (fst (handleConfirm br t u (ps, tp)) = Confirmed v \<longrightarrow>
      handleConfirm br' t' u (snd (handleConfirm br t u (ps, tp))) =
        (Refused 404 ''submission not found or expired'', snd (handleConfirm br t u (ps, tp))))"
  by (auto simp: handleConfirm_def PublishSubmissionCreated_def Let_def split: option.splits)

definition demo_uuid :: string where
  "demo_uuid = replicate 36 (CHR ''a'')"

definition demo_pending :: pendingSubmit where
  "demo_pending = \<lparr>ps_Language = ''go'', ps_TeamName = ''team''\<rparr>"

text \<open>The run of two confirmations of one submission, step by step.\<close>

definition demo_created :: LifecycleEvent where
  "demo_created = SubmissionCreated demo_uuid ''go'' ''team'' (artifact_key demo_uuid) 0"

definition demo_api :: api where
  "demo_api = \<lparr>pending = [demo_uuid \<mapsto> demo_pending], topic = [demo_created, demo_created],
     confirms = [Sent demo_uuid demo_pending, Sent demo_uuid demo_pending], drawn = {demo_uuid}\<rparr>"

lemma demo_submit:
  "handleSubmitInit demo_uuid (\<lambda>k. Inr ''url'') 0 (Some \<lparr>ir_Language = ''go'', ir_TeamName = ''team''\<rparr>) (pending api_start) =
    (Initiated \<lparr>si_SubmissionID = demo_uuid, si_PresignedURL = ''url'', si_ArtifactKey = artifact_key demo_uuid,
       si_ExpiresAt = 900\<rparr>, [demo_uuid \<mapsto> demo_pending])"
  by (simp add: handleSubmitInit_def allowedLanguages_def teamNameRe_def team_char_def maxTeamNameLen_def api_start_def
      demo_pending_def)

lemma double_confirm_run: "api_reachable demo_api"
proof -
  let ?e = "SubmissionCreated demo_uuid ''go'' ''team'' (artifact_key demo_uuid) 0"
  have ne: "demo_uuid \<noteq> []" by (simp add: demo_uuid_def)
  have ok: "publish open_broker u (SubmissionCreated b c d f g) = None" for u b c d f g
    by (simp add: publish_def open_broker_def)
  note demo_submit
  moreover have "uuid_text demo_uuid" by code_simp
  ultimately have "api_reachable \<lparr>pending = [demo_uuid \<mapsto> demo_pending], topic = [], confirms = [], drawn = {demo_uuid}\<rparr>"
    using api_reachable.step[OF api_reachable.start api_step.submit] by (fastforce simp: api_start_def)
  from api_reachable.step[OF this api_step.arrive[where submissionID = demo_uuid]]
  have "api_reachable \<lparr>pending = [demo_uuid \<mapsto> demo_pending], topic = [], confirms = [Arrived demo_uuid], drawn = {demo_uuid}\<rparr>" by simp
  from api_reachable.step[OF this api_step.arrive[where submissionID = demo_uuid]]
  have "api_reachable \<lparr>pending = [demo_uuid \<mapsto> demo_pending], topic = [], confirms = [Arrived demo_uuid, Arrived demo_uuid], drawn = {demo_uuid}\<rparr>" by simp
  from api_reachable.step[OF this api_step.confirm[where i = 0 and br = open_broker and t = 0]] ne
  have "api_reachable \<lparr>pending = [demo_uuid \<mapsto> demo_pending], topic = [],
    confirms = [Loaded demo_uuid demo_pending, Arrived demo_uuid], drawn = {demo_uuid}\<rparr>" by simp
  from api_reachable.step[OF this api_step.confirm[where i = 1 and br = open_broker and t = 0]] ne
  have "api_reachable \<lparr>pending = [demo_uuid \<mapsto> demo_pending], topic = [],
    confirms = [Loaded demo_uuid demo_pending, Loaded demo_uuid demo_pending], drawn = {demo_uuid}\<rparr>" by simp
  from api_reachable.step[OF this api_step.confirm[where i = 0 and br = open_broker and t = 0]] ok
  have "api_reachable \<lparr>pending = [demo_uuid \<mapsto> demo_pending], topic = [?e],
    confirms = [Sent demo_uuid demo_pending, Loaded demo_uuid demo_pending], drawn = {demo_uuid}\<rparr>"
    by (simp add: PublishSubmissionCreated_def demo_pending_def)
  from api_reachable.step[OF this api_step.confirm[where i = 1 and br = open_broker and t = 0]] ok
  have "api_reachable \<lparr>pending = [demo_uuid \<mapsto> demo_pending], topic = [?e, ?e],
    confirms = [Sent demo_uuid demo_pending, Sent demo_uuid demo_pending], drawn = {demo_uuid}\<rparr>"
    by (simp add: PublishSubmissionCreated_def demo_pending_def)
  then show ?thesis by (simp add: demo_created_def demo_api_def)
qed

text \<open>Without overlap the ids on the topic and the pending ones are apart.\<close>

lemma handleConfirm_effect:
  assumes "handleConfirm br t u (ps, tp) = (answer, ps', tp')"
  shows "(ps', tp') = (ps, tp) \<or> (\<exists>p e. ps u = Some p \<and> ps' = ps(u := None) \<and> tp' = e # tp \<and> sc_SubmissionId e = u)"
  using assms confirm_answers[of br t u ps tp] by (auto simp: Let_def split: option.splits if_splits)

lemma fresh_disjoint:
  fixes D :: "'a set"
  shows "D' \<subseteq> insert u D \<Longrightarrow> u \<notin> U \<Longrightarrow> I \<inter> D = {} \<Longrightarrow> I \<union> D \<subseteq> U \<Longrightarrow>
    I \<inter> D' = {} \<and> I \<union> D' \<subseteq> insert u U"
  by blast

lemma used_apart:
  fixes D :: "'a set"
  shows "u \<in> D \<Longrightarrow> I \<inter> D = {} \<Longrightarrow> I \<union> D \<subseteq> U \<Longrightarrow> insert u I \<inter> (D - {u}) = {} \<and> insert u I \<union> (D - {u}) \<subseteq> U"
  by blast

lemma serial_once:
  "serial_reachable a \<Longrightarrow> distinct (map sc_SubmissionId (topic a)) \<and>
    sc_SubmissionId ` set (topic a) \<inter> dom (pending a) = {} \<and> sc_SubmissionId ` set (topic a) \<union> dom (pending a) \<subseteq> drawn a"
proof (induction rule: serial_reachable.induct)
  case start
  show ?case by (simp add: api_start_def)
next
  case (submit a u presign t body answer ps)
  from submit_pending[OF submit(4)] have "dom ps \<subseteq> insert u (dom (pending a))" by auto
  with submit(3,5) fresh_disjoint[of "dom ps" u "dom (pending a)" "drawn a" "sc_SubmissionId ` set (topic a)"]
  show ?case by simp
next
  case (confirm a br t u answer ps tp)
  from handleConfirm_effect[OF confirm(2)] show ?case
  proof
    assume "(ps, tp) = (pending a, topic a)"
    with confirm(3) show ?thesis by simp
  next
    assume "\<exists>p e. pending a u = Some p \<and> ps = (pending a)(u := None) \<and> tp = e # topic a \<and> sc_SubmissionId e = u"
    then obtain p e where e: "pending a u = Some p" "ps = (pending a)(u := None)" "tp = e # topic a" "sc_SubmissionId e = u"
      by blast
    then have u: "u \<in> dom (pending a)" and ids: "sc_SubmissionId ` set tp = insert u (sc_SubmissionId ` set (topic a))"
      "dom ps = dom (pending a) - {u}" by auto
    then have "u \<notin> sc_SubmissionId ` set (topic a)" using confirm(3) by blast
    with used_apart[OF u, of "sc_SubmissionId ` set (topic a)" "drawn a"] confirm(3) ids e(3,4) show ?thesis by simp
  qed
qed

text \<open>C31: Two confirmations of a submission publish it twice when they overlap, and only then. There is a
  run in which both find it pending before either has deleted it; the topic then has the event twice, and
  every consumer of \<open>submission.created\<close> handles it twice. In every run in which each request is answered
  before the next one is looked at, however often a submission is confirmed, the topic has at most one
  event for it. (A publication that reports an error is taken to have put nothing on the topic.)\<close>

theorem double_confirm_publishes_twice:
  "(\<exists>a. api_reachable a \<and> topic a = [demo_created, demo_created]) \<and>
   (serial_reachable b \<longrightarrow> api_reachable b \<and> distinct (map sc_SubmissionId (topic b)))"
  using double_confirm_run serial_api serial_once[of b] by (auto intro!: exI[of _ demo_api] simp: demo_api_def)

text \<open>One submission, confirmed twice, one confirmation after the other.\<close>

definition twice_in_a_row :: api where
  "twice_in_a_row = \<lparr>pending = Map.empty, topic = [demo_created],
     confirms = [Answered (Confirmed demo_uuid), Answered (Refused 404 ''submission not found or expired'')], drawn = {demo_uuid}\<rparr>"

lemma twice_in_a_row_run: "serial_reachable twice_in_a_row"
proof -
  have ne: "demo_uuid \<noteq> []" by (simp add: demo_uuid_def)
  have ok: "publish open_broker u (SubmissionCreated b c d f g) = None" for u b c d f g
    by (simp add: publish_def open_broker_def)
  have "uuid_text demo_uuid" by code_simp
  from serial_reachable.submit[OF serial_reachable.start this _ demo_submit]
  have "serial_reachable \<lparr>pending = [demo_uuid \<mapsto> demo_pending], topic = [], confirms = [], drawn = {demo_uuid}\<rparr>"
    by (simp add: api_start_def)
  from serial_reachable.confirm[OF this, of open_broker 0 demo_uuid] ne ok
  have "serial_reachable \<lparr>pending = Map.empty, topic = [demo_created], confirms = [Answered (Confirmed demo_uuid)], drawn = {demo_uuid}\<rparr>"
    by (simp add: handleConfirm_def PublishSubmissionCreated_def demo_pending_def demo_created_def)
  from serial_reachable.confirm[OF this, of open_broker 0 demo_uuid] ne
  show ?thesis by (simp add: handleConfirm_def twice_in_a_row_def)
qed

theorem double_confirm_publishes_twice_witness:
  "length (confirms twice_in_a_row) = 2 \<and> api_reachable twice_in_a_row \<and> distinct (map sc_SubmissionId (topic twice_in_a_row))"
  using double_confirm_publishes_twice[of twice_in_a_row] twice_in_a_row_run by (simp add: twice_in_a_row_def)

end
