(* ===== verification/BotSequences.thy ===== *)
theory BotSequences
  imports Float64 StubSession
begin

text \<open>
  The scripted order sequences of the bot runner (\<open>services/bot-runner/sequence.go\<close>): the steps
  of the load bots, the steps with assertions of the correctness bot, the order ids and the
  price band of each bot. The price of a band is converted to \<open>float64\<close>, with its rounding; it is exact for
  fewer than a million million bots.
\<close>

datatype StepKind = StepOrder | StepCancel

record Step =
  Kind :: StepKind
  step_Side :: string
  step_OrderType :: string
  step_Price :: price
  step_Quantity :: int64
  Tag :: string
  CancelTag :: string
  ExpectFill :: bool
  ExpectFillPrice :: price
  ExpectFillQty :: int64
  ExpectReject :: bool
  ExpectBookBids :: int
  ExpectBookAsks :: int

record Sequence =
  Name :: string
  Steps :: "Step list"

text \<open>The zero value a composite literal starts from.\<close>

definition step0 :: Step where
  "step0 = \<lparr>Kind = StepOrder, step_Side = [], step_OrderType = [], step_Price = 0, step_Quantity = 0,
            Tag = [], CancelTag = [], ExpectFill = False, ExpectFillPrice = 0, ExpectFillQty = 0,
            ExpectReject = False, ExpectBookBids = 0, ExpectBookAsks = 0\<rparr>"

definition orderID :: "int \<Rightarrow> int \<Rightarrow> string \<Rightarrow> string" where
  "orderID botID iteration tag = ''b'' @ show_int botID @ ''-i'' @ show_int iteration @ ''-'' @ tag"

definition basePrice :: "int \<Rightarrow> price" where
  "basePrice botID = fval (of_int64 (i64 (i64 (botID + 1) * 1000)))"

text \<open>The prices of the ladder: a double less a constant.\<close>

definition below :: "price \<Rightarrow> int \<Rightarrow> price" where
  "below p d = fval (fsub (Fin p) (of_int64 d))"

section \<open>Load sequences\<close>

definition order_step :: "string \<Rightarrow> string \<Rightarrow> string \<Rightarrow> price \<Rightarrow> int64 \<Rightarrow> Step" where
  "order_step tag side otype p q =
     step0\<lparr>Kind := StepOrder, Tag := tag, step_Side := side, step_OrderType := otype, step_Price := p,
           step_Quantity := q\<rparr>"

definition cancel_step :: "string \<Rightarrow> Step" where
  "cancel_step tag = step0\<lparr>Kind := StepCancel, CancelTag := tag\<rparr>"

definition basicMatch :: "int \<Rightarrow> Sequence" where
  "basicMatch botID = (let p = basePrice botID in
     \<lparr>Name = ''basic_match'',
      Steps = [order_step ''bid1'' ''buy'' ''limit'' p 10, order_step ''ask1'' ''sell'' ''limit'' p 10]\<rparr>)"

definition partialFillLadder :: "int \<Rightarrow> Sequence" where
  "partialFillLadder botID = (let p = basePrice botID in
     \<lparr>Name = ''partial_fill_ladder'',
      Steps = [order_step ''bid-0'' ''buy'' ''limit'' p 5, order_step ''bid-1'' ''buy'' ''limit'' (below p 1) 5,
               order_step ''bid-2'' ''buy'' ''limit'' (below p 2) 5, order_step ''sweep'' ''sell'' ''market'' 0 15]\<rparr>)"

definition cancelCorrectness :: "int \<Rightarrow> Sequence" where
  "cancelCorrectness botID = (let p = basePrice botID in
     \<lparr>Name = ''cancel_correctness'',
      Steps = [order_step ''resting'' ''buy'' ''limit'' p 10, cancel_step ''resting'',
               order_step ''probe'' ''sell'' ''limit'' p 10, cancel_step ''probe'']\<rparr>)"

definition sequences :: "int \<Rightarrow> Sequence list" where
  "sequences botID = [basicMatch botID, partialFillLadder botID, cancelCorrectness botID]"

section \<open>Correctness sequences\<close>

definition correctnessBasePrice :: price where
  "correctnessBasePrice = 500"

text \<open>What a step expects of the snapshot after it; \<open>-1\<close> is not checked.\<close>

definition expect_book :: "int \<Rightarrow> int \<Rightarrow> Step \<Rightarrow> Step" where
  "expect_book b a s = s\<lparr>ExpectBookBids := b, ExpectBookAsks := a\<rparr>"

definition expect_fill :: "price \<Rightarrow> int64 \<Rightarrow> Step \<Rightarrow> Step" where
  "expect_fill p q s = s\<lparr>ExpectFill := True, ExpectFillPrice := p, ExpectFillQty := q\<rparr>"

definition cxBasicMatch :: Sequence where
  "cxBasicMatch = (let p = correctnessBasePrice in
     \<lparr>Name = ''cx_basic_match'',
      Steps = [expect_book 1 (- 1) (order_step ''bid'' ''buy'' ''limit'' p 10),
               expect_book 0 0 (expect_fill p 10 (order_step ''ask'' ''sell'' ''limit'' p 10))]\<rparr>)"

definition cxPriorityFill :: Sequence where
  "cxPriorityFill = (let p = correctnessBasePrice in
     \<lparr>Name = ''cx_priority_fill'',
      Steps = [expect_book 1 (- 1) (order_step ''bid-lo'' ''buy'' ''limit'' p 5),
               expect_book 2 (- 1) (order_step ''bid-hi'' ''buy'' ''limit'' (p + 1) 5),
               expect_book 0 0 (expect_fill (p + 1) 0 (order_step ''sell'' ''sell'' ''limit'' p 10))]\<rparr>)"

definition cxPartialFill :: Sequence where
  "cxPartialFill = (let p = correctnessBasePrice + 10 in
     \<lparr>Name = ''cx_partial_fill'',
      Steps = [expect_book 1 (- 1) (order_step ''bid'' ''buy'' ''limit'' p 10),
               expect_book 1 0 (expect_fill p 3 (order_step ''ask'' ''sell'' ''limit'' p 3)),
               expect_book 0 0 (cancel_step ''bid'')]\<rparr>)"

definition cxCancel :: Sequence where
  "cxCancel = (let p = correctnessBasePrice + 20 in
     \<lparr>Name = ''cx_cancel'',
      Steps = [expect_book 1 (- 1) (order_step ''bid'' ''buy'' ''limit'' p 10),
               expect_book 0 0 (cancel_step ''bid''),
               expect_book 0 1 (order_step ''ask'' ''sell'' ''limit'' p 10),
               expect_book 0 0 (cancel_step ''ask'')]\<rparr>)"

definition cxRejectMarketNoLiquidity :: Sequence where
  "cxRejectMarketNoLiquidity =
     \<lparr>Name = ''cx_reject_market_no_liquidity'',
      Steps = [expect_book 0 0 ((order_step ''mkt'' ''sell'' ''market'' 0 10)\<lparr>ExpectReject := True\<rparr>)]\<rparr>"

definition CorrectnessSequences :: "Sequence list" where
  "CorrectnessSequences =
     [cxBasicMatch, cxPriorityFill, cxPartialFill, cxCancel, cxRejectMarketNoLiquidity]"

section \<open>Order ids\<close>

lemma show_nat_digits: "\<forall>c \<in> set (show_nat n). c \<noteq> CHR ''-''"
proof
  fix c assume "c \<in> set (show_nat n)"
  from show_nat_chars[OF this] show "c \<noteq> CHR ''-''" by auto
qed

text \<open>The first hyphen ends a number: two ids with the same text have the same numbers.\<close>

lemma show_nat_hyphen:
  assumes "show_nat m @ CHR ''-'' # xs = show_nat n @ CHR ''-'' # ys"
  shows "m = n \<and> xs = ys"
proof -
  have t: "takeWhile (\<lambda>c. c \<noteq> CHR ''-'') (show_nat k @ CHR ''-'' # zs) = show_nat k" for k zs
    using takeWhile_append2[of "show_nat k" "\<lambda>c. c \<noteq> CHR ''-''" "CHR ''-'' # zs"] show_nat_digits[of k]
    by auto
  have "show_nat m = show_nat n" using arg_cong[OF assms, of "takeWhile (\<lambda>c. c \<noteq> CHR ''-'')"] unfolding t .
  with assms show ?thesis using show_nat_inj by auto
qed

lemma orderID_inj:
  assumes "0 \<le> b" "0 \<le> i" "0 \<le> b'" "0 \<le> i'" "orderID b i tag = orderID b' i' tag'"
  shows "b = b' \<and> i = i' \<and> tag = tag'"
proof -
  have 1: "show_nat (nat b) @ CHR ''-'' # CHR ''i'' # show_nat (nat i) @ CHR ''-'' # tag =
      show_nat (nat b') @ CHR ''-'' # CHR ''i'' # show_nat (nat i') @ CHR ''-'' # tag'"
    using assms by (simp add: orderID_def show_int_def)
  have 2: "show_nat (nat i) @ CHR ''-'' # tag = show_nat (nat i') @ CHR ''-'' # tag'"
    using show_nat_hyphen[OF 1] by simp
  show ?thesis using show_nat_hyphen[OF 1] show_nat_hyphen[OF 2] assms by auto
qed

lemma show_nat_id_chars: "list_all id_char (show_nat n)"
proof -
  have "id_char c" if "c \<in> set (show_nat n)" for c
    using show_nat_chars[OF that] by (simp add: id_char_def Let_def)
  then show ?thesis by (simp add: list_all_iff)
qed

lemma show_nat_length: "n < 10 ^ k \<Longrightarrow> 0 < k \<Longrightarrow> length (show_nat n) \<le> k"
proof (induction k arbitrary: n)
  case (Suc k)
  show ?case
  proof (cases "n < 10")
    case True
    then show ?thesis by (subst show_nat.simps) simp
  next
    case False
    then have "n div 10 < 10 ^ k" "0 < k" using Suc.prems(1) by (auto simp: div_less_iff_less_mult intro: Nat.gr0I)
    from Suc.IH[OF this] False show ?thesis by (subst show_nat.simps) simp
  qed
qed simp

lemma orderID_accepted:
  assumes "0 \<le> b" "b < 2 ^ 63" "0 \<le> i" "i < 2 ^ 63" "list_all id_char tag" "length tag \<le> 20"
  shows "orderIDRegex (orderID b i tag) \<and> length (orderID b i tag) \<le> 64"
proof -
  have "nat b < 10 ^ 19" "nat i < 10 ^ 19" using assms by (simp_all add: nat_less_iff)
  then have "length (show_nat (nat b)) \<le> 19" "length (show_nat (nat i)) \<le> 19"
    by (simp_all add: show_nat_length)
  then show ?thesis
    using assms show_nat_id_chars by (simp add: orderID_def show_int_def orderIDRegex_def) (simp add: id_char_def)
qed

section \<open>Price bands\<close>

definition step_prices :: "Sequence \<Rightarrow> price set" where
  "step_prices seq = step_Price ` {s \<in> set (Steps seq). Kind s = StepOrder \<and> step_OrderType s = ''limit''}"

lemma basePrice_exact: "0 \<le> b \<Longrightarrow> b < 10 ^ 12 \<Longrightarrow> basePrice b = of_int ((b + 1) * 1000)"
proof -
  assume "0 \<le> b" "b < 10 ^ 12"
  then have "i64 (b + 1) = b + 1" "i64 ((b + 1) * 1000) = (b + 1) * 1000"
    by (intro i64_id; simp add: int64_range_def)+
  moreover have "rnd64 (of_int ((b + 1) * 1000)) = Fin (of_int ((b + 1) * 1000))"
    using \<open>0 \<le> b\<close> \<open>b < 10 ^ 12\<close> by (intro rnd64_int) simp
  ultimately show ?thesis by (simp add: basePrice_def of_int64_def)
qed

lemma below_exact:
  assumes "\<bar>k\<bar> \<le> 2 ^ 52" "0 < d" "d \<le> 2"
  shows "below (of_int k) d = of_int (k - d)"
proof -
  have "rnd64 (of_int d) = Fin (of_int d)" "rnd64 (of_int (k - d)) = Fin (of_int (k - d))"
    using assms by (intro rnd64_int; simp)+
  then show ?thesis using assms(2) by (simp add: below_def fsub_def fadd_def of_int64_def)
qed

lemma sequences_prices:
  assumes "0 \<le> b" "b < 10 ^ 12" "seq \<in> set (sequences b)" "p \<in> step_prices seq"
  shows "basePrice b - 2 \<le> p \<and> p \<le> basePrice b"
  using assms(3,4) basePrice_exact[OF assms(1,2)] below_exact[of "(b + 1) * 1000" 1] below_exact[of "(b + 1) * 1000" 2] assms(1,2)
  by (auto simp: sequences_def step_prices_def basicMatch_def partialFillLadder_def cancelCorrectness_def
      order_step_def cancel_step_def step0_def Let_def)

lemma price_bands_apart:
  assumes "0 \<le> b" "b < b'" "b' < 10 ^ 12" "seq \<in> set (sequences b)" "seq' \<in> set (sequences b')"
    "p \<in> step_prices seq" "p' \<in> step_prices seq'"
  shows "p < p' \<and> correctnessBasePrice + 20 < p"
proof -
  have "basePrice b = of_int ((b + 1) * 1000)" "basePrice b' = of_int ((b' + 1) * 1000)"
    using assms by (simp_all add: basePrice_exact)
  moreover have "(of_int (b + 1) :: rat) \<le> of_int b'" using assms(2) by (simp only: of_int_le_iff)
  moreover have "(0 :: rat) \<le> of_int b" "b < 10 ^ 12" "0 \<le> b'" using assms(1-3) by simp_all
  moreover note sequences_prices[OF assms(1) _ assms(4,6)] sequences_prices[OF _ assms(3,5,7)]
  ultimately show ?thesis by (simp add: correctnessBasePrice_def algebra_simps)
qed

end
