(* ===== verification/CorrectnessBot.thy ===== *)
theory CorrectnessBot
  imports BotSequences
begin

text \<open>
  The correctness bot of the bot runner (\<open>services/bot-runner/correctness_bot.go\<close>): it plays the
  scripted sequences against an engine, one step at a time, and counts which expectations hold.
  The engine behind the websocket and \<open>GET /orderbook\<close> is a parameter, the record \<open>target\<close>.
  How often the read loop of a step finds its five-second deadline not yet passed is a parameter
  as well, the number \<open>reads\<close> of each step.
\<close>

section \<open>The engine under test\<close>

text \<open>A reply as the bot's \<open>IncomingMessage\<close> decodes it.\<close>

record BotMessage =
  r_Type :: string
  r_OrderID :: string
  r_Reason :: string
  r_FilledQty :: int64
  r_FillPrice :: price
  r_Remaining :: int64
  r_Timestamp :: int64

text \<open>
  One \<open>conn.Read\<close>: it fails, with the outer context cancelled or not; it returns text that is no
  message; or it returns a message.
\<close>

datatype read_result = ReadFailed bool | Garbled | Received BotMessage

record 's target =
  dial :: "'s \<Rightarrow> string + 's"
  transmit :: "IncomingMessage \<Rightarrow> 's \<Rightarrow> string + 's"
  receive_one :: "'s \<Rightarrow> read_result \<times> 's"
  hang_up :: "'s \<Rightarrow> 's"
  get_orderbook :: "'s \<Rightarrow> (string + nat \<times> nat) \<times> 's"

section \<open>A step\<close>

record got =
  gotFill :: bool
  got_fillPrice :: price
  got_fillQty :: int64
  gotReject :: bool
  gotAck :: bool
  gotCancelAck :: bool

definition got0 :: got where
  "got0 = \<lparr>gotFill = False, got_fillPrice = 0, got_fillQty = 0, gotReject = False, gotAck = False,
           gotCancelAck = False\<rparr>"

definition note_message :: "BotMessage \<Rightarrow> got \<Rightarrow> got" where
  "note_message msg g =
     (if r_Type msg = ''ack'' then g\<lparr>gotAck := True\<rparr>
      else if r_Type msg = ''fill''
      then g\<lparr>gotFill := True, got_fillPrice := r_FillPrice msg, got_fillQty := r_FilledQty msg\<rparr>
      else if r_Type msg = ''reject'' then g\<lparr>gotReject := True\<rparr>
      else if r_Type msg = ''cancel_ack'' then g\<lparr>gotCancelAck := True\<rparr>
      else g)"

text \<open>The four tests that end the reading of a step.\<close>

definition enough :: "Step \<Rightarrow> got \<Rightarrow> bool" where
  "enough step g \<longleftrightarrow>
     Kind step = StepCancel \<and> gotCancelAck g \<or>
     ExpectReject step \<and> gotReject g \<or>
     ExpectFill step \<and> gotAck g \<and> gotFill g \<or>
     \<not> ExpectFill step \<and> \<not> ExpectReject step \<and> gotAck g"

text \<open>The read loop: \<open>None\<close> when the outer context was cancelled.\<close>

fun read_replies :: "nat \<Rightarrow> 's target \<Rightarrow> Step \<Rightarrow> got \<Rightarrow> 's \<Rightarrow> got option \<times> 's" where
  "read_replies 0 t step g s = (Some g, s)"
| "read_replies (Suc n) t step g s =
     (case receive_one t s of
        (ReadFailed True, s) \<Rightarrow> (None, s)
      | (ReadFailed False, s) \<Rightarrow> (Some g, s)
      | (Garbled, s) \<Rightarrow> read_replies n t step g s
      | (Received msg, s) \<Rightarrow>
          let g = note_message msg g
          in if enough step g then (Some g, s) else read_replies n t step g s)"

text \<open>The failures, one constructor for each message the code formats.\<close>

datatype failure =
    ConnectFailed string
  | TagNotFound nat string
  | WriteFailed nat string
  | ContextCancelled nat
  | NoCancelAck nat
  | WrongFillPrice nat price price
  | WrongFillQty nat int64 int64
  | NoFill nat
  | NoReject nat
  | QueryFailed nat string
  | WrongBidLevels nat int int
  | WrongAskLevels nat int int

text \<open>The outcome of assertions: how many passed, and the failures.\<close>

type_synonym verdict = "nat \<times> failure list"

definition vplus :: "verdict \<Rightarrow> verdict \<Rightarrow> verdict" where
  "vplus v w = (fst v + fst w, snd v @ snd w)"

definition pass :: verdict where "pass = (1, [])"
definition silent :: verdict where "silent = (0, [])"
definition fail :: "failure \<Rightarrow> verdict" where "fail f = (0, [f])"

definition check :: "bool \<Rightarrow> failure \<Rightarrow> verdict" where
  "check ok f = (if ok then pass else fail f)"

text \<open>The double nearest to \<open>0.01\<close>, the tolerance of the fill price.\<close>

definition price_tolerance :: price where
  "price_tolerance = 5764607523034235 / 2 ^ 59"

definition assert_fill :: "nat \<Rightarrow> Step \<Rightarrow> got \<Rightarrow> verdict" where
  "assert_fill i step g =
     (if \<not> ExpectFill step then silent
      else if gotFill g then
        vplus pass (vplus
          (if ExpectFillPrice step > 0 \<and> \<bar>got_fillPrice g - ExpectFillPrice step\<bar> > price_tolerance
           then fail (WrongFillPrice i (ExpectFillPrice step) (got_fillPrice g))
           else if ExpectFillPrice step > 0 then pass else silent)
          (if ExpectFillQty step > 0 \<and> got_fillQty g \<noteq> ExpectFillQty step
           then fail (WrongFillQty i (ExpectFillQty step) (got_fillQty g))
           else if ExpectFillQty step > 0 then pass else silent))
      else fail (NoFill i))"

definition assert_replies :: "nat \<Rightarrow> Step \<Rightarrow> got \<Rightarrow> verdict" where
  "assert_replies i step g =
     vplus (if Kind step = StepCancel then check (gotCancelAck g) (NoCancelAck i) else silent)
       (vplus (assert_fill i step g)
         (if ExpectReject step then check (gotReject g) (NoReject i) else silent))"

definition assert_book :: "nat \<Rightarrow> Step \<Rightarrow> 's target \<Rightarrow> 's \<Rightarrow> verdict \<times> 's" where
  "assert_book i step t s =
     (if ExpectBookBids step \<ge> 0 \<or> ExpectBookAsks step \<ge> 0 then
        (case get_orderbook t s of
           (Inl err, s) \<Rightarrow> (fail (QueryFailed i err), s)
         | (Inr (nbids, nasks), s) \<Rightarrow>
             (vplus
               (if ExpectBookBids step \<ge> 0
                then check (int nbids = ExpectBookBids step) (WrongBidLevels i (ExpectBookBids step) (int nbids)) else silent)
               (if ExpectBookAsks step \<ge> 0
                then check (int nasks = ExpectBookAsks step) (WrongAskLevels i (ExpectBookAsks step) (int nasks)) else silent),
              s))
      else (silent, s))"

text \<open>The text of a step: the fields the JSON object has, every other field its zero value.\<close>

definition order_payload :: "string \<Rightarrow> Step \<Rightarrow> IncomingMessage" where
  "order_payload oid step =
     \<lparr>in_Type = ''order'', in_OrderID = oid, in_Side = step_Side step, in_OrderType = step_OrderType step,
      in_Price = step_Price step, in_Quantity = step_Quantity step\<rparr>"

definition cancel_payload :: "string \<Rightarrow> IncomingMessage" where
  "cancel_payload oid =
     \<lparr>in_Type = ''cancel'', in_OrderID = oid, in_Side = [], in_OrderType = [], in_Price = 0, in_Quantity = 0\<rparr>"

section \<open>A sequence, and all of them\<close>

text \<open>\<open>run_steps\<close> is the loop over the steps, from step \<open>i\<close> on.\<close>

fun run_steps :: "(nat \<Rightarrow> nat) \<Rightarrow> 's target \<Rightarrow> nat \<Rightarrow> (string \<rightharpoonup> string) \<Rightarrow> Step list \<Rightarrow> 's \<Rightarrow> verdict \<times> 's" where
  "run_steps reads t i tagToID [] s = (silent, s)"
| "run_steps reads t i tagToID (step # steps) s =
     (let go = (\<lambda>tagToID payload.
        case transmit t payload s of
          Inl err \<Rightarrow> (fail (WriteFailed i err), s)
        | Inr s \<Rightarrow>
            (case read_replies (reads i) t step got0 s of
               (None, s) \<Rightarrow> (fail (ContextCancelled i), s)
             | (Some g, s) \<Rightarrow>
                 let (book, s) = assert_book i step t s;
                     (later, s) = run_steps reads t (Suc i) tagToID steps s
                 in (vplus (vplus (assert_replies i step g) book) later, s)))
      in if Kind step = StepCancel then
           (case tagToID (CancelTag step) of
              None \<Rightarrow> (let (later, s) = run_steps reads t (Suc i) tagToID steps s
                       in (vplus (fail (TagNotFound i (CancelTag step))) later, s))
            | Some targetID \<Rightarrow> go tagToID (cancel_payload targetID))
         else let oid = ''cx-s'' @ show_int (int i) @ ''-'' @ Tag step
              in go (tagToID(Tag step \<mapsto> oid)) (order_payload oid step))"

definition runSequence :: "(nat \<Rightarrow> nat) \<Rightarrow> 's target \<Rightarrow> Sequence \<Rightarrow> 's \<Rightarrow> verdict \<times> 's" where
  "runSequence reads t seq s =
     (case dial t s of
        Inl err \<Rightarrow> (fail (ConnectFailed err), s)
      | Inr s \<Rightarrow> let (v, s) = run_steps reads t 0 Map.empty (Steps seq) s in (v, hang_up t s))"

record CorrectnessResult =
  Score :: float64
  Passed :: nat
  Failed :: nat
  TotalAssertions :: nat
  FailureDetails :: "(string \<times> failure) list"

fun run_all :: "(string \<Rightarrow> nat \<Rightarrow> nat) \<Rightarrow> 's target \<Rightarrow> Sequence list \<Rightarrow> 's \<Rightarrow>
    (nat \<times> (string \<times> failure) list) \<times> 's" where
  "run_all reads t [] s = ((0, []), s)"
| "run_all reads t (seq # seqs) s =
     (let ((passed, failures), s) = runSequence (reads (Name seq)) t seq s;
          ((passed', details), s) = run_all reads t seqs s
      in ((passed + passed', map (Pair (Name seq)) failures @ details), s))"

definition correctness_score :: "nat \<Rightarrow> nat \<Rightarrow> float64" where
  "correctness_score passed ntotal =
     (if ntotal = 0 then Fin 1 else fmax (Fin 0) (fdiv (of_int64 (int passed)) (of_int64 (int ntotal))))"

definition Run :: "(string \<Rightarrow> nat \<Rightarrow> nat) \<Rightarrow> 's target \<Rightarrow> 's \<Rightarrow> CorrectnessResult \<times> 's" where
  "Run reads t s =
     (let ((passed, details), s) = run_all reads t CorrectnessSequences s;
          ntotal = passed + length details
      in (\<lparr>Score = correctness_score passed ntotal, Passed = passed, Failed = length details,
           TotalAssertions = ntotal, FailureDetails = details\<rparr>, s))"

section \<open>How many assertions there are\<close>

definition step_weight :: "Step \<Rightarrow> nat" where
  "step_weight step = of_bool (Kind step = StepCancel) +
     (if ExpectFill step then 1 + of_bool (ExpectFillPrice step > 0) + of_bool (ExpectFillQty step > 0) else 0) +
     of_bool (ExpectReject step) + of_bool (ExpectBookBids step \<ge> 0) + of_bool (ExpectBookAsks step \<ge> 0)"

text \<open>At most \<open>n\<close> assertions, and exactly \<open>n\<close> when none of them failed.\<close>

definition counted :: "nat \<Rightarrow> verdict \<Rightarrow> bool" where
  "counted n v \<longleftrightarrow> fst v + length (snd v) \<le> n \<and> (snd v = [] \<longrightarrow> fst v = n)"

lemma counted_vplus: "counted m v \<Longrightarrow> counted n w \<Longrightarrow> counted (m + n) (vplus v w)"
  by (auto simp: counted_def vplus_def)

lemma counted_basic [simp]: "counted (Suc 0) pass" "counted 0 silent" "counted (Suc n) (fail f)"
  "counted (Suc 0) (check ok f)"
  by (auto simp: counted_def pass_def silent_def fail_def check_def)

lemma counted_check: "counted (of_bool b) (if b then check ok f else silent)"
  by simp

lemma counted_fill: "counted (if ExpectFill step then 1 + of_bool (ExpectFillPrice step > 0) + of_bool (ExpectFillQty step > 0) else 0)
    (assert_fill i step g)"
proof -
  let ?p = "if ExpectFillPrice step > 0 \<and> \<bar>got_fillPrice g - ExpectFillPrice step\<bar> > price_tolerance
           then fail (WrongFillPrice i (ExpectFillPrice step) (got_fillPrice g))
           else if ExpectFillPrice step > 0 then pass else silent"
  let ?q = "if ExpectFillQty step > 0 \<and> got_fillQty g \<noteq> ExpectFillQty step
           then fail (WrongFillQty i (ExpectFillQty step) (got_fillQty g))
           else if ExpectFillQty step > 0 then pass else silent"
  have "counted (of_bool (ExpectFillPrice step > 0)) ?p" "counted (of_bool (ExpectFillQty step > 0)) ?q"
    by simp_all
  from counted_vplus[OF counted_basic(1) counted_vplus[OF this]] show ?thesis
    by (simp add: assert_fill_def)
qed

lemma counted_replies: "counted (of_bool (Kind step = StepCancel) +
    ((if ExpectFill step then 1 + of_bool (ExpectFillPrice step > 0) + of_bool (ExpectFillQty step > 0) else 0) +
     of_bool (ExpectReject step))) (assert_replies i step g)"
  unfolding assert_replies_def by (intro counted_vplus counted_fill counted_check)

lemma counted_book:
  "assert_book i step t s = (v, s') \<Longrightarrow>
    counted (of_bool (ExpectBookBids step \<ge> 0) + of_bool (ExpectBookAsks step \<ge> 0)) v"
proof -
  assume a: "assert_book i step t s = (v, s')"
  obtain r s1 where r: "get_orderbook t s = (r, s1)" by (cases "get_orderbook t s")
  show ?thesis
  proof (cases r)
    case (Inl err)
    with a r show ?thesis by (auto simp: assert_book_def split: if_splits)
  next
    case (Inr n)
    obtain nb na where n: "n = (nb, na)" by (cases n)
    show ?thesis
    proof (cases "ExpectBookBids step \<ge> 0 \<or> ExpectBookAsks step \<ge> 0")
      case True
      then have v: "v = vplus
          (if ExpectBookBids step \<ge> 0
           then check (int nb = ExpectBookBids step) (WrongBidLevels i (ExpectBookBids step) (int nb)) else silent)
          (if ExpectBookAsks step \<ge> 0
           then check (int na = ExpectBookAsks step) (WrongAskLevels i (ExpectBookAsks step) (int na)) else silent)"
        using a r Inr n by (simp add: assert_book_def)
      show ?thesis unfolding v by (intro counted_vplus counted_check)
    qed (use a in \<open>simp add: assert_book_def\<close>)
  qed
qed

lemma counted_less: "counted m v \<Longrightarrow> snd v \<noteq> [] \<Longrightarrow> m \<le> n \<Longrightarrow> counted n v"
  by (simp add: counted_def)

lemma counted_run_steps:
  "\<forall>step \<in> set steps. 0 < step_weight step \<Longrightarrow> run_steps reads t i tags steps s = (v, s') \<Longrightarrow>
    counted (sum_list (map step_weight steps)) v"
proof (induction steps arbitrary: i tags s v s')
  case (Cons step steps)
  have w: "0 < step_weight step" using Cons.prems(1) by simp
  obtain n where n: "step_weight step = Suc n" using w by (cases "step_weight step") auto
  have early: "counted (step_weight step + sum_list (map step_weight steps)) (fail f)" for f by (simp add: n)
  have go: "counted (step_weight step + sum_list (map step_weight steps)) v"
    if run: "(case transmit t payload s of Inl err \<Rightarrow> (fail (WriteFailed i err), s)
        | Inr s \<Rightarrow> (case read_replies (reads i) t step got0 s of (None, s) \<Rightarrow> (fail (ContextCancelled i), s)
           | (Some g, s) \<Rightarrow> let (book, s) = assert_book i step t s;
                (later, s) = run_steps reads t (Suc i) tags' steps s
              in (vplus (vplus (assert_replies i step g) book) later, s))) = (v, s')" for payload tags'
  proof (cases "transmit t payload s")
    case (Inl err)
    with run early show ?thesis by auto
  next
    case (Inr s1)
    obtain og s2 where r: "read_replies (reads i) t step got0 s1 = (og, s2)" by fastforce
    show ?thesis
    proof (cases og)
      case None
      with run Inr r early show ?thesis by auto
    next
      case (Some g)
      obtain b s3 where b: "assert_book i step t s2 = (b, s3)" by fastforce
      obtain l s4 where l: "run_steps reads t (Suc i) tags' steps s3 = (l, s4)" by fastforce
      have v: "v = vplus (vplus (assert_replies i step g) b) l" using run Inr r Some b l by simp
      have "counted (sum_list (map step_weight steps)) l" using Cons.IH[OF _ l] Cons.prems(1) by simp
      from counted_vplus[OF counted_vplus[OF counted_replies counted_book[OF b]] this] show ?thesis
        unfolding v step_weight_def by (simp add: add.assoc)
    qed
  qed
  show ?case
  proof (cases "Kind step = StepCancel")
    case True
    show ?thesis
    proof (cases "tags (CancelTag step)")
      case None
      obtain l s4 where l: "run_steps reads t (Suc i) tags steps s = (l, s4)" by fastforce
      have "v = vplus (fail (TagNotFound i (CancelTag step))) l" using Cons.prems(2) True None l by simp
      moreover have "counted (sum_list (map step_weight steps)) l" using Cons.IH[OF _ l] Cons.prems(1) by simp
      ultimately show ?thesis using counted_vplus[of "step_weight step"] by (simp add: n)
    next
      case (Some k)
      have "counted (step_weight step + sum_list (map step_weight steps)) v"
        by (rule go[where payload = "cancel_payload k" and tags' = tags])
          (use Cons.prems(2) True Some in \<open>simp only: run_steps.simps Let_def if_True option.case simp_thms\<close>)
      then show ?thesis by simp
    qed
  next
    case False
    let ?oid = "''cx-s'' @ show_int (int i) @ ''-'' @ Tag step"
    have "counted (step_weight step + sum_list (map step_weight steps)) v"
      by (rule go[where payload = "order_payload ?oid step" and tags' = "tags(Tag step \<mapsto> ?oid)"])
        (use Cons.prems(2) False in \<open>simp only: run_steps.simps Let_def if_False\<close>)
    then show ?thesis by simp
  qed
qed simp

definition seq_weight :: "Sequence \<Rightarrow> nat" where
  "seq_weight seq = sum_list (map step_weight (Steps seq))"

lemma counted_run_all:
  "\<forall>seq \<in> set seqs. Steps seq \<noteq> [] \<and> (\<forall>step \<in> set (Steps seq). 0 < step_weight step) \<Longrightarrow>
    run_all reads t seqs s = ((passed, details), s') \<Longrightarrow>
    passed + length details \<le> sum_list (map seq_weight seqs) \<and>
    (details = [] \<longrightarrow> passed = sum_list (map seq_weight seqs))"
proof (induction seqs arbitrary: s passed details s')
  case (Cons seq seqs)
  obtain v s1 where r: "runSequence (reads (Name seq)) t seq s = (v, s1)" by fastforce
  obtain p d s2 where rs: "run_all reads t seqs s1 = ((p, d), s2)" by (metis prod.exhaust)
  have seq: "Steps seq \<noteq> []" "\<forall>step \<in> set (Steps seq). 0 < step_weight step" using Cons.prems(1) by auto
  have "counted (seq_weight seq) v"
  proof (cases "dial t s")
    case (Inl err)
    obtain step steps where "Steps seq = step # steps" using seq(1) by (cases "Steps seq") auto
    then have "0 < seq_weight seq" using seq(2) by (simp add: seq_weight_def)
    then obtain n where "seq_weight seq = Suc n" by (cases "seq_weight seq") auto
    with r Inl show ?thesis by (auto simp: runSequence_def)
  next
    case (Inr s0)
    obtain v0 s3 where "run_steps (reads (Name seq)) t 0 Map.empty (Steps seq) s0 = (v0, s3)" by fastforce
    with counted_run_steps[OF seq(2) this] r Inr show ?thesis by (simp add: runSequence_def seq_weight_def)
  qed
  moreover have "p + length d \<le> sum_list (map seq_weight seqs) \<and> (d = [] \<longrightarrow> p = sum_list (map seq_weight seqs))"
    using Cons.IH[OF _ rs] Cons.prems(1) by simp
  moreover obtain vp vf where v: "v = (vp, vf)" by (cases v)
  moreover have "passed = vp + p" "details = map (Pair (Name seq)) vf @ d"
    using Cons.prems(2) r rs v by auto
  ultimately show ?case by (auto simp: counted_def)
qed simp

lemma correctness_weight: "sum_list (map seq_weight CorrectnessSequences) = 33"
  "\<forall>seq \<in> set CorrectnessSequences. Steps seq \<noteq> [] \<and> (\<forall>step \<in> set (Steps seq). 0 < step_weight step)"
  by code_simp+

section \<open>The score\<close>

text \<open>The largest double below 1.\<close>

lemma rnd64_below_one: "rnd64 (1 - 1 / 2 ^ 53) = Fin (1 - 1 / 2 ^ 53)"
proof -
  let ?b = "1 - 1 / 2 ^ 53 :: rat"
  have "expo ?b = - 1" by (rule expo_unique) (simp_all add: pow2_def)
  then have "?b = of_int (2 ^ 53 - 1) * quantum ?b" by (simp add: quantum_def pow2_def)
  then have "rnd_mag ?b = ?b" by (rule rnd_mag_exact)
  moreover have "?b < pow2 1024" using pow2_mono[of 0 1024] by (simp add: pow2_def)
  ultimately show ?thesis by (simp add: rnd64_def Let_def)
qed

lemma correctness_score_unit:
  assumes "passed \<le> ntotal" "ntotal \<le> 2 ^ 53"
  shows "unit_float (correctness_score passed ntotal) \<and> (correctness_score passed ntotal = Fin 1 \<longleftrightarrow> passed = ntotal)"
proof (cases "ntotal = 0")
  case True
  with assms show ?thesis by (simp add: correctness_score_def unit_float_def)
next
  case False
  have n: "of_int64 (int passed) = Fin (of_nat passed)" "of_int64 (int ntotal) = Fin (of_nat ntotal)"
    using rnd64_int[of "int passed"] rnd64_int[of "int ntotal"] assms
    by (simp_all add: of_int64_def)
  show ?thesis
  proof (cases "passed = ntotal")
    case True
    then show ?thesis
      using False n rnd64_int[of 1] by (simp add: correctness_score_def fdiv_def fmax_def feq_def unit_float_def)
  next
    case neq: False
    let ?q = "(of_nat passed :: rat) / of_nat ntotal" and ?b = "1 - 1 / 2 ^ 53 :: rat"
    have "passed + 1 \<le> ntotal" using neq assms(1) by simp
    then have "(of_nat passed :: rat) + 1 \<le> of_nat ntotal" by (metis of_nat_1 of_nat_add of_nat_le_iff)
    then have "?q \<le> 1 - 1 / of_nat ntotal" using False by (simp add: field_simps)
    also have "\<dots> \<le> ?b"
    proof -
      have "(of_nat ntotal :: rat) \<le> 2 ^ 53" using assms(2) by (metis of_nat_le_iff of_nat_numeral of_nat_power)
      then show ?thesis using False by (simp add: frac_le)
    qed
    finally have q: "0 \<le> ?q" "?q \<le> ?b" by simp_all
    have "rnd64 ?b = Fin ?b" by (rule rnd64_below_one)
    from rnd64_nonneg_mono[OF q this] obtain r where r: "rnd64 ?q = Fin r" "0 \<le> r" "r \<le> ?b" by blast
    then show ?thesis
      using False neq n by (auto simp: correctness_score_def fdiv_def fmax_def feq_def fzero_def unit_float_def)
  qed
qed

end
