(* ===== verification/LoadBot.thy ===== *)
theory LoadBot
  imports CorrectnessBot
begin

text \<open>
  A load bot (\<open>services/bot-runner/bot.go\<close>) and its metrics (\<open>metrics.go\<close>). \<open>Run\<close> has three goroutines
  that share \<open>pending\<close>, \<open>inFlight\<close> and the metrics: the writer, with its outer reconnect loop, the
  reader of each connection, and the clean-up that gives up orders after five seconds. Each step of
  the model is what one goroutine does under the mutex or between two waits; the scheduler, the
  network and the clock choose the steps. The histograms are those of the library, a parameter. The
  counters of \<open>BotMetrics\<close> (\<open>int64\<close>), the iteration (\<open>int\<close>) and \<open>inFlight\<close> (\<open>atomic.Int64\<close>) are plain integers: the
  first two, with the sums of the first in \<open>merge\<close>, grow by one or two for a message, and no run is long enough
  to reach the limit; the last stays between 0 and 21.
\<close>

section \<open>Metrics\<close>

record 'h histogram_lib =
  new_histogram :: 'h
  RecordValue :: "int \<Rightarrow> 'h \<Rightarrow> 'h"
  MergeInto :: "'h \<Rightarrow> 'h \<Rightarrow> 'h \<times> int"
  ValueAtQuantile :: "rat \<Rightarrow> 'h \<Rightarrow> int"
  MaxValue :: "'h \<Rightarrow> int"

record 'h BotMetrics =
  ackLatency :: 'h
  fillLatency :: 'h
  ordersSent :: int
  acksRecv :: int
  fillsRecv :: int
  rejectsRecv :: int
  staleOrders :: int

definition NewBotMetrics :: "'h histogram_lib \<Rightarrow> 'h BotMetrics" where
  "NewBotMetrics lib = \<lparr>ackLatency = new_histogram lib, fillLatency = new_histogram lib, ordersSent = 0,
     acksRecv = 0, fillsRecv = 0, rejectsRecv = 0, staleOrders = 0\<rparr>"

text \<open>\<open>Duration.Microseconds\<close>: integer division of nanoseconds, truncated towards zero.\<close>

definition Microseconds :: "int \<Rightarrow> int" where
  "Microseconds d = (if 0 \<le> d then d div 1000 else - ((- d) div 1000))"

definition recordAck :: "'h histogram_lib \<Rightarrow> int \<Rightarrow> 'h BotMetrics \<Rightarrow> 'h BotMetrics" where
  "recordAck lib d m = m\<lparr>ackLatency := RecordValue lib (Microseconds d) (ackLatency m), acksRecv := acksRecv m + 1\<rparr>"

definition recordFill :: "'h histogram_lib \<Rightarrow> int \<Rightarrow> 'h BotMetrics \<Rightarrow> 'h BotMetrics" where
  "recordFill lib d m = m\<lparr>fillLatency := RecordValue lib (Microseconds d) (fillLatency m), fillsRecv := fillsRecv m + 1\<rparr>"

record 'h AggregateMetrics = "'h BotMetrics" +
  ackDropped :: int
  fillDropped :: int

definition merge_start :: "'h histogram_lib \<Rightarrow> 'h AggregateMetrics" where
  "merge_start lib = \<lparr>ackLatency = new_histogram lib, fillLatency = new_histogram lib, ordersSent = 0,
     acksRecv = 0, fillsRecv = 0, rejectsRecv = 0, staleOrders = 0, ackDropped = 0, fillDropped = 0\<rparr>"

definition merge_one :: "'h histogram_lib \<Rightarrow> 'h BotMetrics \<Rightarrow> 'h AggregateMetrics \<Rightarrow> 'h AggregateMetrics" where
  "merge_one lib b agg =
     (let (ah, ad) = MergeInto lib (ackLatency agg) (ackLatency b);
          (fh, fd) = MergeInto lib (fillLatency agg) (fillLatency b)
      in \<lparr>ackLatency = ah, fillLatency = fh, ordersSent = ordersSent agg + ordersSent b,
          acksRecv = acksRecv agg + acksRecv b, fillsRecv = fillsRecv agg + fillsRecv b,
          rejectsRecv = rejectsRecv agg + rejectsRecv b, staleOrders = staleOrders agg + staleOrders b,
          ackDropped = ackDropped agg + ad, fillDropped = fillDropped agg + fd\<rparr>)"

definition merge :: "'h histogram_lib \<Rightarrow> 'h BotMetrics list \<Rightarrow> 'h AggregateMetrics" where
  "merge lib bots = fold (merge_one lib) bots (merge_start lib)"

section \<open>Templates\<close>

text \<open>The text of a step with a hole for the order id; the hole is filled by \<open>bytes.Replace\<close>.\<close>

record stepTemplate =
  isCancel :: bool
  t_payload :: "string \<Rightarrow> IncomingMessage"
  t_tag :: string
  t_cancelTag :: string

definition template_of :: "Step \<Rightarrow> stepTemplate" where
  "template_of step =
     (if Kind step = StepOrder
      then \<lparr>isCancel = False, t_payload = (\<lambda>oid. order_payload oid step), t_tag = Tag step, t_cancelTag = []\<rparr>
      else \<lparr>isCancel = True, t_payload = cancel_payload, t_tag = [], t_cancelTag = CancelTag step\<rparr>)"

section \<open>State\<close>

text \<open>
  Where the writer is: before a dial; at the top of its loop; before a template; past the
  backpressure check of an order, which is not yet booked; before the write of a message;
  returned. \<open>errCh\<close> says that the reader of the current connection has failed.
\<close>

datatype writer_pc = Dialing | AtTop | AtTemplate nat | Admitted nat string | Writing nat IncomingMessage | Returned

record 'h load_bot =
  pending :: "string \<rightharpoonup> int"
  inFlight :: int
  bot_metrics :: "'h BotMetrics"
  errCh :: bool
  iteration :: int
  tagToID :: "string \<rightharpoonup> string"
  pc :: writer_pc
  wire :: "IncomingMessage list"
  n_acks :: int
  n_fills :: int
  n_completed :: int
  n_cancelled :: int
  n_expired :: int
  n_broken :: int
  n_overwritten :: int

definition NewBot :: "'h histogram_lib \<Rightarrow> 'h load_bot" where
  "NewBot lib = \<lparr>pending = Map.empty, inFlight = 0, bot_metrics = NewBotMetrics lib, errCh = False, iteration = 0,
     tagToID = Map.empty, pc = Dialing, wire = [], n_acks = 0, n_fills = 0, n_completed = 0, n_cancelled = 0,
     n_expired = 0, n_broken = 0, n_overwritten = 0\<rparr>"

text \<open>Giving up a pending order: \<open>delete(pending, id)\<close> and \<open>inFlight.Add(-1)\<close>.\<close>

definition settle :: "string \<Rightarrow> 'h load_bot \<Rightarrow> 'h load_bot" where
  "settle oid b = b\<lparr>pending := (pending b)(oid := None), inFlight := inFlight b - 1\<rparr>"

definition on_metrics :: "('h BotMetrics \<Rightarrow> 'h BotMetrics) \<Rightarrow> 'h load_bot \<Rightarrow> 'h load_bot" where
  "on_metrics f b = b\<lparr>bot_metrics := f (bot_metrics b)\<rparr>"

section \<open>The clean-up\<close>

definition expire :: "int \<Rightarrow> string \<Rightarrow> 'h load_bot \<Rightarrow> 'h load_bot" where
  "expire time oid b =
     (case pending b oid of
        None \<Rightarrow> b
      | Some sentAt \<Rightarrow>
          if time - sentAt > 5 * 10 ^ 9
          then (on_metrics (\<lambda>m. m\<lparr>staleOrders := staleOrders m + 1\<rparr>) (settle oid b))\<lparr>n_expired := n_expired b + 1\<rparr>
          else b)"

text \<open>The range over \<open>pending\<close> visits its keys in some order \<open>ids\<close>.\<close>

definition clean_up :: "string list \<Rightarrow> int \<Rightarrow> 'h load_bot \<Rightarrow> 'h load_bot" where
  "clean_up ids time b = fold (expire time) ids b"

section \<open>The reader\<close>

definition on_reply :: "'h histogram_lib \<Rightarrow> int \<Rightarrow> BotMessage \<Rightarrow> 'h load_bot \<Rightarrow> 'h load_bot" where
  "on_reply lib time msg b =
     (case pending b (r_OrderID msg) of
        None \<Rightarrow> b
      | Some sentAt \<Rightarrow>
          if r_Type msg = ''ack'' then
            (on_metrics (\<lambda>m. let m = recordAck lib (time - sentAt) m in m\<lparr>acksRecv := acksRecv m + 1\<rparr>) b)
              \<lparr>n_acks := n_acks b + 1\<rparr>
          else if r_Type msg = ''fill'' then
            (let b = (on_metrics (\<lambda>m. let m = recordFill lib (time - sentAt) m in m\<lparr>fillsRecv := fillsRecv m + 1\<rparr>) b)
                       \<lparr>n_fills := n_fills b + 1\<rparr>
             in if r_Remaining msg = 0 then (settle (r_OrderID msg) b)\<lparr>n_completed := n_completed b + 1\<rparr> else b)
          else if r_Type msg = ''reject'' then
            settle (r_OrderID msg) (on_metrics (\<lambda>m. m\<lparr>rejectsRecv := rejectsRecv m + 1\<rparr>) b)
          else if r_Type msg = ''cancel_ack'' then (settle (r_OrderID msg) b)\<lparr>n_cancelled := n_cancelled b + 1\<rparr>
          else b)"

section \<open>The writer\<close>

text \<open>A broken connection counts as one stale order and leads back to the dial.\<close>

definition broken :: "'h load_bot \<Rightarrow> 'h load_bot" where
  "broken b = (on_metrics (\<lambda>m. m\<lparr>staleOrders := staleOrders m + 1\<rparr>) b)\<lparr>pc := Dialing, n_broken := n_broken b + 1\<rparr>"

definition loop_top :: "'h load_bot \<Rightarrow> 'h load_bot" where
  "loop_top b = (if errCh b then (broken b)\<lparr>errCh := False\<rparr> else b\<lparr>pc := AtTemplate 0\<rparr>)"

text \<open>
  A template. A cancel looks up its tag, and is skipped when there is none; an order gets its id and
  passes the backpressure check only while at most 20 orders are in flight (otherwise the writer
  sleeps and the step is tried again).
\<close>

definition at_template :: "int \<Rightarrow> stepTemplate list \<Rightarrow> nat \<Rightarrow> 'h load_bot \<Rightarrow> 'h load_bot" where
  "at_template bot_id templates i b =
     (if i < length templates then
        let tmpl = templates ! i in
        if isCancel tmpl then
          (case tagToID b (t_cancelTag tmpl) of
             None \<Rightarrow> b\<lparr>pc := AtTemplate (i + 1)\<rparr>
           | Some targetID \<Rightarrow> b\<lparr>pc := Writing i (t_payload tmpl targetID)\<rparr>)
        else
          let oid = orderID bot_id (iteration b) (t_tag tmpl);
              b = b\<lparr>tagToID := (tagToID b)(t_tag tmpl \<mapsto> oid)\<rparr>
          in if inFlight b > 20 then b else b\<lparr>pc := Admitted i oid\<rparr>
      else b\<lparr>iteration := iteration b + 1, pc := AtTop\<rparr>)"

text \<open>The booking under the mutex: the id becomes pending, whether it was or not.\<close>

definition book_order :: "int \<Rightarrow> stepTemplate list \<Rightarrow> nat \<Rightarrow> string \<Rightarrow> 'h load_bot \<Rightarrow> 'h load_bot" where
  "book_order time templates i oid b =
     (on_metrics (\<lambda>m. m\<lparr>ordersSent := ordersSent m + 1\<rparr>) b)
       \<lparr>pending := (pending b)(oid \<mapsto> time), inFlight := inFlight b + 1,
        n_overwritten := n_overwritten b + (if pending b oid = None then 0 else 1),
        pc := Writing i (t_payload (templates ! i) oid)\<rparr>"

definition write_message :: "bool \<Rightarrow> nat \<Rightarrow> IncomingMessage \<Rightarrow> 'h load_bot \<Rightarrow> 'h load_bot" where
  "write_message ok i msg b =
     (if ok then b\<lparr>wire := wire b @ [msg], pc := AtTemplate (i + 1)\<rparr> else broken b)"

inductive bot_step :: "'h histogram_lib \<Rightarrow> int \<Rightarrow> stepTemplate list \<Rightarrow> 'h load_bot \<Rightarrow> 'h load_bot \<Rightarrow> bool"
  for lib :: "'h histogram_lib" and bot_id :: int and templates :: "stepTemplate list" where
  tick: "distinct ids \<Longrightarrow> set ids = dom (pending b) \<Longrightarrow> bot_step lib bot_id templates b (clean_up ids time b)"
| reply: "bot_step lib bot_id templates b (on_reply lib time msg b)"
| read_error: "pc b \<notin> {Dialing, Returned} \<Longrightarrow> bot_step lib bot_id templates b (b\<lparr>errCh := True\<rparr>)"
| dialed: "pc b = Dialing \<Longrightarrow> bot_step lib bot_id templates b (b\<lparr>errCh := False, pc := AtTop\<rparr>)"
| top: "pc b = AtTop \<Longrightarrow> bot_step lib bot_id templates b (loop_top b)"
| template: "pc b = AtTemplate i \<Longrightarrow> bot_step lib bot_id templates b (at_template bot_id templates i b)"
| booking: "pc b = Admitted i oid \<Longrightarrow> bot_step lib bot_id templates b (book_order time templates i oid b)"
| writing: "pc b = Writing i msg \<Longrightarrow> bot_step lib bot_id templates b (write_message ok i msg b)"
| over: "pc b \<in> {Dialing, AtTop} \<Longrightarrow> bot_step lib bot_id templates b (b\<lparr>pc := Returned\<rparr>)"
| cancelled: "pc b = AtTemplate i \<Longrightarrow> inFlight b > 20 \<Longrightarrow> bot_step lib bot_id templates b (b\<lparr>pc := Returned\<rparr>)"

inductive bot_reachable :: "'h histogram_lib \<Rightarrow> int \<Rightarrow> stepTemplate list \<Rightarrow> 'h load_bot \<Rightarrow> bool"
  for lib :: "'h histogram_lib" and bot_id :: int and templates :: "stepTemplate list" where
  start: "bot_reachable lib bot_id templates (NewBot lib)"
| step: "bot_reachable lib bot_id templates b \<Longrightarrow> bot_step lib bot_id templates b b' \<Longrightarrow>
    bot_reachable lib bot_id templates b'"

section \<open>Accounting\<close>

definition bot_ok :: "'h load_bot \<Rightarrow> bool" where
  "bot_ok b \<longleftrightarrow>
     finite (dom (pending b)) \<and> inFlight b = int (card (dom (pending b))) + n_overwritten b \<and>
     0 \<le> n_overwritten b \<and> n_overwritten b \<le> 20 \<and> inFlight b \<le> 21 \<and>
     (\<forall>i oid. pc b = Admitted i oid \<longrightarrow> inFlight b \<le> 20) \<and>
     ordersSent (bot_metrics b) = n_overwritten b + int (card (dom (pending b))) + n_completed b +
       rejectsRecv (bot_metrics b) + n_cancelled b + n_expired b \<and>
     acksRecv (bot_metrics b) = 2 * n_acks b \<and> fillsRecv (bot_metrics b) = 2 * n_fills b \<and>
     staleOrders (bot_metrics b) = n_expired b + n_broken b"

lemmas bot_ops = settle_def on_metrics_def broken_def loop_top_def at_template_def book_order_def write_message_def
  recordAck_def recordFill_def

lemma card_settle:
  assumes "finite (dom p)" "p oid = Some t"
  shows "int (card (dom (p(oid := None)))) = int (card (dom p)) - 1" "finite (dom (p(oid := None)))"
proof -
  have oid: "oid \<in> dom p" using assms(2) by auto
  with assms(1) have "0 < card (dom p)" using card_gt_0_iff by blast
  with oid assms(1) show "int (card (dom (p(oid := None)))) = int (card (dom p)) - 1" "finite (dom (p(oid := None)))"
    by (simp_all add: card_Diff_singleton of_nat_diff)
qed

lemma bot_ok_init: "bot_ok (NewBot lib)"
  by (simp add: bot_ok_def NewBot_def NewBotMetrics_def)

lemma expire_ok: "bot_ok b \<Longrightarrow> bot_ok (expire time oid b)"
  using card_settle[of "pending b" oid]
  by (auto simp: bot_ok_def expire_def bot_ops simp del: dom_fun_upd split: option.splits)

lemma clean_up_ok: "bot_ok b \<Longrightarrow> bot_ok (clean_up ids time b)"
  unfolding clean_up_def by (induction ids arbitrary: b) (simp_all add: expire_ok)

lemma on_reply_ok: "bot_ok b \<Longrightarrow> bot_ok (on_reply lib time msg b)"
  using card_settle[of "pending b" "r_OrderID msg"]
  by (auto simp: bot_ok_def on_reply_def bot_ops Let_def simp del: dom_fun_upd split: option.splits)

lemma book_order_ok:
  assumes b: "bot_ok b" "pc b = Admitted i oid"
  shows "bot_ok (book_order time templates i oid b)"
proof -
  have le: "inFlight b \<le> 20" using b by (auto simp: bot_ok_def)
  have fin: "finite (dom (pending b))" using b(1) by (simp add: bot_ok_def)
  show ?thesis
  proof (cases "pending b oid")
    case None
    then have "oid \<notin> dom (pending b)" by auto
    then have "int (card (dom ((pending b)(oid \<mapsto> time)))) = int (card (dom (pending b))) + 1" using fin by simp
    with b(1) le None fin show ?thesis by (simp add: bot_ok_def bot_ops del: dom_fun_upd) simp
  next
    case (Some t)
    then have d: "dom ((pending b)(oid \<mapsto> time)) = dom (pending b)" "oid \<in> dom (pending b)" by auto
    with fin have "0 < card (dom (pending b))" using card_gt_0_iff by blast
    with b(1) le Some fin d(1) show ?thesis by (simp add: bot_ok_def bot_ops del: dom_fun_upd)
  qed
qed

lemma bot_step_ok: "bot_step lib bot_id templates b b' \<Longrightarrow> bot_ok b \<Longrightarrow> bot_ok b'"
proof (induction rule: bot_step.induct)
  case (template b i)
  then show ?case by (auto simp: bot_ok_def at_template_def Let_def split: option.splits)
next
  case (writing b i msg ok)
  then show ?case by (auto simp: bot_ok_def bot_ops)
next
  case (top b)
  then show ?case by (auto simp: bot_ok_def bot_ops)
qed (auto simp: clean_up_ok on_reply_ok book_order_ok bot_ok_def[of "_\<lparr>errCh := _\<rparr>"] bot_ok_def[of "_\<lparr>pc := _\<rparr>"]
  bot_ok_def[of "_\<lparr>errCh := _, pc := _\<rparr>"] elim: bot_ok_def[THEN iffD1, elim_format])

lemma bot_reachable_ok: "bot_reachable lib bot_id templates b \<Longrightarrow> bot_ok b"
  by (induction rule: bot_reachable.induct) (auto intro: bot_ok_init bot_step_ok)

section \<open>Properties\<close>

text \<open>C20: Every order a load bot sends is accounted for. In any interleaving of its goroutines, the
  orders sent are those whose id was used again after a reconnect while it was still pending, those
  pending, and those completed, rejected, cancelled or given up; and every ack and every fill of a
  pending order is counted twice, because \<open>recordAck\<close> and \<open>recordFill\<close> count it and \<open>Run\<close> counts it
  again.\<close>

theorem load_bot_accounts:
  assumes "bot_reachable lib bot_id templates b"
  shows "ordersSent (bot_metrics b) = n_overwritten b + int (card (dom (pending b))) + n_completed b +
      rejectsRecv (bot_metrics b) + n_cancelled b + n_expired b \<and>
    staleOrders (bot_metrics b) = n_expired b + n_broken b \<and>
    acksRecv (bot_metrics b) = 2 * n_acks b \<and> fillsRecv (bot_metrics b) = 2 * n_fills b"
  using bot_reachable_ok[OF assms] by (simp add: bot_ok_def)

text \<open>C21: The backpressure keeps at most 21 orders in flight and never blocks the writer for good.
  The count drifts above the number of pending orders by one for each id that is used again while
  pending, but never by more than 20; so when no order is pending, the writer is admitted.\<close>

theorem backpressure_bounds:
  assumes "bot_reachable lib bot_id templates b"
  shows "0 \<le> inFlight b \<and> inFlight b \<le> 21 \<and> inFlight b = int (card (dom (pending b))) + n_overwritten b \<and>
    n_overwritten b \<le> 20 \<and>
    (pending b = Map.empty \<and> pc b = AtTemplate i \<and> i < length templates \<and> \<not> isCancel (templates ! i) \<longrightarrow>
      pc (at_template bot_id templates i b) = Admitted i (orderID bot_id (iteration b) (t_tag (templates ! i))))"
  using bot_reachable_ok[OF assms] by (auto simp: bot_ok_def at_template_def Let_def)

text \<open>A bot whose first write fails sends its first order again under the same id; both then expire
  as one, and the bot has one order in flight for the rest of its life.\<close>

lemma bot_reach:
  "bot_reachable lib bot_id templates b \<Longrightarrow> bot_step lib bot_id templates b b' \<Longrightarrow> b' = b'' \<Longrightarrow>
    bot_reachable lib bot_id templates b''"
  by (auto intro: bot_reachable.step)

definition demo_templates :: "stepTemplate list" where
  "demo_templates = map template_of (Steps (basicMatch 0))"

lemma demo_templates_facts:
  "length demo_templates = 2" "\<not> isCancel (demo_templates ! 0)" "t_tag (demo_templates ! 0) = ''bid1''"
  by (simp_all add: demo_templates_def template_of_def basicMatch_def Let_def order_step_def step0_def)

lemma drift_exists:
  "\<exists>b. bot_reachable lib 0 demo_templates b \<and> pending b = Map.empty \<and> inFlight b = 1 \<and> n_overwritten b = 1 \<and>
     pc b = AtTemplate 1"
proof -
  note defs = NewBot_def NewBotMetrics_def bot_ops clean_up_def expire_def demo_templates_facts Let_def
  let ?t = demo_templates let ?id = "orderID 0 0 ''bid1''"
  let ?b1 = "(NewBot lib)\<lparr>errCh := False, pc := AtTop\<rparr>" let ?b2 = "loop_top ?b1"
  let ?b3 = "at_template 0 ?t 0 ?b2" let ?b4 = "book_order 0 ?t 0 ?id ?b3"
  let ?b5 = "write_message False 0 (t_payload (?t ! 0) ?id) ?b4" let ?b6 = "?b5\<lparr>errCh := False, pc := AtTop\<rparr>"
  let ?b7 = "loop_top ?b6" let ?b8 = "at_template 0 ?t 0 ?b7" let ?b9 = "book_order 1 ?t 0 ?id ?b8"
  let ?b10 = "write_message True 0 (t_payload (?t ! 0) ?id) ?b9" let ?b11 = "clean_up [?id] 6000000000 ?b10"
  have "bot_reachable lib 0 ?t ?b1" by (rule bot_reach[OF bot_reachable.start bot_step.dialed]) (simp_all add: NewBot_def)
  then have "bot_reachable lib 0 ?t ?b2" by (rule bot_reach[OF _ bot_step.top]) simp_all
  then have "bot_reachable lib 0 ?t ?b3" by (rule bot_reach[OF _ bot_step.template[where i = 0]]) (simp_all add: defs)
  then have "bot_reachable lib 0 ?t ?b4"
    by (rule bot_reach[OF _ bot_step.booking[where i = 0 and oid = ?id]]) (simp_all add: defs)
  then have "bot_reachable lib 0 ?t ?b5"
    by (rule bot_reach[OF _ bot_step.writing[where i = 0 and ok = False]]) (simp_all add: defs)
  then have "bot_reachable lib 0 ?t ?b6" by (rule bot_reach[OF _ bot_step.dialed]) (simp_all add: defs)
  then have "bot_reachable lib 0 ?t ?b7" by (rule bot_reach[OF _ bot_step.top]) simp_all
  then have "bot_reachable lib 0 ?t ?b8" by (rule bot_reach[OF _ bot_step.template[where i = 0]]) (simp_all add: defs)
  then have "bot_reachable lib 0 ?t ?b9"
    by (rule bot_reach[OF _ bot_step.booking[where i = 0 and oid = ?id]]) (simp_all add: defs)
  then have "bot_reachable lib 0 ?t ?b10"
    by (rule bot_reach[OF _ bot_step.writing[where i = 0 and ok = True]]) (simp_all add: defs)
  then have "bot_reachable lib 0 ?t ?b11"
    by (rule bot_reach[OF _ bot_step.tick[where ids = "[?id]" and time = 6000000000]]) (simp_all add: defs)
  then show ?thesis by (intro exI[of _ ?b11]) (simp add: defs)
qed

theorem backpressure_bounds_witness:
  "\<exists>b. pending b = Map.empty \<and> inFlight (b :: unit load_bot) = 1 \<and> inFlight b = int (card (dom (pending b))) + n_overwritten b"
proof -
  obtain b :: "unit load_bot" and lib where "bot_reachable lib 0 demo_templates b" "pending b = Map.empty" "inFlight b = 1"
    using drift_exists by blast
  with backpressure_bounds[OF this(1)] show ?thesis by blast
qed

theorem load_bot_accounts_witness:
  "\<exists>b. pending b = Map.empty \<and> n_overwritten (b :: unit load_bot) = 1 \<and>
     ordersSent (bot_metrics b) = 1 + n_completed b + rejectsRecv (bot_metrics b) + n_cancelled b + n_expired b"
proof -
  obtain b :: "unit load_bot" and lib where "bot_reachable lib 0 demo_templates b" "pending b = Map.empty" "n_overwritten b = 1"
    using drift_exists by blast
  with load_bot_accounts[OF this(1)] show ?thesis by (intro exI[of _ b]) simp
qed

end
