(* ===== verification/BotRunner.thy ===== *)
theory BotRunner
  imports LoadBot Settings Scoring
begin

text \<open>
  The main program of the bot runner (\<open>services/bot-runner/main.go\<close>) and its publisher
  (\<open>publisher.go\<close>): the settings from the environment, the sequence of each load bot, the warm-up
  loop with its quorum, and what happens when all bots have returned. The Kafka client and the
  encoder are parameters.
\<close>

section \<open>Settings\<close>

record runner_settings =
  rc_endpoint :: string
  rc_numBots :: int64
  rc_durationSec :: int64
  rc_teamName :: string
  rc_submissionID :: string
  rc_topic :: string
  rc_schemaRegistryURL :: string
  rc_brokers :: "string list"

definition runner_config :: "environment \<Rightarrow> runner_settings" where
  "runner_config env =
     \<lparr>rc_endpoint = envStr env ''TARGET_ENDPOINT'' ''ws://localhost:8080/stream'',
      rc_numBots = envInt env ''NUM_BOTS'' 10,
      rc_durationSec = envInt env ''DURATION_SECONDS'' 30,
      rc_teamName = envStr env ''TEAM_NAME'' ''unknown'',
      rc_submissionID = envStr env ''TEST_RUN_ID'' [],
      rc_topic = envStr env ''KAFKA_TOPIC'' ''bot.metrics'',
      rc_schemaRegistryURL = envStr env ''SCHEMA_REGISTRY_URL'' ''http://redpanda.platform.svc.cluster.local:8081'',
      rc_brokers = parse_brokers (envStr env ''REDPANDA_BROKERS'' [])\<rparr>"

section \<open>Bots and warm-up\<close>

text \<open>\<open>make([]*Bot, numBots)\<close> panics for a negative number: \<open>None\<close>.\<close>

definition plan_bots :: "int64 \<Rightarrow> Sequence list option" where
  "plan_bots n = (if n < 0 then None else Some (map (\<lambda>i. sequences i ! nat (i mod 3)) [0..n - 1]))"

text \<open>Conversion of a finite double to \<open>int\<close> truncates towards zero.\<close>

definition trunc :: "float64 \<Rightarrow> int" where
  "trunc x = (if 0 \<le> fval x then \<lfloor>fval x\<rfloor> else \<lceil>fval x\<rceil>)"

definition quorum_of :: "int64 \<Rightarrow> int" where
  "quorum_of numBots = trunc (fmul (of_int64 numBots) (decimal (8 / 10)))"

text \<open>
  What the \<open>select\<close> of each round of the loop gets. The result is the number of bots that were ready
  when the loop ended; \<open>None\<close> while it still waits.
\<close>

datatype warm_event = BotReady | WarmupTimeout | TestCtxDone

fun warmup :: "int \<Rightarrow> nat \<Rightarrow> int \<Rightarrow> warm_event list \<Rightarrow> int option" where
  "warmup quorum 0 readyCount es = Some readyCount"
| "warmup quorum (Suc rounds) readyCount [] = None"
| "warmup quorum (Suc rounds) readyCount (BotReady # es) =
     (if readyCount + 1 \<ge> quorum then Some (readyCount + 1) else warmup quorum rounds (readyCount + 1) es)"
| "warmup quorum (Suc rounds) readyCount (WarmupTimeout # es) = Some readyCount"
| "warmup quorum (Suc rounds) readyCount (TestCtxDone # es) = Some readyCount"

section \<open>Publishing\<close>

record metrics_message = BotMetricsEvent +
  m_AcksRecv :: int64
  m_FillsRecv :: int64
  m_StaleOrders :: int64
  m_AckP999Us :: int64
  m_AckMaxUs :: int64
  m_FillP50Us :: int64
  m_FillP90Us :: int64
  m_FillP99Us :: int64
  m_FillP999Us :: int64
  m_FillMaxUs :: int64

text \<open>\<open>Duration.Seconds\<close> of nanoseconds, and \<open>Duration.Milliseconds\<close>.\<close>

definition go_quot :: "int \<Rightarrow> int \<Rightarrow> int" where
  "go_quot a b = (if 0 \<le> a then a div b else - ((- a) div b))"

definition Seconds :: "int \<Rightarrow> float64" where
  "Seconds d = (let sec = go_quot d (10 ^ 9); nsec = d - 10 ^ 9 * sec
     in fadd (of_int64 sec) (fdiv (of_int64 nsec) (Fin (10 ^ 9))))"

definition metrics_tps :: "'h AggregateMetrics \<Rightarrow> int \<Rightarrow> float64" where
  "metrics_tps agg duration = fdiv (of_int64 (ordersSent agg)) (Seconds duration)"

definition metrics_event :: "'h histogram_lib \<Rightarrow> 'h AggregateMetrics \<Rightarrow> int \<Rightarrow> string \<Rightarrow> string \<Rightarrow> string \<Rightarrow>
    float64 \<Rightarrow> int64 \<Rightarrow> metrics_message" where
  "metrics_event lib agg duration teamName submissionID testRunID correctness emitted = \<lparr>
     SubmissionId = submissionID, TeamName = teamName, TestRunId = testRunID, EmittedAt = emitted,
     Tps = metrics_tps agg duration,
     AckP50Us = ValueAtQuantile lib 50 (ackLatency agg), AckP90Us = ValueAtQuantile lib 90 (ackLatency agg),
     AckP99Us = ValueAtQuantile lib 99 (ackLatency agg), OrdersSent = ordersSent agg,
     RejectsRecv = rejectsRecv agg, DurationMs = go_quot duration (10 ^ 6), CorrectnessScore = correctness,
     m_AcksRecv = acksRecv agg, m_FillsRecv = fillsRecv agg, m_StaleOrders = staleOrders agg,
     m_AckP999Us = ValueAtQuantile lib (999 / 10) (ackLatency agg), m_AckMaxUs = MaxValue lib (ackLatency agg),
     m_FillP50Us = ValueAtQuantile lib 50 (fillLatency agg), m_FillP90Us = ValueAtQuantile lib 90 (fillLatency agg),
     m_FillP99Us = ValueAtQuantile lib 99 (fillLatency agg),
     m_FillP999Us = ValueAtQuantile lib (999 / 10) (fillLatency agg), m_FillMaxUs = MaxValue lib (fillLatency agg)\<rparr>"

text \<open>A record of the topic: key and message. Without a client nothing is published, and no error.\<close>

datatype publish_result = NotPublished | EncodeFailed | ProduceFailed | Published string metrics_message

definition publishMetrics :: "bool \<Rightarrow> (metrics_message \<Rightarrow> bool) \<Rightarrow> bool \<Rightarrow> string \<Rightarrow> metrics_message \<Rightarrow> publish_result" where
  "publishMetrics has_client encodes produces submissionID event =
     (if \<not> has_client then NotPublished
      else if \<not> encodes event then EncodeFailed
      else if \<not> produces then ProduceFailed
      else Published submissionID event)"

text \<open>
  The end of \<open>run\<close>, when every bot has returned: the test context (the duration and thirty seconds
  more) may be done, and then nothing is published.
\<close>

datatype run_error = BotsPanic | TestContextDone

definition finish_run :: "'h histogram_lib \<Rightarrow> bool \<Rightarrow> int \<Rightarrow> 'h BotMetrics list \<Rightarrow> runner_settings \<Rightarrow> float64 \<Rightarrow> int64 \<Rightarrow>
    bool \<Rightarrow> (metrics_message \<Rightarrow> bool) \<Rightarrow> bool \<Rightarrow> run_error + publish_result" where
  "finish_run lib ctx_done elapsed bots cfg correctness emitted has_client encodes produces =
     (if ctx_done then Inl TestContextDone
      else let agg = merge lib bots
           in Inr (if rc_submissionID cfg \<noteq> []
                   then publishMetrics has_client encodes produces (rc_submissionID cfg)
                     (metrics_event lib agg elapsed (rc_teamName cfg) (rc_submissionID cfg) (rc_submissionID cfg) correctness emitted)
                   else NotPublished))"

section \<open>Merging\<close>

lemma merge_sums:
  "ordersSent (fold (merge_one lib) bots agg) = ordersSent agg + sum_list (map ordersSent bots) \<and>
   acksRecv (fold (merge_one lib) bots agg) = acksRecv agg + sum_list (map acksRecv bots) \<and>
   fillsRecv (fold (merge_one lib) bots agg) = fillsRecv agg + sum_list (map fillsRecv bots) \<and>
   rejectsRecv (fold (merge_one lib) bots agg) = rejectsRecv agg + sum_list (map rejectsRecv bots) \<and>
   staleOrders (fold (merge_one lib) bots agg) = staleOrders agg + sum_list (map staleOrders bots)"
  by (induction bots arbitrary: agg) (auto simp: merge_one_def Let_def split: prod.splits)

section \<open>Throughput is a number\<close>

lemma rnd64_ge_pow2:
  assumes "pow2 e \<le> x" "- 1000 \<le> e" "x \<le> pow2 900"
  shows "\<exists>r. rnd64 x = Fin r \<and> pow2 e \<le> r \<and> r \<le> pow2 900"
proof -
  have x: "0 < x" using assms(1) pow2_pos[of e] by linarith
  have "expo (pow2 e) = e" by (rule expo_unique) (simp_all add: pow2_less_iff)
  then have "pow2 e = of_int (2 ^ 52) * quantum (pow2 e)"
    using assms(2) pow2_add[of 52 "e - 52"] by (simp add: quantum_def pow2_def[of 52])
  then have "rnd_mag (pow2 e) = pow2 e" by (rule rnd_mag_exact)
  then have m: "pow2 e \<le> rnd_mag x" using rnd_mag_mono[OF pow2_pos assms(1)] by simp
  have u: "rnd_mag x \<le> pow2 900" by (rule rnd_mag_le_pow2[OF x assms(3)]) simp
  also have "\<dots> < pow2 1024" by (simp add: pow2_less_iff)
  finally show ?thesis using x m u pow2_pos[of e] by (auto simp: rnd64_def Let_def)
qed

lemma Seconds_pos:
  assumes "0 < d" "d < 2 ^ 63"
  shows "\<exists>s. Seconds d = Fin s \<and> pow2 (- 40) \<le> s"
proof -
  let ?sec = "d div 10 ^ 9" and ?n = "d mod 10 ^ 9"
  have go: "go_quot d (10 ^ 9) = ?sec" using assms(1) by (simp add: go_quot_def)
  have n: "d - 10 ^ 9 * ?sec = ?n" by (simp add: minus_mult_div_eq_mod)
  have bounds: "0 \<le> ?sec" "0 \<le> ?n" "?n < 10 ^ 9" "?sec \<le> 2 ^ 53"
    using assms zdiv_mono1[of d "2 ^ 63" "10 ^ 9"] by (simp_all add: pos_imp_zdiv_nonneg_iff)
  have fsec: "of_int64 ?sec = Fin (of_int ?sec)" "of_int64 ?n = Fin (of_int ?n)"
    unfolding of_int64_def by (rule rnd64_int, use bounds in simp)+
  have small: "(of_int ?sec :: rat) \<le> 2 ^ 53"
    using bounds(4) by (metis of_int_le_iff of_int_numeral of_int_power)
  have "\<exists>f. fdiv (of_int64 ?n) (Fin (10 ^ 9)) = Fin f \<and> (if ?n = 0 then f = 0 else pow2 (- 31) \<le> f) \<and> f \<le> 1 \<and> 0 \<le> f"
  proof (cases "?n = 0")
    case True
    then show ?thesis using fsec(2) by (simp add: fdiv_def fzero_def)
  next
    case False
    then have q: "(1 :: rat) \<le> of_int ?n" "(of_int ?n :: rat) \<le> 10 ^ 9" using bounds(2,3) by simp_all
    then have "pow2 (- 31) \<le> of_int ?n / 10 ^ 9" by (simp add: pow2_def field_simps)
    from rnd64_ge_pow2[OF this] q obtain f where f: "rnd64 (of_int ?n / 10 ^ 9) = Fin f" "pow2 (- 31) \<le> f"
      using pow2_mono[of 0 900] by (auto simp: pow2_def)
    have "0 \<le> (of_int ?n :: rat) / 10 ^ 9" "of_int ?n / 10 ^ 9 \<le> (1 :: rat)" using q by simp_all
    from rnd64_nonneg_mono[OF this, of 1] rnd64_int[of 1] f have "f \<le> 1" by auto
    moreover have "0 \<le> f" using f(2) pow2_pos[of "- 31"] by linarith
    ultimately show ?thesis using f False fsec(2) by (auto simp: fdiv_def)
  qed
  then obtain f where f: "fdiv (of_int64 ?n) (Fin (10 ^ 9)) = Fin f" "?n = 0 \<longrightarrow> f = 0" "?n \<noteq> 0 \<longrightarrow> pow2 (- 31) \<le> f"
    "f \<le> 1" "0 \<le> f" by (auto split: if_splits)
  have s: "Seconds d = rnd64 (of_int ?sec + f)"
    unfolding Seconds_def Let_def go n f(1) fsec(1) by (simp add: fadd_def)
  have "pow2 (- 40) \<le> of_int ?sec + f"
  proof (cases "?n = 0")
    case True
    then have "?sec \<noteq> 0" using assms(1) by (metis div_mult_mod_eq add.right_neutral mult_zero_left less_irrefl)
    then have "(1 :: rat) \<le> of_int ?sec" using bounds(1) by simp
    with f(5) show ?thesis using pow2_mono[of "- 40" 0] by (simp add: pow2_def)
  next
    case False
    have "pow2 (- 40) \<le> pow2 (- 31)" by (rule pow2_mono) simp
    with f(3) False bounds(1) show ?thesis by (simp add: add_increasing)
  qed
  moreover have "of_int ?sec + f \<le> pow2 900"
    using small f(4) pow2_mono[of 54 900] by (simp add: pow2_def)
  ultimately show ?thesis using rnd64_ge_pow2[of "- 40" "of_int ?sec + f"] s by auto
qed

lemma metrics_tps_fin:
  assumes "int64_range (ordersSent agg)" "0 < d" "d < 2 ^ 63"
  shows "is_fin (metrics_tps agg d)"
proof -
  obtain s where s: "Seconds d = Fin s" "pow2 (- 40) \<le> s" using Seconds_pos[OF assms(2,3)] by blast
  have p: "0 < s" using s(2) pow2_pos[of "- 40"] by linarith
  let ?o = "of_int64 (ordersSent agg)"
  have o: "is_fin ?o" "\<bar>fval ?o\<bar> \<le> pow2 63" using of_int64_abs_le[OF assms(1)] by simp_all
  have "\<bar>fval ?o / s\<bar> \<le> pow2 63 / pow2 (- 40)"
    unfolding abs_divide using o(2) s(2) p by (intro frac_le) simp_all
  also have "\<dots> = pow2 103" by (simp add: pow2_def)
  also have "\<dots> \<le> pow2 1000" by (rule pow2_mono) simp
  finally have "is_fin (rnd64 (fval ?o / s))" by (rule rnd64_fin)
  moreover have "?o \<noteq> NaN" using o(1) by auto
  ultimately show ?thesis unfolding metrics_tps_def s(1) using o(1) p
    by (auto simp: fdiv_def Let_def fzero_def)
qed

end
