(* ===== verification/BotOrchestrator.thy ===== *)
theory BotOrchestrator
  imports BotRunner
begin

text \<open>
  The bot orchestrator (\<open>services/bot-orchestrator\<close>): a test run as a bot runner Job (\<open>Handle\<close>,
  \<open>runTest\<close>, \<open>waitForJob\<close> of \<open>orchestrator.go\<close>) and the server that admits runs by HTTP and from the
  topic (\<open>main.go\<close>, \<open>consumer.go\<close>). Kubernetes and Kafka are parameters: what each call answers is in
  the record \<open>test_world\<close>, and the requests that go out are a list of actions. Every call of a run is
  made with the one context that \<open>Handle\<close> is given; from the moment that is done, the clients refuse
  a call without sending it.
\<close>

section \<open>A test run\<close>

record SandboxReadyEvent =
  e_SubmissionID :: string
  e_PodName :: string
  e_PodIP :: string
  e_HTTPPort :: int
  e_WSPort :: int
  e_TeamName :: string

record Config =
  NumBots :: int64
  DurationSeconds :: int64
  JobTimeoutSec :: int64
  WarmupSeconds :: int64
  RedpandaBrokers :: string
  SchemaRegistryURL :: string
  BotRunnerImage :: string
  SandboxNamespace :: string

record TestCompleteEvent =
  tc_SubmissionID :: string
  tc_TeamName :: string
  tc_Success :: bool
  tc_Reason :: string

text \<open>A watch event: a modified object that is a Job with its counts (or is none), an error, or another type.\<close>

datatype watch_event = Modified "(int \<times> int) option" | WatchError string | OtherEvent

text \<open>The points of a run at which its context is used, in their order.\<close>

datatype stage = AtCreate | AtWarmUp | AtWatch | AfterWatch | AtDeleteJob | AtDeletePod | AtReport

fun stage_no :: "stage \<Rightarrow> nat" where
  "stage_no AtCreate = 0"
| "stage_no AtWarmUp = 1"
| "stage_no AtWatch = 2"
| "stage_no AfterWatch = 3"
| "stage_no AtDeleteJob = 4"
| "stage_no AtDeletePod = 5"
| "stage_no AtReport = 6"

instantiation stage :: linorder
begin

definition less_eq_stage :: "stage \<Rightarrow> stage \<Rightarrow> bool" where
  "less_eq_stage a b \<longleftrightarrow> stage_no a \<le> stage_no b"

definition less_stage :: "stage \<Rightarrow> stage \<Rightarrow> bool" where
  "less_stage a b \<longleftrightarrow> stage_no a < stage_no b"

instance
proof
  fix a b :: stage
  show "a \<le> b \<Longrightarrow> b \<le> a \<Longrightarrow> a = b" by (cases a; cases b) (simp_all add: less_eq_stage_def)
qed (auto simp: less_eq_stage_def less_stage_def)

end

text \<open>
  What the API server answers to the creation and to the watch, whether the warm-up ends because the
  context is done (when the timer runs out at the same moment, either may happen), from which point on
  the context is done, if it is at all, and the text of the error for a call that is refused then.
\<close>

record test_world =
  w_create :: "string option"
  w_interrupted :: bool
  w_watch :: "string + watch_event list"
  w_done_from :: "stage option"
  w_refused :: string

definition done_by :: "test_world \<Rightarrow> stage \<Rightarrow> bool" where
  "done_by w st = (case w_done_from w of None \<Rightarrow> False | Some st' \<Rightarrow> st' \<le> st)"

datatype test_error =
    CreateJobError string
  | ContextError
  | WatchJobError string
  | WatchEventError string
  | JobFailedError string
  | JobTimedOutError string int64

definition error_text :: "test_error \<Rightarrow> string" where
  "error_text err = (case err of
      CreateJobError s \<Rightarrow> ''create job: '' @ s
    | ContextError \<Rightarrow> ''context canceled''
    | WatchJobError s \<Rightarrow> ''watch job: '' @ s
    | WatchEventError s \<Rightarrow> ''watch error: '' @ s
    | JobFailedError job \<Rightarrow> ''job '' @ job @ '' failed''
    | JobTimedOutError job n \<Rightarrow> ''job '' @ job @ '' timed out after '' @ show_int n @ ''s'')"

text \<open>The Job that is created, with its one pod template and its one container.\<close>

record bot_job =
  j_Name :: string
  j_Namespace :: string
  j_TTLSecondsAfterFinished :: int
  j_BackoffLimit :: int
  j_Completions :: int
  j_Parallelism :: int
  j_PodLabels :: "(string \<times> string) list"
  j_RestartPolicy :: string
  j_Container :: string
  j_Image :: string
  j_Env :: "(string \<times> string) list"
  j_Requests :: "(string \<times> string) list"
  j_Limits :: "(string \<times> string) list"

text \<open>What a run does: the requests it sends, and the wait.\<close>

datatype action =
    CreateJob bot_job
  | WarmUp int64
  | DeleteJob string
  | DeletePod string string
  | PublishTestComplete TestCompleteEvent

definition job_name :: "SandboxReadyEvent \<Rightarrow> string" where
  "job_name event = ''bot-runner-'' @ e_SubmissionID event"

definition job_env :: "Config \<Rightarrow> SandboxReadyEvent \<Rightarrow> (string \<times> string) list" where
  "job_env cfg event =
     [(''TARGET_ENDPOINT'', ''ws://'' @ e_PodIP event @ '':'' @ show_int (e_WSPort event) @ ''/stream''),
      (''NUM_BOTS'', show_int (NumBots cfg)),
      (''DURATION_SECONDS'', show_int (DurationSeconds cfg)),
      (''TEAM_NAME'', e_TeamName event),
      (''TEST_RUN_ID'', e_SubmissionID event),
      (''REDPANDA_BROKERS'', RedpandaBrokers cfg),
      (''SCHEMA_REGISTRY_URL'', SchemaRegistryURL cfg)]"

definition bot_job_of :: "Config \<Rightarrow> SandboxReadyEvent \<Rightarrow> bot_job" where
  "bot_job_of cfg event = \<lparr>j_Name = job_name event, j_Namespace = ''bots'', j_TTLSecondsAfterFinished = 300, j_BackoffLimit = 0,
     j_Completions = 1, j_Parallelism = 1, j_PodLabels = [(''app.kubernetes.io/name'', ''bot-runner'')],
     j_RestartPolicy = ''Never'', j_Container = ''bot-runner'', j_Image = BotRunnerImage cfg, j_Env = job_env cfg event,
     j_Requests = [(''cpu'', ''100m''), (''memory'', ''512Mi'')], j_Limits = [(''cpu'', ''2''), (''memory'', ''1Gi'')]\<rparr>"

text \<open>The loop over the watch channel: \<open>None\<close> when the channel is closed first.\<close>

fun watch_loop :: "string \<Rightarrow> watch_event list \<Rightarrow> test_error option option" where
  "watch_loop jobName [] = None"
| "watch_loop jobName (Modified None # es) = watch_loop jobName es"
| "watch_loop jobName (Modified (Some (succeeded, failed)) # es) =
     (if succeeded > 0 then Some None
      else if failed > 0 then Some (Some (JobFailedError jobName))
      else watch_loop jobName es)"
| "watch_loop jobName (WatchError s # es) = Some (Some (WatchEventError s))"
| "watch_loop jobName (OtherEvent # es) = watch_loop jobName es"

definition waitForJob :: "Config \<Rightarrow> test_world \<Rightarrow> string \<Rightarrow> test_error option" where
  "waitForJob cfg w jobName =
     (case if done_by w AtWatch then Inl (w_refused w) else w_watch w of
        Inl s \<Rightarrow> Some (WatchJobError s)
      | Inr es \<Rightarrow> (case watch_loop jobName es of
          Some result \<Rightarrow> result
        | None \<Rightarrow> if done_by w AfterWatch then Some ContextError else Some (JobTimedOutError jobName (JobTimeoutSec cfg))))"

definition deleteJob :: "test_world \<Rightarrow> string \<Rightarrow> action list" where
  "deleteJob w jobName = (if done_by w AtDeleteJob then [] else [DeleteJob jobName])"

definition runTest :: "Config \<Rightarrow> test_world \<Rightarrow> SandboxReadyEvent \<Rightarrow> test_error option \<times> action list" where
  "runTest cfg w event =
     (let jobName = job_name event; create = CreateJob (bot_job_of cfg event)
      in if done_by w AtCreate then (Some (CreateJobError (w_refused w)), [])
         else case w_create w of
           Some s \<Rightarrow> (Some (CreateJobError s), [create])
         | None \<Rightarrow>
             if done_by w AtWarmUp \<and> w_interrupted w then (Some ContextError, [create, WarmUp (WarmupSeconds cfg)])
             else (waitForJob cfg w jobName, [create, WarmUp (WarmupSeconds cfg)] @ deleteJob w jobName))"

definition deleteSandboxPod :: "Config \<Rightarrow> test_world \<Rightarrow> string \<Rightarrow> action list" where
  "deleteSandboxPod cfg w podName =
     (if podName = [] then []
      else if done_by w AtDeletePod then []
      else [DeletePod (SandboxNamespace cfg) podName])"

text \<open>The report: one produce, under a timeout derived from the same context.\<close>

definition PublishTestComplete_call :: "test_world \<Rightarrow> TestCompleteEvent \<Rightarrow> action list" where
  "PublishTestComplete_call w e = (if done_by w AtReport then [] else [PublishTestComplete e])"

definition Handle_test :: "Config \<Rightarrow> test_world \<Rightarrow> SandboxReadyEvent \<Rightarrow> action list" where
  "Handle_test cfg w event =
     (let (err, actions) = runTest cfg w event;
          success = (err = None);
          reason = (case err of None \<Rightarrow> [] | Some e \<Rightarrow> error_text e)
      in actions @ deleteSandboxPod cfg w (e_PodName event) @
         PublishTestComplete_call w \<lparr>tc_SubmissionID = e_SubmissionID event, tc_TeamName = e_TeamName event,
            tc_Success = success, tc_Reason = reason\<rparr>)"

section \<open>The server\<close>

record Server =
  activeTests :: "string set"
  tests :: "SandboxReadyEvent list"

definition new_server :: Server where
  "new_server = \<lparr>activeTests = {}, tests = []\<rparr>"

definition with_defaults :: "SandboxReadyEvent \<Rightarrow> SandboxReadyEvent" where
  "with_defaults event =
     (let event = (if e_SubmissionID event = [] then event\<lparr>e_SubmissionID := ''manual-run''\<rparr> else event);
          event = (if e_PodIP event = [] then event\<lparr>e_PodIP := ''submission-api.platform.svc.cluster.local''\<rparr> else event);
          event = (if e_WSPort event = 0 then event\<lparr>e_WSPort := 8080\<rparr> else event)
      in if e_TeamName event = [] then event\<lparr>e_TeamName := ''manual-team''\<rparr> else event)"

text \<open>The check and the mark under the mutex, common to both ways in: \<open>None\<close> when a test is running.\<close>

definition admit :: "SandboxReadyEvent \<Rightarrow> Server \<Rightarrow> Server option" where
  "admit event s =
     (if e_SubmissionID event \<in> activeTests s then None
      else Some (s\<lparr>activeTests := insert (e_SubmissionID event) (activeTests s), tests := event # tests s\<rparr>))"

text \<open>\<open>POST /run\<close>: the body decodes to an event (a request without a body to the zero event), or not.\<close>

definition runHandler :: "bool \<Rightarrow> SandboxReadyEvent option \<Rightarrow> Server \<Rightarrow> nat \<times> Server" where
  "runHandler is_post body s =
     (if \<not> is_post then (405, s)
      else case body of
        None \<Rightarrow> (400, s)
      | Some event \<Rightarrow>
          (case admit (with_defaults event) s of None \<Rightarrow> (409, s) | Some s' \<Rightarrow> (202, s')))"

definition statusHandler :: "bool \<Rightarrow> Server \<Rightarrow> nat \<times> string" where
  "statusHandler is_get s =
     (if \<not> is_get then (405, []) else (200, if activeTests s \<noteq> {} then ''running'' else ''idle''))"

text \<open>
  A record of the topic: \<open>decode\<close> fails, or gives another type or another event (both \<open>Some None\<close>), or
  a sandbox that is ready. A test that is running makes the event ignored.
\<close>

definition on_record :: "(nat list \<Rightarrow> SandboxReadyEvent option option) \<Rightarrow> nat list \<Rightarrow> Server \<Rightarrow> Server" where
  "on_record decode r s =
     (case decode r of Some (Some event) \<Rightarrow> (case admit event s of None \<Rightarrow> s | Some s' \<Rightarrow> s') | _ \<Rightarrow> s)"

text \<open>The deferred clean-up, when \<open>Handle\<close> has returned or panicked.\<close>

definition test_done :: "SandboxReadyEvent \<Rightarrow> Server \<Rightarrow> Server" where
  "test_done event s = s\<lparr>activeTests := activeTests s - {e_SubmissionID event}, tests := remove1 event (tests s)\<rparr>"

inductive orch_step :: "Server \<Rightarrow> Server \<Rightarrow> bool" where
  request: "orch_step s (snd (runHandler is_post body s))"
| record_in: "orch_step s (on_record decode r s)"
| finished: "event \<in> set (tests s) \<Longrightarrow> orch_step s (test_done event s)"

inductive orch_reachable :: "Server \<Rightarrow> bool" where
  start: "orch_reachable new_server"
| step: "orch_reachable s \<Longrightarrow> orch_step s s' \<Longrightarrow> orch_reachable s'"

definition server_consistent :: "Server \<Rightarrow> bool" where
  "server_consistent s \<longleftrightarrow> distinct (map e_SubmissionID (tests s)) \<and> activeTests s = e_SubmissionID ` set (tests s)"

lemma admit_consistent: "server_consistent s \<Longrightarrow> admit event s = Some s' \<Longrightarrow> server_consistent s'"
  by (auto simp: server_consistent_def admit_def split: if_splits)

lemma map_remove1_distinct:
  "distinct (map f xs) \<Longrightarrow> x \<in> set xs \<Longrightarrow> distinct (map f (remove1 x xs)) \<and> f ` set (remove1 x xs) = f ` set xs - {f x}"
  by (induction xs) auto

lemma orch_step_consistent: "orch_step s s' \<Longrightarrow> server_consistent s \<Longrightarrow> server_consistent s'"
proof (induction rule: orch_step.induct)
  case (request s is_post body)
  then show ?case by (auto simp: runHandler_def intro: admit_consistent split: option.splits)
next
  case (record_in s decode r)
  then show ?case by (auto simp: on_record_def intro: admit_consistent split: option.splits)
next
  case (finished event s)
  then show ?case using map_remove1_distinct[of e_SubmissionID "tests s" event]
    by (simp add: server_consistent_def test_done_def)
qed

lemma orch_reachable_consistent: "orch_reachable s \<Longrightarrow> server_consistent s"
proof (induction rule: orch_reachable.induct)
  case start
  show ?case by (simp add: server_consistent_def new_server_def)
qed (rule orch_step_consistent)

section \<open>The environment of the Job\<close>

text \<open>
  What the container of the Job sees: the variables of the list with the values of the list, every other
  one unset. Kubernetes documents that it expands references \<open>$(NAME)\<close> in a value, which this reading of
  the list leaves out. A value without a dollar sign has no reference; \<open>job_env_plain\<close> says when all the
  values of a Job are such, and \<open>Pipeline.topic_event_plain\<close> that the id and the team of a test from the
  topic always are.
\<close>

definition container_env :: "(string \<times> string) list \<Rightarrow> environment" where
  "container_env kvs key = (case map_of kvs key of None \<Rightarrow> [] | Some v \<Rightarrow> v)"

lemma show_int_plain: "CHR ''$'' \<notin> set (show_int i)"
proof -
  have "CHR ''$'' \<notin> set (show_nat n)" for n using show_nat_chars[of "CHR ''$''" n] by auto
  then show ?thesis by (simp add: show_int_def)
qed

lemma job_env_plain:
  assumes "\<And>v. CHR ''$'' \<notin> set v \<Longrightarrow> expand v = v"
    "CHR ''$'' \<notin> set (e_PodIP event) \<union> set (e_TeamName event) \<union> set (e_SubmissionID event)"
    "CHR ''$'' \<notin> set (RedpandaBrokers cfg) \<union> set (SchemaRegistryURL cfg)"
  shows "map (\<lambda>(key, v). (key, expand v)) (job_env cfg event) = job_env cfg event"
  using assms(2,3) show_int_plain by (auto simp: job_env_def intro!: assms(1))

lemma job_env_config:
  assumes "int64_range (NumBots cfg)" "int64_range (DurationSeconds cfg)" "e_TeamName event \<noteq> []"
    "RedpandaBrokers cfg = join_comma (parse_brokers raw)"
  shows "rc_numBots (runner_config (container_env (job_env cfg event))) = NumBots cfg"
    "rc_durationSec (runner_config (container_env (job_env cfg event))) = DurationSeconds cfg"
    "rc_submissionID (runner_config (container_env (job_env cfg event))) = e_SubmissionID event"
    "rc_teamName (runner_config (container_env (job_env cfg event))) = e_TeamName event"
    "rc_brokers (runner_config (container_env (job_env cfg event))) = parse_brokers raw"
proof -
  have ne: "show_int i \<noteq> []" for i by (simp add: show_int_def show_nat_neq_Nil)
  have look: "container_env (job_env cfg event) ''TEAM_NAME'' = e_TeamName event"
    "container_env (job_env cfg event) ''TEST_RUN_ID'' = e_SubmissionID event"
    "container_env (job_env cfg event) ''REDPANDA_BROKERS'' = RedpandaBrokers cfg"
    by (simp_all add: container_env_def job_env_def)
  have nodef: "envStr env key [] = env key" for env key by (simp add: envStr_def)
  show "rc_numBots (runner_config (container_env (job_env cfg event))) = NumBots cfg"
    "rc_durationSec (runner_config (container_env (job_env cfg event))) = DurationSeconds cfg"
    using assms(1,2) ne by (simp_all add: runner_config_def envInt_def container_env_def job_env_def Atoi_show_int)
  show "rc_submissionID (runner_config (container_env (job_env cfg event))) = e_SubmissionID event"
    "rc_teamName (runner_config (container_env (job_env cfg event))) = e_TeamName event"
    "rc_brokers (runner_config (container_env (job_env cfg event))) = parse_brokers raw"
    using assms(3,4) parse_join_brokers[of raw]
    by (simp_all add: runner_config_def nodef look)  (simp add: envStr_def look)
qed

section \<open>Properties\<close>

definition decisive :: "watch_event \<Rightarrow> bool" where
  "decisive e = (case e of Modified None \<Rightarrow> False | Modified (Some (succeeded, failed)) \<Rightarrow> succeeded > 0 \<or> failed > 0
     | WatchError s \<Rightarrow> True | OtherEvent \<Rightarrow> False)"

text \<open>The loop decides by the first event that reports an end or an error.\<close>

lemma watch_loop_find:
  "watch_loop job es = (case find decisive es of
     None \<Rightarrow> None
   | Some (WatchError s) \<Rightarrow> Some (Some (WatchEventError s))
   | Some (Modified (Some (succeeded, failed))) \<Rightarrow> Some (if succeeded > 0 then None else Some (JobFailedError job))
   | Some _ \<Rightarrow> None)"
  by (induction job es rule: watch_loop.induct) (auto simp: decisive_def)

text \<open>The context stays done.\<close>

lemma done_by_mono: "done_by w a \<Longrightarrow> a \<le> b \<Longrightarrow> done_by w b"
  by (auto simp: done_by_def split: option.splits)

lemma waitForJob_None: "waitForJob cfg w j = None \<longleftrightarrow> \<not> done_by w AtWatch \<and>
    (\<exists>es succeeded failed. w_watch w = Inr es \<and> find decisive es = Some (Modified (Some (succeeded, failed))) \<and> succeeded > 0)"
  by (auto simp: waitForJob_def watch_loop_find decisive_def
      split: sum.splits option.splits watch_event.splits prod.splits if_splits)

text \<open>C22: No two tests of one submission run at a time, whichever way they come in, and the status is
  running exactly when some test is. (Tests of different submissions do run at the same time.)\<close>

theorem one_test_per_submission:
  assumes "orch_reachable s"
  shows "distinct (map e_SubmissionID (tests s)) \<and>
    statusHandler True s = (200, if tests s = [] then ''idle'' else ''running'') \<and>
    (admit event s = None \<longleftrightarrow> (\<exists>t \<in> set (tests s). e_SubmissionID t = e_SubmissionID event))"
proof -
  have s: "distinct (map e_SubmissionID (tests s))" "activeTests s = e_SubmissionID ` set (tests s)"
    using orch_reachable_consistent[OF assms] by (simp_all add: server_consistent_def)
  moreover have "e_SubmissionID event \<in> e_SubmissionID ` set (tests s) \<longleftrightarrow>
      (\<exists>t \<in> set (tests s). e_SubmissionID t = e_SubmissionID event)"
    by (metis imageE imageI)
  ultimately show ?thesis by (simp add: statusHandler_def admit_def)
qed

definition demo_ready :: "string \<Rightarrow> SandboxReadyEvent" where
  "demo_ready sub = \<lparr>e_SubmissionID = sub, e_PodName = ''pod'', e_PodIP = ''10.0.0.1'', e_HTTPPort = 8080, e_WSPort = 8080,
     e_TeamName = ''team''\<rparr>"

theorem one_test_per_submission_witness:
  "\<exists>s. orch_reachable s \<and> length (tests s) = 2 \<and> distinct (map e_SubmissionID (tests s))"
proof -
  let ?s1 = "snd (runHandler True (Some (demo_ready ''a'')) new_server)"
  let ?s2 = "snd (runHandler True (Some (demo_ready ''b'')) ?s1)"
  have "orch_reachable ?s2"
    by (rule orch_reachable.step[OF orch_reachable.step[OF orch_reachable.start orch_step.request] orch_step.request])
  moreover have "length (tests ?s2) = 2"
    by (simp add: runHandler_def admit_def with_defaults_def demo_ready_def new_server_def Let_def)
  ultimately show ?thesis using one_test_per_submission[of ?s2] by blast
qed


text \<open>A run whose Job succeeds.\<close>

definition demo_cfg :: Config where
  "demo_cfg = \<lparr>NumBots = 50, DurationSeconds = 60, JobTimeoutSec = 120, WarmupSeconds = 15,
     RedpandaBrokers = ''a:1,b:2'', SchemaRegistryURL = ''u'', BotRunnerImage = ''i'', SandboxNamespace = ''sandboxes''\<rparr>"

definition good_test :: test_world where
  "good_test = \<lparr>w_create = None, w_interrupted = False, w_watch = Inr [OtherEvent, Modified (Some (0, 0)), Modified (Some (1, 0))],
     w_done_from = None, w_refused = []\<rparr>"

text \<open>The service is told to stop while the sandbox warms up.\<close>

definition interrupted_test :: test_world where
  "interrupted_test = good_test\<lparr>w_interrupted := True, w_done_from := Some AtWarmUp\<rparr>"


text \<open>A Job that is finished before the watch begins is reported as timed out. The watch then
  brings its state with an event of type Added, which the loop ignores, and nothing modifies the Job
  any more.\<close>

lemma early_completion_times_out:
  assumes "w_create w = None" "\<not> w_interrupted w" "w_watch w = Inr (replicate n OtherEvent)" "w_done_from w = None"
  shows "fst (runTest cfg w event) = Some (JobTimedOutError (job_name event) (JobTimeoutSec cfg))"
proof -
  have "find decisive (replicate n OtherEvent) = None" by (induction n) (simp_all add: decisive_def)
  with assms show ?thesis by (simp add: runTest_def Let_def waitForJob_def watch_loop_find done_by_def)
qed

end
