(* ===== verification/HttpRoutes.thy ===== *)
theory HttpRoutes
  imports SubmissionApi BotOrchestrator
begin

text \<open>
  The HTTP servers: the routes each \<open>main.go\<close> registers, with what it uses of \<open>http.ServeMux\<close> (patterns with
  a method, literal segments, \<open>{id}\<close>, and the subtree \<open>/\<close>), the middleware of the submission API, and its
  handlers and those of the bot orchestrator behind their routes.
\<close>

section \<open>Patterns and paths\<close>

fun split_slash :: "string \<Rightarrow> string list" where
  "split_slash [] = [[]]"
| "split_slash (c # cs) =
     (if c = CHR ''/'' then [] # split_slash cs
      else case split_slash cs of [] \<Rightarrow> [[c]] | p # ps \<Rightarrow> (c # p) # ps)"

datatype pattern_segment = Literal string | Wild

record route =
  rt_method :: string
  rt_segments :: "pattern_segment list"
  rt_subtree :: bool
  rt_pattern :: string

text \<open>A pattern is a method and a space, if it has any, and a path; one that ends in a slash is a subtree.\<close>

definition parse_pattern :: "string \<Rightarrow> route" where
  "parse_pattern p =
     (let (meth, path) = (if CHR '' '' \<in> set p
            then (takeWhile (\<lambda>c. c \<noteq> CHR '' '') p, tl (dropWhile (\<lambda>c. c \<noteq> CHR '' '') p)) else ([], p));
          segs = split_slash (tl path);
          subtree = (last segs = []);
          segs = (if subtree then butlast segs else segs)
      in \<lparr>rt_method = meth, rt_segments = map (\<lambda>s. if s \<noteq> [] \<and> hd s = CHR ''{'' then Wild else Literal s) segs,
          rt_subtree = subtree, rt_pattern = p\<rparr>)"

text \<open>\<open>url.PathUnescape\<close>; a text that is no escaped one stays as it is.\<close>

definition hex_value :: "char \<Rightarrow> nat option" where
  "hex_value c = (let d = (of_char c :: nat) in
     if 48 \<le> d \<and> d \<le> 57 then Some (d - 48) else if 97 \<le> d \<and> d \<le> 102 then Some (d - 87)
     else if 65 \<le> d \<and> d \<le> 70 then Some (d - 55) else None)"

fun unescape :: "string \<Rightarrow> string option" where
  "unescape [] = Some []"
| "unescape (c # cs) =
     (if c = CHR ''%''
      then (case cs of a # b # tail \<Rightarrow>
              (case (hex_value a, hex_value b) of
                 (Some h, Some l) \<Rightarrow> map_option (Cons (char_of (16 * h + l))) (unescape tail) | _ \<Rightarrow> None)
            | _ \<Rightarrow> None)
      else map_option (Cons c) (unescape cs))"

definition pathUnescape :: "string \<Rightarrow> string" where
  "pathUnescape s = (case unescape s of Some t \<Rightarrow> t | None \<Rightarrow> s)"

text \<open>
  The values of the wildcards when the segments of a path match. A wildcard takes one segment, which may
  be empty only between two slashes.
\<close>

fun match_segments :: "pattern_segment list \<Rightarrow> bool \<Rightarrow> string list \<Rightarrow> string list option" where
  "match_segments [] subtree path = (if subtree \<or> path = [] then Some [] else None)"
| "match_segments (p # ps) subtree [] = None"
| "match_segments (Literal l # ps) subtree (s # ss) = (if pathUnescape s = l then match_segments ps subtree ss else None)"
| "match_segments (Wild # ps) subtree (s # ss) =
     (if s = [] \<and> ss = [] then None else map_option (Cons (pathUnescape s)) (match_segments ps subtree ss))"

section \<open>The multiplexer\<close>

text \<open>The methods of a pattern: none is any, and \<open>GET\<close> takes \<open>HEAD\<close> too.\<close>

definition takes_method :: "route \<Rightarrow> string \<Rightarrow> bool" where
  "takes_method r m \<longleftrightarrow> rt_method r = [] \<or> rt_method r = m \<or> rt_method r = ''GET'' \<and> m = ''HEAD''"

definition clean_path :: "string \<Rightarrow> bool" where
  "clean_path path \<longleftrightarrow> (\<exists>p. path = CHR ''/'' # p \<and>
     list_all (\<lambda>s. s \<noteq> []) (butlast (split_slash p)) \<and>
     list_all (\<lambda>s. s \<noteq> ''.'' \<and> s \<noteq> ''..'') (split_slash p))"

lemma clean_path_code [code]:
  "clean_path path = (case path of [] \<Rightarrow> False | c # p \<Rightarrow> c = CHR ''/'' \<and>
     list_all (\<lambda>s. s \<noteq> []) (butlast (split_slash p)) \<and>
     list_all (\<lambda>s. s \<noteq> ''.'' \<and> s \<noteq> ''..'') (split_slash p))"
  by (cases path) (auto simp: clean_path_def)

text \<open>A path that is not clean is redirected; among the routes that match, the subtree comes last.\<close>

datatype dispatch = Redirected | NotFound404 | NotAllowed405 | Dispatch string "string list"

fun first_match :: "route list \<Rightarrow> string list \<Rightarrow> dispatch option" where
  "first_match [] segs = None"
| "first_match (r # rs) segs =
     (case match_segments (rt_segments r) (rt_subtree r) segs of
        Some vs \<Rightarrow> Some (Dispatch (rt_pattern r) vs) | None \<Rightarrow> first_match rs segs)"

definition ServeMux :: "string list \<Rightarrow> string \<Rightarrow> string \<Rightarrow> dispatch" where
  "ServeMux patterns meth path =
     (if meth \<noteq> ''CONNECT'' \<and> \<not> clean_path path then Redirected
      else
        let rs = map parse_pattern patterns;
            rs = filter (\<lambda>r. \<not> rt_subtree r) rs @ filter rt_subtree rs;
            segs = split_slash (tl path)
        in case first_match (filter (\<lambda>r. takes_method r meth) rs) segs of
             Some d \<Rightarrow> d
           | None \<Rightarrow> if first_match rs segs = None then NotFound404 else NotAllowed405)"

section \<open>The routes of the services\<close>

definition submission_routes :: "string list" where
  "submission_routes = [''GET /healthz'', ''POST /submissions'', ''POST /submissions/{id}/confirm'']"

definition leaderboard_routes :: "string list" where
  "leaderboard_routes = [''GET /healthz'', ''GET /api/leaderboard'', ''GET /ws'', ''GET /'']"

definition orchestrator_routes :: "string list" where
  "orchestrator_routes = [''/run'', ''/status'', ''/healthz'']"

definition stub_routes :: "string list" where
  "stub_routes = [''GET /healthz'', ''GET /stream'', ''GET /orderbook'']"

section \<open>The submission API\<close>

record http_request =
  rq_method :: string
  rq_path :: string
  rq_request_id :: string
  rq_json :: "SubmitInitRequest option"

text \<open>The id under which the handlers log: that of the client, or a new one.\<close>

definition requestIDMiddleware :: "string \<Rightarrow> http_request \<Rightarrow> (string \<Rightarrow> http_request \<Rightarrow> 'a) \<Rightarrow> 'a" where
  "requestIDMiddleware new_id r next_handler =
     (let reqID = rq_request_id r; reqID = (if reqID = [] then new_id else reqID) in next_handler reqID r)"

datatype api_reply = MuxReply dispatch | Healthy | Answer http_answer

type_synonym api_data = "pending_map \<times> LifecycleEvent list"

text \<open>The handlers behind the routes, with the id for the log.\<close>

definition submission_mux :: "string \<Rightarrow> (string \<Rightarrow> string + string) \<Rightarrow> broker \<Rightarrow> int64 \<Rightarrow> api_data \<Rightarrow> string \<Rightarrow> http_request \<Rightarrow>
    string \<times> api_reply \<times> api_data" where
  "submission_mux new_uuid presign br unix_nano st reqID r =
     (reqID,
      case ServeMux submission_routes (rq_method r) (rq_path r) of
        Dispatch pat vs \<Rightarrow>
          if pat = ''GET /healthz'' then (Healthy, st)
          else if pat = ''POST /submissions''
          then (let (a, pending) = handleSubmitInit new_uuid presign unix_nano (rq_json r) (fst st) in (Answer a, pending, snd st))
          else (let (a, st) = handleConfirm br unix_nano (case vs of [] \<Rightarrow> [] | v # _ \<Rightarrow> v) st in (Answer a, st))
      | d \<Rightarrow> (MuxReply d, st))"

definition serve_submission :: "string \<Rightarrow> string \<Rightarrow> (string \<Rightarrow> string + string) \<Rightarrow> broker \<Rightarrow> int64 \<Rightarrow> http_request \<Rightarrow> api_data \<Rightarrow>
    string \<times> api_reply \<times> api_data" where
  "serve_submission new_id new_uuid presign br unix_nano r st =
     requestIDMiddleware new_id r (submission_mux new_uuid presign br unix_nano st)"

section \<open>The bot orchestrator\<close>

text \<open>Status and body; the patterns have no method, so the handlers check it themselves.\<close>

definition serve_orchestrator :: "string \<Rightarrow> string \<Rightarrow> SandboxReadyEvent option \<Rightarrow> Server \<Rightarrow> (dispatch + nat \<times> string) \<times> Server" where
  "serve_orchestrator meth path body s =
     (case ServeMux orchestrator_routes meth path of
        Dispatch pat vs \<Rightarrow>
          if pat = ''/run'' then (let (code, s) = runHandler (meth = ''POST'') body s in (Inr (code, []), s))
          else if pat = ''/status'' then (Inr (statusHandler (meth = ''GET'') s), s)
          else (Inr (200, ''ok''), s)
      | d \<Rightarrow> (Inl d, s))"

section \<open>What the routes do\<close>

lemma split_slash_plain: "CHR ''/'' \<notin> set s \<Longrightarrow> split_slash s = [s]"
  by (induction s) auto

lemma split_slash_append: "CHR ''/'' \<notin> set p \<Longrightarrow> split_slash (p @ CHR ''/'' # s) = p # split_slash s"
  by (induction p) auto

lemma pathUnescape_plain: "CHR ''%'' \<notin> set s \<Longrightarrow> pathUnescape s = s"
proof -
  have "CHR ''%'' \<notin> set s \<Longrightarrow> unescape s = Some s" by (induction s) auto
  then show "CHR ''%'' \<notin> set s \<Longrightarrow> pathUnescape s = s" by (simp add: pathUnescape_def)
qed

lemma pathUnescape_neq_Nil: "s \<noteq> [] \<Longrightarrow> pathUnescape s \<noteq> []"
proof -
  have "unescape s = Some [] \<Longrightarrow> s = []"
    by (cases s) (auto split: if_splits list.splits option.splits)
  then show "s \<noteq> [] \<Longrightarrow> pathUnescape s \<noteq> []" by (auto simp: pathUnescape_def split: option.splits)
qed

lemma submission_parsed:
  "map parse_pattern submission_routes =
    [\<lparr>rt_method = ''GET'', rt_segments = [Literal ''healthz''], rt_subtree = False, rt_pattern = ''GET /healthz''\<rparr>,
     \<lparr>rt_method = ''POST'', rt_segments = [Literal ''submissions''], rt_subtree = False, rt_pattern = ''POST /submissions''\<rparr>,
     \<lparr>rt_method = ''POST'', rt_segments = [Literal ''submissions'', Wild, Literal ''confirm''], rt_subtree = False,
       rt_pattern = ''POST /submissions/{id}/confirm''\<rparr>]"
  by code_simp

lemma orchestrator_parsed:
  "map parse_pattern orchestrator_routes =
    [\<lparr>rt_method = [], rt_segments = [Literal ''run''], rt_subtree = False, rt_pattern = ''/run''\<rparr>,
     \<lparr>rt_method = [], rt_segments = [Literal ''status''], rt_subtree = False, rt_pattern = ''/status''\<rparr>,
     \<lparr>rt_method = [], rt_segments = [Literal ''healthz''], rt_subtree = False, rt_pattern = ''/healthz''\<rparr>]"
  by code_simp

lemma match_literal: "match_segments [Literal l] False segs = Some vs \<longleftrightarrow> vs = [] \<and> (\<exists>s. segs = [s] \<and> pathUnescape s = l)"
  by (cases segs) (auto split: if_splits)

lemma match_confirm:
  "match_segments [Literal a, Wild, Literal b] False segs = Some vs \<longleftrightarrow>
    (\<exists>s i c. segs = [s, i, c] \<and> pathUnescape s = a \<and> pathUnescape c = b \<and> vs = [pathUnescape i])"
  by (cases segs; cases "tl segs"; cases "tl (tl segs)"; cases "tl (tl (tl segs))") (auto split: if_splits)

text \<open>What is dispatched was registered, takes the method and matches the path.\<close>

lemma first_match_route:
  "first_match rs segs = Some d \<Longrightarrow>
    \<exists>r \<in> set rs. \<exists>vs. d = Dispatch (rt_pattern r) vs \<and> match_segments (rt_segments r) (rt_subtree r) segs = Some vs"
  by (induction rs) (auto split: option.splits)

lemma first_match_subtree:
  "r \<in> set rs \<Longrightarrow> rt_segments r = [] \<Longrightarrow> rt_subtree r \<Longrightarrow> \<exists>d. first_match rs segs = Some d"
  by (induction rs) (auto split: option.splits)

lemma ServeMux_route:
  assumes "ServeMux patterns m p = Dispatch pat vs"
  shows "(m = ''CONNECT'' \<or> clean_path p) \<and> (\<exists>r \<in> set (map parse_pattern patterns). takes_method r m \<and> pat = rt_pattern r \<and>
    match_segments (rt_segments r) (rt_subtree r) (split_slash (tl p)) = Some vs)"
proof -
  let ?rs = "map parse_pattern patterns"
  let ?f = "filter (\<lambda>r. takes_method r m) (filter (\<lambda>r. \<not> rt_subtree r) ?rs @ filter rt_subtree ?rs)"
  have c: "m = ''CONNECT'' \<or> clean_path p" using assms by (auto simp: ServeMux_def split: if_splits)
  have "first_match ?f (split_slash (tl p)) = Some (Dispatch pat vs)"
    using assms by (auto simp: ServeMux_def Let_def split: if_splits option.splits)
  from first_match_route[OF this] c show ?thesis by auto
qed

text \<open>What reaches the two handlers that change something: a \<open>POST\<close>, and an id that is not empty.\<close>

lemma submission_dispatch:
  assumes "ServeMux submission_routes m p = Dispatch pat vs"
  shows "pat = ''GET /healthz'' \<and> m \<in> {''GET'', ''HEAD''} \<or> pat = ''POST /submissions'' \<and> m = ''POST'' \<or>
    pat = ''POST /submissions/{id}/confirm'' \<and> m = ''POST'' \<and> (\<exists>i. vs = [i] \<and> i \<noteq> [])"
proof -
  note r = ServeMux_route[OF assms, unfolded submission_parsed]
  have "i \<noteq> []" if "clean_path p" "split_slash (tl p) = [s, i, c]" for s i c
    using that by (auto simp: clean_path_def)
  with r show ?thesis by (auto simp: takes_method_def match_literal match_confirm pathUnescape_neq_Nil)
qed

lemma uuid_plain: "uuid_text u \<Longrightarrow> CHR ''/'' \<notin> set u \<and> CHR ''%'' \<notin> set u \<and> CHR ''.'' \<notin> set u \<and> u \<noteq> []"
  by (auto simp: uuid_text_def uuid_char_def list_all_iff Let_def)

lemma confirm_dispatch:
  assumes "uuid_text u"
  shows "ServeMux submission_routes ''POST'' (''/submissions/'' @ u @ ''/confirm'') = Dispatch ''POST /submissions/{id}/confirm'' [u]"
proof -
  note u = uuid_plain[OF assms]
  have s: "split_slash (''submissions/'' @ u @ ''/confirm'') = [''submissions'', u, ''confirm'']"
    using u split_slash_append[of "''submissions''" "u @ ''/confirm''"] split_slash_append[of u "''confirm''"]
    by (simp add: split_slash_plain)
  moreover have "u \<noteq> ''.'' \<and> u \<noteq> ''..''" using u by auto
  ultimately have c: "clean_path (''/submissions/'' @ u @ ''/confirm'')" using u by (simp add: clean_path_def)
  have p: "pathUnescape ''submissions'' = ''submissions''" "pathUnescape ''confirm'' = ''confirm''" "pathUnescape u = u"
    using u by (simp_all add: pathUnescape_plain)
  have "tl (''/submissions/'' @ u @ ''/confirm'') = ''submissions/'' @ u @ ''/confirm''" by simp
  note t = this[THEN arg_cong[of _ _ split_slash], unfolded s]
  show ?thesis
    unfolding ServeMux_def submission_parsed t Let_def using c u by (simp add: takes_method_def p)
qed

lemma initiate_dispatch: "ServeMux submission_routes ''POST'' ''/submissions'' = Dispatch ''POST /submissions'' []"
  by code_simp

lemma submission_mux_initiate:
  "rq_method r = ''POST'' \<Longrightarrow> rq_path r = ''/submissions'' \<Longrightarrow>
    snd (submission_mux u presign br t (ps, tp) i r) =
      (Answer (fst (handleSubmitInit u presign t (rq_json r) ps)), snd (handleSubmitInit u presign t (rq_json r) ps), tp)"
  by (simp add: submission_mux_def initiate_dispatch split: prod.splits)

lemma submission_mux_confirm:
  "uuid_text u \<Longrightarrow> rq_method r = ''POST'' \<Longrightarrow> rq_path r = ''/submissions/'' @ u @ ''/confirm'' \<Longrightarrow>
    snd (submission_mux v presign br t st i r) =
      (Answer (fst (handleConfirm br t u st)), snd (handleConfirm br t u st))"
  unfolding submission_mux_def by (simp only: confirm_dispatch) (simp split: prod.splits)

lemma serve_submission_mux:
  "snd (serve_submission i u presign br t r st) = snd (submission_mux u presign br t st (if rq_request_id r = [] then i else rq_request_id r) r)"
  by (simp add: serve_submission_def requestIDMiddleware_def)

lemma orchestrator_dispatch:
  assumes "ServeMux orchestrator_routes m p = Dispatch pat vs"
  shows "pat = ''/run'' \<or> pat = ''/status'' \<or> pat = ''/healthz''"
  using ServeMux_route[OF assms, unfolded orchestrator_parsed] by auto

text \<open>
  The leaderboard answers every \<open>GET\<close> of a clean path: what no other route takes goes to the static files. The
  matching engine takes nothing but \<open>GET\<close> and \<open>HEAD\<close> for its three paths.
\<close>

lemma leaderboard_parsed:
  "map parse_pattern leaderboard_routes =
    [\<lparr>rt_method = ''GET'', rt_segments = [Literal ''healthz''], rt_subtree = False, rt_pattern = ''GET /healthz''\<rparr>,
     \<lparr>rt_method = ''GET'', rt_segments = [Literal ''api'', Literal ''leaderboard''], rt_subtree = False,
       rt_pattern = ''GET /api/leaderboard''\<rparr>,
     \<lparr>rt_method = ''GET'', rt_segments = [Literal ''ws''], rt_subtree = False, rt_pattern = ''GET /ws''\<rparr>,
     \<lparr>rt_method = ''GET'', rt_segments = [], rt_subtree = True, rt_pattern = ''GET /''\<rparr>]"
  by code_simp

lemma leaderboard_serves_all:
  assumes "clean_path p"
  shows "\<exists>pat vs. ServeMux leaderboard_routes ''GET'' p = Dispatch pat vs \<and> pat \<in> set (map rt_pattern (map parse_pattern leaderboard_routes))"
proof -
  let ?rs = "map parse_pattern leaderboard_routes"
  let ?f = "filter (\<lambda>r. takes_method r ''GET'') (filter (\<lambda>r. \<not> rt_subtree r) ?rs @ filter rt_subtree ?rs)"
  let ?r = "\<lparr>rt_method = ''GET'', rt_segments = [], rt_subtree = True, rt_pattern = ''GET /''\<rparr>"
  have "?r \<in> set ?f" by (simp add: leaderboard_parsed takes_method_def)
  from first_match_subtree[OF this, of "split_slash (tl p)"] obtain d where d: "first_match ?f (split_slash (tl p)) = Some d" by auto
  moreover obtain pat vs where "d = Dispatch pat vs" using first_match_route[OF d] by blast
  ultimately have "ServeMux leaderboard_routes ''GET'' p = Dispatch pat vs"
    using assms by (simp add: ServeMux_def Let_def)
  with ServeMux_route[OF this] show ?thesis by auto
qed

lemma leaderboard_page: "ServeMux leaderboard_routes ''GET'' ''/api/leaderboard'' = Dispatch ''GET /api/leaderboard'' []"
  "ServeMux leaderboard_routes ''GET'' ''/index.html'' = Dispatch ''GET /'' []"
  "ServeMux leaderboard_routes ''POST'' ''/ws'' = NotAllowed405"
  by code_simp+

lemma stub_parsed:
  "map parse_pattern stub_routes =
    [\<lparr>rt_method = ''GET'', rt_segments = [Literal ''healthz''], rt_subtree = False, rt_pattern = ''GET /healthz''\<rparr>,
     \<lparr>rt_method = ''GET'', rt_segments = [Literal ''stream''], rt_subtree = False, rt_pattern = ''GET /stream''\<rparr>,
     \<lparr>rt_method = ''GET'', rt_segments = [Literal ''orderbook''], rt_subtree = False, rt_pattern = ''GET /orderbook''\<rparr>]"
  by code_simp

lemma stub_dispatch:
  assumes "ServeMux stub_routes m p = Dispatch pat vs"
  shows "m \<in> {''GET'', ''HEAD''} \<and> vs = []"
  using ServeMux_route[OF assms, unfolded stub_parsed] by (auto simp: takes_method_def match_literal)

text \<open>The bot orchestrator's state changes on a \<open>POST\<close> to \<open>/run\<close> only.\<close>

lemma orchestrator_only_run:
  assumes "serve_orchestrator m p body s = (reply, s')" "s' \<noteq> s"
  shows "ServeMux orchestrator_routes m p = Dispatch ''/run'' [] \<and> m = ''POST'' \<and> reply = Inr (202, [])"
proof (cases "ServeMux orchestrator_routes m p")
  case (Dispatch pat vs)
  have "vs = []" using ServeMux_route[OF Dispatch, unfolded orchestrator_parsed] by (auto simp: match_literal)
  with orchestrator_dispatch[OF Dispatch] assms Dispatch show ?thesis
    by (auto simp: serve_orchestrator_def runHandler_def split: prod.splits if_splits option.splits)
qed (use assms in \<open>auto simp: serve_orchestrator_def\<close>)

section \<open>Properties\<close>

text \<open>C36: A submission through the HTTP server. A \<open>POST /submissions\<close> with a known language and a valid team
  name, whose upload can be signed, is answered with the id and the URL; the \<open>POST\<close> to the confirm path
  made of that id is routed to it and answered with 202, \<open>submission.created\<close> is then on the topic
  with the language and the team of the first request, and a third request to the same path finds nothing.\<close>

theorem submission_through_http:
  fixes u :: string and req :: SubmitInitRequest and t' :: int64
  defines "confirm \<equiv> \<lambda>rid body. \<lparr>rq_method = ''POST'', rq_path = ''/submissions/'' @ u @ ''/confirm'', rq_request_id = rid, rq_json = body\<rparr>"
    and "event \<equiv> SubmissionCreated u (ir_Language req) (ir_TeamName req) (artifact_key u) t'"
  assumes "uuid_text u" "well_formed (Some req)" "presign (artifact_key u) = Inr url" "publish br u event = None" "ps u = None"
  shows "snd (serve_submission i u presign br t \<lparr>rq_method = ''POST'', rq_path = ''/submissions'', rq_request_id = rid, rq_json = Some req\<rparr> (ps, tp)) =
      (Answer (Initiated \<lparr>si_SubmissionID = u, si_PresignedURL = url, si_ArtifactKey = artifact_key u, si_ExpiresAt = t div 10 ^ 9 + 900\<rparr>),
       ps(u \<mapsto> \<lparr>ps_Language = ir_Language req, ps_TeamName = ir_TeamName req\<rparr>), tp) \<and>
    snd (serve_submission i' u' presign br t' (confirm rid' body')
      (ps(u \<mapsto> \<lparr>ps_Language = ir_Language req, ps_TeamName = ir_TeamName req\<rparr>), tp)) = (Answer (Confirmed u), ps, event # tp) \<and>
    snd (serve_submission i' u' presign br t'' (confirm rid' body') (ps, event # tp)) =
      (Answer (Refused 404 ''submission not found or expired''), ps, event # tp)"
proof -
  have "u \<noteq> []" using uuid_plain[OF assms(3)] by simp
  moreover have "ps(u := None) = ps" using assms(7) by auto
  moreover note submit_init_checks[of u presign t "Some req" ps url]
  ultimately show ?thesis
    using assms(4-7) confirm_answers
    by (auto simp: serve_submission_mux submission_mux_initiate submission_mux_confirm[OF assms(3)] confirm_def event_def
        prod_eq_iff)
qed

theorem submission_through_http_witness:
  "snd (serve_submission ''r'' ''x'' (\<lambda>_. Inr ''url'') open_broker 5
      \<lparr>rq_method = ''POST'', rq_path = ''/submissions/'' @ demo_uuid @ ''/confirm'', rq_request_id = [], rq_json = None\<rparr>
      ([demo_uuid \<mapsto> \<lparr>ps_Language = ''go'', ps_TeamName = ''team''\<rparr>], [])) =
    (Answer (Confirmed demo_uuid), Map.empty, [SubmissionCreated demo_uuid ''go'' ''team'' (artifact_key demo_uuid) 5])"
proof -
  let ?req = "\<lparr>ir_Language = ''go'', ir_TeamName = ''team''\<rparr>"
  have "uuid_text demo_uuid" "well_formed (Some ?req)" by code_simp+
  moreover have "publish open_broker demo_uuid (SubmissionCreated demo_uuid ''go'' ''team'' (artifact_key demo_uuid) 5) = None"
    by (simp add: publish_def open_broker_def)
  ultimately show ?thesis
    using submission_through_http[of demo_uuid ?req "\<lambda>_. Inr ''url''" "''url''" open_broker 5 Map.empty "''r''" 0 "[]" "[]" "''r''" "''x''" "[]" None 6]
    by simp
qed

text \<open>Nothing else changes the submissions or the topic: a request whose answer leaves them different is a
  \<open>POST\<close> that was routed to one of the two handlers. A confirmation always has an id, so the answer
  \<open>submission_id required\<close> is never given.\<close>

lemma only_posts_change_submissions:
  assumes "serve_submission i u presign br t r st = (reqID, reply, st')"
  shows "(st' = st \<or> rq_method r = ''POST'' \<and> (\<exists>a. reply = Answer a)) \<and>
    reply \<noteq> Answer (Refused 400 ''submission_id required'') \<and> reqID \<in> {i, rq_request_id r}"
proof -
  obtain ps tp ps' tp' where st: "st = (ps, tp)" "st' = (ps', tp')" by (cases st, cases st')
  have init: "fst (handleSubmitInit u presign t (rq_json r) ps) \<noteq> Refused 400 ''submission_id required''"
    by (auto simp: handleSubmitInit_def split: option.splits sum.splits)
  have conf: "fst (handleConfirm br t k (ps, tp)) \<noteq> Refused 400 ''submission_id required''" if "k \<noteq> []" for k
    unfolding confirm_answers[THEN conjunct1] using that by (auto simp: Let_def split: option.splits)
  have conf': "handleConfirm br t k (ps, tp) = (Refused 400 ''submission_id required'', x) \<Longrightarrow> k = []" for k x
    using conf[of k] by (cases "k = []") simp_all
  show ?thesis
  proof (cases "ServeMux submission_routes (rq_method r) (rq_path r)")
    case (Dispatch pat vs)
    from submission_dispatch[OF Dispatch] init assms Dispatch show ?thesis
      by (auto simp: serve_submission_def requestIDMiddleware_def submission_mux_def st Let_def dest: conf' split: prod.splits)
  qed (use assms in \<open>auto simp: serve_submission_def requestIDMiddleware_def submission_mux_def Let_def\<close>)
qed

end
