(* ===== verification/SandboxOrchestrator.thy ===== *)
theory SandboxOrchestrator
  imports Lifecycle Settings
begin

text \<open>
  The sandbox orchestrator (\<open>services/sandbox-orchestrator\<close>): the pod that runs a submission
  (\<open>createSandboxPod\<close>), the wait until it is ready, the log of one that does not become ready, \<open>Deploy\<close>,
  and what the consumer publishes. Kubernetes and the broker are parameters. \<open>MAX_LOG_BYTES\<close> is not
  negative and the four quantities parse (either would panic in the source).
\<close>

section \<open>The sandbox pod\<close>

record SandboxConfig =
  Timeout :: int64
  MaxLogBytes :: nat
  CpuRequest :: string
  CpuLimit :: string
  MemoryRequest :: string
  MemoryLimit :: string
  SeccompPath :: string
  RunAsUserID :: int
  NodeSelectorK :: string
  NodeSelectorV :: string
  TolerationK :: string
  TolerationV :: string

text \<open>
  \<open>main.go\<close> fills it from the environment, where a variable may be absent: \<open>envStrSet\<close> takes one that is
  present and empty, \<open>envStr\<close> does not.
\<close>

definition present :: "(string \<Rightarrow> string option) \<Rightarrow> environment" where
  "present env key = (case env key of Some v \<Rightarrow> v | None \<Rightarrow> [])"

definition envStrSet :: "(string \<Rightarrow> string option) \<Rightarrow> string \<Rightarrow> string \<Rightarrow> string" where
  "envStrSet env key fallback = (case env key of Some v \<Rightarrow> v | None \<Rightarrow> fallback)"

definition sandbox_config :: "(string \<Rightarrow> string option) \<Rightarrow> SandboxConfig" where
  "sandbox_config env = \<lparr>
     Timeout = i64 (envInt (present env) ''SANDBOX_TIMEOUT_SECONDS'' 60 * 10 ^ 9),
     MaxLogBytes = nat (envInt (present env) ''MAX_LOG_BYTES'' 4096),
     CpuRequest = envStr (present env) ''SANDBOX_CPU_REQUEST'' ''2'',
     CpuLimit = envStr (present env) ''SANDBOX_CPU_LIMIT'' ''2'',
     MemoryRequest = envStr (present env) ''SANDBOX_MEMORY_REQUEST'' ''512Mi'',
     MemoryLimit = envStr (present env) ''SANDBOX_MEMORY_LIMIT'' ''512Mi'',
     SeccompPath = envStrSet env ''SANDBOX_SECCOMP_PROFILE_PATH'' ''sandbox-seccomp.json'',
     RunAsUserID = envInt (present env) ''SANDBOX_RUN_AS_USER'' 65534,
     NodeSelectorK = envStrSet env ''SANDBOX_NODE_SELECTOR_KEY'' ''workload'',
     NodeSelectorV = envStrSet env ''SANDBOX_NODE_SELECTOR_VALUE'' ''sandbox'',
     TolerationK = envStrSet env ''SANDBOX_TOLERATION_KEY'' ''workload'',
     TolerationV = envStrSet env ''SANDBOX_TOLERATION_VALUE'' ''sandbox''\<rparr>"

text \<open>\<open>^[A-Za-z0-9/_.-]+$\<close>\<close>

definition path_char :: "char \<Rightarrow> bool" where
  "path_char c = (let d = (of_char c :: nat) in 65 \<le> d \<and> d \<le> 90 \<or> 97 \<le> d \<and> d \<le> 122 \<or> 48 \<le> d \<and> d \<le> 57 \<or>
     c \<in> {CHR ''/'', CHR ''_'', CHR ''.'', CHR ''-''})"

definition binaryPathRegex :: "string \<Rightarrow> bool" where
  "binaryPathRegex p \<longleftrightarrow> p \<noteq> [] \<and> list_all path_char p"

definition sandboxSeccompProfile :: "string \<Rightarrow> profile" where
  "sandboxSeccompProfile path = (if path = [] then RuntimeDefault else Localhost path)"

definition init_secctx :: "SandboxConfig \<Rightarrow> security_context" where
  "init_secctx cfg = \<lparr>RunAsUser = Some (RunAsUserID cfg), RunAsNonRoot = Some True, ReadOnlyRootFilesystem = Some True,
     AllowPrivilegeEscalation = Some False, CapabilitiesDrop = [], SeccompProfile = None, AppArmorProfile = None\<rparr>"

definition init_download :: "SandboxConfig \<Rightarrow> string \<Rightarrow> container" where
  "init_download cfg binaryUrl = container0\<lparr>c_Name := ''init-download'', c_Image := ''alpine:3.23'',
     c_Command := [''sh'', ''-c'', ''wget -qO /sandbox/binary '' @ binaryUrl @ '' && chmod +x /sandbox/binary''],
     c_VolumeMounts := [(''sandbox'', ''/sandbox'')], c_SecurityContext := Some (init_secctx cfg)\<rparr>"

definition sandbox_container :: "SandboxConfig \<Rightarrow> container" where
  "sandbox_container cfg = container0\<lparr>c_Name := ''sandbox'', c_Image := ''alpine:3.23'', c_Command := [''/sandbox/binary''],
     c_WorkingDir := ''/sandbox'', c_Ports := [(''http'', 8080)],
     c_VolumeMounts := [(''sandbox'', ''/sandbox''), (''tmp'', ''/tmp'')],
     c_SecurityContext := Some ((init_secctx cfg)\<lparr>CapabilitiesDrop := [''ALL''],
       SeccompProfile := Some (sandboxSeccompProfile (SeccompPath cfg)), AppArmorProfile := Some RuntimeDefault\<rparr>),
     c_ReadinessProbe := Some \<lparr>probe_Path = ''/healthz'', probe_Port = 8080, InitialDelaySeconds = 1, PeriodSeconds = 2,
       FailureThreshold = 3\<rparr>,
     c_Limits := [(''cpu'', CpuLimit cfg), (''memory'', MemoryLimit cfg)],
     c_Requests := [(''cpu'', CpuRequest cfg), (''memory'', MemoryRequest cfg)]\<rparr>"

definition createSandboxPod :: "SandboxConfig \<Rightarrow> string \<Rightarrow> string \<Rightarrow> string \<Rightarrow> string + pod" where
  "createSandboxPod cfg seaweedfsEndpoint name binaryPath =
     (if \<not> binaryPathRegex binaryPath then Inl (''invalid binary path: '' @ binaryPath)
      else let binaryUrl = seaweedfsEndpoint @ ''/'' @ ''submissions'' @ ''/'' @ binaryPath in
        Inr \<lparr>p_Name = name, p_Namespace = ''sandboxes'',
          p_Labels = [(''app'', ''sandbox''), (''app.kubernetes.io/name'', ''sandbox''), (''role'', ''contestant-submission'')],
          p_RestartPolicy = ''Never'', p_Automount = Some False,
          p_InitContainers = [init_download cfg binaryUrl], p_Containers = [sandbox_container cfg],
          p_Volumes = [(''sandbox'', Some ''256Mi''), (''tmp'', None)],
          p_NodeSelector = (if NodeSelectorK cfg \<noteq> [] \<and> NodeSelectorV cfg \<noteq> []
            then [(NodeSelectorK cfg, NodeSelectorV cfg)] else []),
          p_Tolerations = (if TolerationK cfg \<noteq> [] \<and> TolerationV cfg \<noteq> []
            then [\<lparr>t_Key = TolerationK cfg, t_Value = TolerationV cfg\<rparr>] else [])\<rparr>)"

section \<open>Waiting and logs\<close>

text \<open>\<open>None\<close> when the pod was seen running and ready, otherwise the text of the error.\<close>

fun running_loop :: "pod_event list \<Rightarrow> string option" where
  "running_loop [] = Some ''watch closed before pod became running and ready''"
| "running_loop (NotAPod # es) = running_loop es"
| "running_loop (PodSeen ph ready # es) =
     (if ph = PodFailed \<or> ph = PodSucceeded then Some (''pod terminated with phase '' @ phase_name ph)
      else if ph = PodRunning \<and> ready then None else running_loop es)"

definition waitForPodRunning :: "string + pod_event list \<Rightarrow> string option" where
  "waitForPodRunning watch = (case watch of Inl e \<Rightarrow> Some (''watch pod: '' @ e) | Inr es \<Rightarrow> running_loop es)"

text \<open>
  What Kubernetes answers. A refused creation says whether the pod already exists. The log is what
  the stream gives, and the error, if any, that ends it.
\<close>

record sandbox_world =
  s_create :: "(bool \<times> string) option"
  s_watch :: "string + pod_event list"
  s_logs :: "string + string \<times> string option"
  s_get_pod :: "string + string"

definition collectPodLogs :: "nat \<Rightarrow> sandbox_world \<Rightarrow> string" where
  "collectPodLogs maxLogBytes w =
     (case s_logs w of
        Inl e \<Rightarrow> ''(failed to fetch logs: '' @ e @ '')''
      | Inr (data, fault) \<Rightarrow>
          (case fault of
             Some e \<Rightarrow> if length data < maxLogBytes then ''(failed to read logs: '' @ e @ '')'' else take maxLogBytes data
           | None \<Rightarrow> take maxLogBytes data))"

section \<open>A deployment\<close>

record DeployResult =
  d_PodName :: string
  d_PodIP :: string

text \<open>The error of \<open>Deploy\<close>: its text, and whether \<open>IsAlreadyExists\<close> recognises it.\<close>

record deploy_error =
  d_text :: string
  d_exists :: bool

definition wait_reason :: "nat \<Rightarrow> string \<Rightarrow> string \<Rightarrow> string" where
  "wait_reason maxLogBytes e logs =
     (let nl = [CHR 0x0A];
          reason = ''wait for pod failed: '' @ e @ nl @ nl @ ''pod logs:'' @ nl @ logs
      in if length reason > maxLogBytes then take maxLogBytes reason else reason)"

definition cleanupSandbox :: "string \<Rightarrow> pod_action list" where
  "cleanupSandbox name = [DeletePodNamed ''sandboxes'' name]"

definition Deploy :: "SandboxConfig \<Rightarrow> string \<Rightarrow> sandbox_world \<Rightarrow> string \<Rightarrow> string \<Rightarrow>
    (deploy_error + DeployResult) \<times> pod_action list" where
  "Deploy cfg endpoint w submissionId binaryPath =
     (let podName = ''sandbox-'' @ submissionId;
          fail = (\<lambda>t. Inl \<lparr>d_text = t, d_exists = False\<rparr>)
      in case createSandboxPod cfg endpoint podName binaryPath of
           Inl e \<Rightarrow> (fail (''create pod: '' @ e), [])
         | Inr p \<Rightarrow>
             (case s_create w of
                Some (exists, e) \<Rightarrow> (Inl \<lparr>d_text = ''create pod: create pod: '' @ e, d_exists = exists\<rparr>, [CreatePod p])
              | None \<Rightarrow>
                  (case waitForPodRunning (s_watch w) of
                     Some e \<Rightarrow> (fail (wait_reason (MaxLogBytes cfg) e (collectPodLogs (MaxLogBytes cfg) w)),
                       CreatePod p # cleanupSandbox podName)
                   | None \<Rightarrow>
                       (case s_get_pod w of
                          Inl e \<Rightarrow> (fail (''get pod: '' @ e), CreatePod p # cleanupSandbox podName)
                        | Inr podIP \<Rightarrow>
                            if podIP = [] then (fail ''pod has no IP assigned'', CreatePod p # cleanupSandbox podName)
                            else (Inr \<lparr>d_PodName = podName, d_PodIP = podIP\<rparr>, [CreatePod p])))))"

section \<open>The consumer\<close>

definition PublishSandboxReady :: "broker \<Rightarrow> int64 \<Rightarrow> string \<Rightarrow> string \<Rightarrow> string \<Rightarrow> string \<Rightarrow>
    LifecycleEvent \<times> publish_error option" where
  "PublishSandboxReady br at_time submissionID podName podIP teamName =
     (let event = SandboxReady submissionID podName podIP 8080 8080 teamName at_time in (event, publish br submissionID event))"

definition PublishSandboxFailed :: "broker \<Rightarrow> int64 \<Rightarrow> string \<Rightarrow> string \<Rightarrow> LifecycleEvent \<times> publish_error option" where
  "PublishSandboxFailed br at_time submissionID reason =
     (let event = SandboxFailed submissionID (truncate_utf8 reason 4096) at_time in (event, publish br submissionID event))"

definition handle_build_complete :: "SandboxConfig \<Rightarrow> string \<Rightarrow> broker \<Rightarrow> int64 \<Rightarrow> sandbox_world \<Rightarrow> LifecycleEvent option \<Rightarrow>
    handled \<times> pod_action list" where
  "handle_build_complete cfg endpoint br at_time w envelope =
     (case envelope of
        Some (BuildComplete sub path lang team built) \<Rightarrow>
          (let (result, actions) = Deploy cfg endpoint w sub path
           in (case result of
                 Inl err \<Rightarrow>
                   if d_exists err then Skipped
                   else let (event, e) = PublishSandboxFailed br at_time sub (d_text err)
                        in if e = None then Published event else ReportDropped event
               | Inr d \<Rightarrow> (let (event, e) = PublishSandboxReady br at_time sub (d_PodName d) (d_PodIP d) team
                   in case e of None \<Rightarrow> Published event | Some e \<Rightarrow> ConsumerError e), actions))
      | _ \<Rightarrow> (Skipped, []))"

section \<open>Properties\<close>

definition demo_sandbox :: SandboxConfig where
  "demo_sandbox = sandbox_config (\<lambda>_. None)"

text \<open>The pod becomes ready: it is seen running and ready before any end, and it has an address.\<close>

definition settled :: "pod_event \<Rightarrow> bool" where
  "settled e = (case e of NotAPod \<Rightarrow> False
     | PodSeen ph ready \<Rightarrow> ph = PodFailed \<or> ph = PodSucceeded \<or> ph = PodRunning \<and> ready)"

definition pod_ready :: "sandbox_world \<Rightarrow> string \<Rightarrow> bool" where
  "pod_ready w ip \<longleftrightarrow> (\<exists>es. s_watch w = Inr es \<and> find settled es = Some (PodSeen PodRunning True)) \<and> s_get_pod w = Inr ip \<and> ip \<noteq> []"

lemma running_loop_find:
  "running_loop es = None \<longleftrightarrow> find settled es = Some (PodSeen PodRunning True)"
  by (induction es rule: running_loop.induct) (auto simp: settled_def)

lemma wait_ready: "waitForPodRunning watch = None \<longleftrightarrow> (\<exists>es. watch = Inr es \<and> find settled es = Some (PodSeen PodRunning True))"
  by (auto simp: waitForPodRunning_def running_loop_find split: sum.splits)

lemma createSandboxPod_ok: "binaryPathRegex path \<Longrightarrow> \<exists>p. createSandboxPod cfg endpoint name path = Inr p"
  by (simp add: createSandboxPod_def Let_def)

lemma Deploy_cases:
  obtains (bad_path) "\<not> binaryPathRegex path"
      "Deploy cfg endpoint w sub path = (Inl \<lparr>d_text = ''create pod: invalid binary path: '' @ path, d_exists = False\<rparr>, [])"
  | (refused) x e p where "binaryPathRegex path" "s_create w = Some (x, e)"
      "Deploy cfg endpoint w sub path = (Inl \<lparr>d_text = ''create pod: create pod: '' @ e, d_exists = x\<rparr>, [CreatePod p])"
  | (ready) p ip where "binaryPathRegex path" "s_create w = None" "pod_ready w ip"
      "Deploy cfg endpoint w sub path = (Inr \<lparr>d_PodName = ''sandbox-'' @ sub, d_PodIP = ip\<rparr>, [CreatePod p])"
  | (failed) p t where "binaryPathRegex path" "s_create w = None" "\<nexists>ip. pod_ready w ip"
      "Deploy cfg endpoint w sub path = (Inl \<lparr>d_text = t, d_exists = False\<rparr>, [CreatePod p, DeletePodNamed ''sandboxes'' (''sandbox-'' @ sub)])"
proof (cases "binaryPathRegex path")
  case False
  then show thesis using bad_path by (simp add: Deploy_def createSandboxPod_def Let_def)
next
  case b: True
  then obtain p where p: "createSandboxPod cfg endpoint (''sandbox-'' @ sub) path = Inr p" using createSandboxPod_ok by blast
  show thesis
  proof (cases "s_create w")
    case (Some xe)
    then show thesis using refused[OF b] p by (cases xe) (simp add: Deploy_def Let_def)
  next
    case c: None
    show thesis
    proof (cases "waitForPodRunning (s_watch w)")
      case (Some e)
      then have "\<nexists>ip. pod_ready w ip" using wait_ready[of "s_watch w"] by (auto simp: pod_ready_def)
      then show thesis using failed[OF b c] p c Some by (simp add: Deploy_def Let_def cleanupSandbox_def)
    next
      case r: None
      show thesis
      proof (cases "\<exists>ip. s_get_pod w = Inr ip \<and> ip \<noteq> []")
        case True
        then obtain ip where ip: "s_get_pod w = Inr ip" "ip \<noteq> []" by blast
        then have "pod_ready w ip" using wait_ready[of "s_watch w"] r by (simp add: pod_ready_def)
        then show thesis using ready[OF b c] p c r ip by (simp add: Deploy_def Let_def)
      next
        case False
        then have "\<nexists>ip. pod_ready w ip" by (auto simp: pod_ready_def)
        then show thesis using failed[OF b c] p c r False
          by (cases "s_get_pod w") (simp_all add: Deploy_def Let_def cleanupSandbox_def)
      qed
    qed
  qed
qed


definition ready_world :: sandbox_world where
  "ready_world = \<lparr>s_create = None, s_watch = Inr [PodSeen PodPending False, PodSeen PodRunning False, PodSeen PodRunning True],
     s_logs = Inr ([], None), s_get_pod = Inr ''10.0.0.7''\<rparr>"

definition down_broker :: broker where
  "down_broker = \<lparr>encode_error = (\<lambda>_. None), produce_error = (\<lambda>_ _. Some ''no leader'')\<rparr>"


text \<open>C29: A lost \<open>sandbox.ready\<close> is lost for good. When its publication fails the consumer stops
  before the commit, and the pod stays; the record is delivered again, the creation is refused
  because the pod exists, and the record is committed with nothing published, whatever the broker
  does now. The sandbox runs and no test is ever started in it.\<close>

theorem sandbox_redelivery:
  assumes "fst (handle_build_complete cfg endpoint br t w (Some (BuildComplete sub path lang team built))) = ConsumerError e"
    "s_create w' = Some (True, x)"
  shows "\<exists>p. snd (handle_build_complete cfg endpoint br t w (Some (BuildComplete sub path lang team built))) = [CreatePod p] \<and>
    handle_build_complete cfg endpoint br' t' w' (Some (BuildComplete sub path lang team built)) = (Skipped, [CreatePod p]) \<and>
    commits Skipped"
proof (cases "binaryPathRegex path")
  case False
  then have "Deploy cfg endpoint w sub path = (Inl \<lparr>d_text = ''create pod: invalid binary path: '' @ path, d_exists = False\<rparr>, [])"
    by (simp add: Deploy_def createSandboxPod_def Let_def)
  with assms(1) show ?thesis
    by (simp add: handle_build_complete_def PublishSandboxFailed_def Let_def split: if_splits)
next
  case True
  then obtain p where p: "createSandboxPod cfg endpoint (''sandbox-'' @ sub) path = Inr p" using createSandboxPod_ok by blast
  have again: "handle_build_complete cfg endpoint br' t' w' (Some (BuildComplete sub path lang team built)) = (Skipped, [CreatePod p])"
    using p assms(2) by (simp add: handle_build_complete_def Deploy_def Let_def)
  obtain r acts where d: "Deploy cfg endpoint w sub path = (r, acts)" by (rule prod.exhaust)
  with assms(1) obtain v where r: "r = Inr v"
    by (cases r) (auto simp: handle_build_complete_def PublishSandboxFailed_def Let_def split: if_splits)
  have "acts = [CreatePod p]"
    using d p r by (auto simp: Deploy_def Let_def split: option.splits sum.splits if_splits)
  then show ?thesis using again d r by (simp add: handle_build_complete_def commits_def)
qed

theorem sandbox_redelivery_witness:
  "fst (handle_build_complete demo_sandbox ''http://s3'' open_broker 9 (ready_world\<lparr>s_create := Some (True, ''exists'')\<rparr>)
       (Some (BuildComplete ''s1'' ''builds/s1/binary'' ''go'' ''team'' 4))) = Skipped"
proof -
  have "binaryPathRegex ''builds/s1/binary''" by code_simp
  then have "fst (handle_build_complete demo_sandbox ''http://s3'' down_broker 5 ready_world
       (Some (BuildComplete ''s1'' ''builds/s1/binary'' ''go'' ''team'' 4))) = ConsumerError (Produce ''no leader'')"
    by (simp add: handle_build_complete_def Deploy_def createSandboxPod_def Let_def ready_world_def waitForPodRunning_def
        PublishSandboxReady_def publish_def down_broker_def)
  from sandbox_redelivery[OF this, of "ready_world\<lparr>s_create := Some (True, ''exists'')\<rparr>" "''exists''" open_broker 9]
  show ?thesis by auto
qed

text \<open>A reason that the limit cuts inside a rune is refused by the encoder, and the failure is lost.\<close>

lemma sandbox_failure_unreported:
  assumes "strict_encoder br" "binaryPathRegex path" "s_create w = None" "waitForPodRunning (s_watch w) = Some e"
    "MaxLogBytes cfg \<le> 4096" "\<not> ValidString (wait_reason (MaxLogBytes cfg) e (collectPodLogs (MaxLogBytes cfg) w))"
  shows "\<exists>event. fst (handle_build_complete cfg endpoint br t w (Some (BuildComplete sub path lang team built))) = ReportDropped event"
proof -
  obtain p where p: "createSandboxPod cfg endpoint (''sandbox-'' @ sub) path = Inr p" using createSandboxPod_ok[OF assms(2)] by blast
  let ?r = "wait_reason (MaxLogBytes cfg) e (collectPodLogs (MaxLogBytes cfg) w)"
  have "length ?r \<le> MaxLogBytes cfg" by (simp add: wait_reason_def Let_def)
  then have "truncate_utf8 ?r 4096 = ?r" using assms(5) by (simp add: truncate_utf8_def)
  then have "encode_error br (SandboxFailed sub (truncate_utf8 ?r 4096) t) \<noteq> None"
    using assms(1,6) unfolding strict_encoder_def by metis
  then show ?thesis using p assms(3,4)
    by (auto simp: handle_build_complete_def Deploy_def PublishSandboxFailed_def Let_def publish_def split: option.splits)
qed

end
