(* ===== verification/ServiceSettings.thy ===== *)
theory ServiceSettings
  imports BotOrchestrator SandboxOrchestrator
begin

text \<open>
  The settings that \<open>run\<close> reads from the environment in the \<open>main.go\<close> of the build service, the sandbox
  orchestrator, the bot orchestrator, the submission API, the leaderboard and the matching engine. Those of
  the telemetry ingester are in \<open>IngesterStart\<close>, those of the bot runner in \<open>BotRunner\<close>.
\<close>

abbreviation default_brokers :: string where
  "default_brokers \<equiv> ''redpanda.platform.svc.cluster.local:9092''"

abbreviation default_registry :: string where
  "default_registry \<equiv> ''http://redpanda.platform.svc.cluster.local:8081''"

abbreviation default_seaweedfs :: string where
  "default_seaweedfs \<equiv> ''http://seaweedfs.platform.svc.cluster.local:8333''"

section \<open>Consumers of the lifecycle topic\<close>

record build_settings =
  bs_seaweedfsEndpoint :: string
  bs_brokers :: "string list"
  bs_topic :: string
  bs_schemaRegistryURL :: string
  bs_maxLogBytes :: int64

definition build_settings_of :: "environment \<Rightarrow> build_settings" where
  "build_settings_of env = \<lparr>
     bs_seaweedfsEndpoint = envStr env ''SEAWEEDFS_ENDPOINT'' default_seaweedfs,
     bs_brokers = parse_brokers (envStr env ''REDPANDA_BROKERS'' default_brokers),
     bs_topic = envStr env ''KAFKA_TOPIC'' ''submission.lifecycle'',
     bs_schemaRegistryURL = envStr env ''SCHEMA_REGISTRY_URL'' default_registry,
     bs_maxLogBytes = envInt env ''MAX_LOG_BYTES'' 4096\<rparr>"

record sandbox_settings =
  ss_seaweedfsEndpoint :: string
  ss_brokers :: "string list"
  ss_topic :: string
  ss_schemaRegistryURL :: string
  ss_cfg :: SandboxConfig

definition sandbox_settings_of :: "(string \<Rightarrow> string option) \<Rightarrow> sandbox_settings" where
  "sandbox_settings_of env = \<lparr>
     ss_seaweedfsEndpoint = envStr (present env) ''SEAWEEDFS_ENDPOINT'' default_seaweedfs,
     ss_brokers = parse_brokers (envStr (present env) ''REDPANDA_BROKERS'' default_brokers),
     ss_topic = envStr (present env) ''KAFKA_TOPIC'' ''submission.lifecycle'',
     ss_schemaRegistryURL = envStr (present env) ''SCHEMA_REGISTRY_URL'' default_registry,
     ss_cfg = sandbox_config env\<rparr>"

record orchestrator_settings =
  os_brokers :: "string list"
  os_topic :: string
  os_cfg :: Config

definition orchestrator_settings_of :: "environment \<Rightarrow> orchestrator_settings" where
  "orchestrator_settings_of env =
     (let brokers = parse_brokers (envStr env ''REDPANDA_BROKERS'' default_brokers) in \<lparr>
       os_brokers = brokers,
       os_topic = envStr env ''KAFKA_TOPIC'' ''submission.lifecycle'',
       os_cfg = \<lparr>NumBots = envInt env ''NUM_BOTS'' 50, DurationSeconds = envInt env ''DURATION_SECONDS'' 60,
         JobTimeoutSec = envInt env ''JOB_TIMEOUT_SECONDS'' 120, WarmupSeconds = envInt env ''WARMUP_SECONDS'' 15,
         RedpandaBrokers = join_comma brokers,
         SchemaRegistryURL = envStr env ''SCHEMA_REGISTRY_URL'' default_registry,
         BotRunnerImage = envStr env ''BOT_RUNNER_IMAGE'' ''bot-runner:dev'',
         SandboxNamespace = envStr env ''SANDBOX_NAMESPACE'' ''sandboxes''\<rparr>\<rparr>)"

section \<open>Servers\<close>

text \<open>The submission API splits its brokers and keeps every part as it is.\<close>

record submission_settings =
  us_seaweedfsEndpoint :: string
  us_brokers :: "string list"
  us_topic :: string
  us_schemaRegistryURL :: string
  us_bucket :: string
  us_port :: string
  us_maxBytes :: int64

definition submission_settings_of :: "environment \<Rightarrow> submission_settings" where
  "submission_settings_of env = \<lparr>
     us_seaweedfsEndpoint = envStr env ''SEAWEEDFS_ENDPOINT'' default_seaweedfs,
     us_brokers = split_comma (envStr env ''REDPANDA_BROKERS'' default_brokers),
     us_topic = envStr env ''KAFKA_TOPIC'' ''submission.lifecycle'',
     us_schemaRegistryURL = envStr env ''SCHEMA_REGISTRY_URL'' default_registry,
     us_bucket = envStr env ''S3_BUCKET'' ''submissions'',
     us_port = envStr env ''PORT'' ''8080'',
     us_maxBytes = i64 (i64 (envInt env ''MAX_UPLOAD_SIZE_MB'' 128 * 1024) * 1024)\<rparr>"

record leaderboard_settings =
  ls_redisAddr :: string
  ls_redisPass :: string
  ls_port :: string

definition leaderboard_settings_of :: "environment \<Rightarrow> leaderboard_settings" where
  "leaderboard_settings_of env = \<lparr>
     ls_redisAddr = envStr env ''REDIS_ADDR'' ''redis.platform.svc.cluster.local:6379'',
     ls_redisPass = envStr env ''REDIS_PASSWORD'' [],
     ls_port = envStr env ''PORT'' ''8090''\<rparr>"

text \<open>The latency in nanoseconds, and the port.\<close>

definition stub_settings_of :: "environment \<Rightarrow> int64 \<times> string" where
  "stub_settings_of env =
     (let latency = (if env ''STUB_LATENCY_MS'' \<noteq> []
            then (case Atoi (env ''STUB_LATENCY_MS'') of Some ms \<Rightarrow> i64 (ms * 10 ^ 6) | None \<Rightarrow> 0) else 0);
          port = env ''PORT''; port = (if port = [] then ''8080'' else port)
      in (latency, port))"

section \<open>What they show\<close>

lemma envInt_range: "int64_range fallback \<Longrightarrow> int64_range (envInt env key fallback)"
  by (auto simp: envInt_def intro: Atoi_range split: option.splits)

lemma brokers_of_id: "brokers_of ps = ps \<longleftrightarrow> (\<forall>p \<in> set ps. p \<noteq> [] \<and> TrimSpace p = p)"
  using brokers_of_ok[of _ ps] brokers_of_trimmed[of ps] by metis

lemma lifecycle_topic_shared:
  "env ''KAFKA_TOPIC'' = [] \<Longrightarrow> present env' ''KAFKA_TOPIC'' = [] \<Longrightarrow>
    us_topic (submission_settings_of env) = bs_topic (build_settings_of env) \<and>
    ss_topic (sandbox_settings_of env') = bs_topic (build_settings_of env) \<and>
    os_topic (orchestrator_settings_of env) = bs_topic (build_settings_of env)"
  by (simp add: submission_settings_of_def build_settings_of_def sandbox_settings_of_def orchestrator_settings_of_def
      envStr_def Let_def)

text \<open>Every server has a port to listen on, and the settings that are numbers fit their type.\<close>

lemma settings_usable:
  "us_port (submission_settings_of env) \<noteq> []" "ls_port (leaderboard_settings_of env) \<noteq> []"
  "snd (stub_settings_of env) \<noteq> []" "int64_range (fst (stub_settings_of env))"
  "int64_range (us_maxBytes (submission_settings_of env))"
proof -
  have "int64_range 0" by (simp add: int64_range_def)
  then show "us_port (submission_settings_of env) \<noteq> []" "ls_port (leaderboard_settings_of env) \<noteq> []"
    "snd (stub_settings_of env) \<noteq> []" "int64_range (fst (stub_settings_of env))"
    "int64_range (us_maxBytes (submission_settings_of env))"
    by (auto simp: submission_settings_of_def leaderboard_settings_of_def stub_settings_of_def envStr_def Let_def
        i64_range split: option.splits)
qed

lemma runner_reads_settings:
  assumes "e_TeamName event \<noteq> []"
  shows "let os = orchestrator_settings_of env; rc = runner_config (container_env (job_env (os_cfg os) event)) in
    rc_numBots rc = envInt env ''NUM_BOTS'' 50 \<and> rc_durationSec rc = envInt env ''DURATION_SECONDS'' 60 \<and>
    rc_brokers rc = os_brokers os \<and> rc_schemaRegistryURL rc = SchemaRegistryURL (os_cfg os) \<and>
    rc_submissionID rc = e_SubmissionID event \<and> rc_teamName rc = e_TeamName event \<and>
    rc_endpoint rc = ''ws://'' @ e_PodIP event @ '':'' @ show_int (e_WSPort event) @ ''/stream''"
proof -
  let ?cfg = "os_cfg (orchestrator_settings_of env)"
  let ?raw = "envStr env ''REDPANDA_BROKERS'' default_brokers"
  let ?rc = "runner_config (container_env (job_env ?cfg event))"
  have cfg: "NumBots ?cfg = envInt env ''NUM_BOTS'' 50" "DurationSeconds ?cfg = envInt env ''DURATION_SECONDS'' 60"
    "RedpandaBrokers ?cfg = join_comma (parse_brokers ?raw)" "os_brokers (orchestrator_settings_of env) = parse_brokers ?raw"
    by (simp_all add: orchestrator_settings_of_def Let_def)
  have "int64_range (NumBots ?cfg)" "int64_range (DurationSeconds ?cfg)"
    unfolding cfg by (rule envInt_range, simp add: int64_range_def)+
  note j = job_env_config[OF this assms cfg(3)]
  have reg: "container_env (job_env ?cfg event) ''SCHEMA_REGISTRY_URL'' = SchemaRegistryURL ?cfg"
    "container_env (job_env ?cfg event) ''TARGET_ENDPOINT'' = ''ws://'' @ e_PodIP event @ '':'' @ show_int (e_WSPort event) @ ''/stream''"
    by (simp_all add: container_env_def job_env_def)
  have "SchemaRegistryURL ?cfg \<noteq> []" by (simp add: orchestrator_settings_of_def envStr_def Let_def)
  then have "rc_schemaRegistryURL ?rc = SchemaRegistryURL ?cfg"
    "rc_endpoint ?rc = ''ws://'' @ e_PodIP event @ '':'' @ show_int (e_WSPort event) @ ''/stream''"
    using reg by (simp_all add: runner_config_def envStr_def)
  then show ?thesis unfolding Let_def using j cfg by simp
qed

section \<open>Properties\<close>

text \<open>C37: The settings of the bot orchestrator reach the bot runner. For every environment of the
  orchestrator, what the runner parses from the environment of its Job is the number of bots and the
  duration that the orchestrator read (given or default), its brokers after splitting, trimming and
  joining, its registry, and the submission, the team and the endpoint of the event.\<close>

theorem orchestrator_settings_reach_runner:
  assumes "e_TeamName event \<noteq> []"
  shows "let os = orchestrator_settings_of env; rc = runner_config (container_env (job_env (os_cfg os) event)) in
    rc_numBots rc = envInt env ''NUM_BOTS'' 50 \<and> rc_durationSec rc = envInt env ''DURATION_SECONDS'' 60 \<and>
    rc_brokers rc = os_brokers os \<and> rc_schemaRegistryURL rc = SchemaRegistryURL (os_cfg os) \<and>
    rc_submissionID rc = e_SubmissionID event \<and> rc_teamName rc = e_TeamName event \<and>
    rc_endpoint rc = ''ws://'' @ e_PodIP event @ '':'' @ show_int (e_WSPort event) @ ''/stream''"
  using runner_reads_settings[OF assms] .

theorem orchestrator_settings_reach_runner_witness:
  "rc_numBots (runner_config (container_env (job_env
     (os_cfg (orchestrator_settings_of ((\<lambda>_. [])(''NUM_BOTS'' := ''7'')))) (demo_ready ''s'')))) = 7"
proof -
  have "envInt ((\<lambda>_. [])(''NUM_BOTS'' := ''7'')) ''NUM_BOTS'' 50 = 7" by code_simp
  then show ?thesis
    using orchestrator_settings_reach_runner[of "demo_ready ''s''" "(\<lambda>_. [])(''NUM_BOTS'' := ''7'')"]
    by (simp add: Let_def demo_ready_def)
qed

text \<open>One list of brokers, two readers: the submission API takes the same brokers from a list as the other
  services exactly when each of its parts is not empty and has no space around it.\<close>

lemma brokers_read_alike:
  "us_brokers (submission_settings_of env) = bs_brokers (build_settings_of env) \<longleftrightarrow>
    (\<forall>p \<in> set (split_comma (envStr env ''REDPANDA_BROKERS'' default_brokers)). p \<noteq> [] \<and> TrimSpace p = p)"
  unfolding submission_settings_of_def build_settings_of_def parse_brokers_def
  by (simp add: eq_commute[of "split_comma _"] brokers_of_id)

end
