(* ===== verification/BuildService.thy ===== *)
theory BuildService
  imports Lifecycle
begin

text \<open>
  The build service (\<open>services/build-service\<close>): the build pod (\<open>createBuildPod\<close>), the wait for its end, the
  logs of a failed build (\<open>readPodLogs\<close>), \<open>Build\<close>, and what the consumer publishes. The object store,
  Kubernetes and the broker are parameters.
\<close>

section \<open>Images and commands\<close>

definition buildImages :: "string \<rightharpoonup> string" where
  "buildImages = [''cpp'' \<mapsto> ''gcc:16-trixie'', ''rust'' \<mapsto> ''rust:1.95-alpine'', ''go'' \<mapsto> ''golang:1.26-alpine'']"

definition buildCommands :: "string \<rightharpoonup> string" where
  "buildCommands = [
     ''cpp'' \<mapsto> ''g++ -static -O2 -o /workspace/binary /workspace/main.cpp'',
     ''rust'' \<mapsto> ''cd /workspace && RUSTFLAGS=\"-C target-feature=+crt-static\" cargo build --release --offline && '' @
       ''cp $(find target/release -maxdepth 1 -type f -perm -111 ! -name '' @ [CHR 0x27] @ ''*.d'' @ [CHR 0x27] @
       '' | head -1) /workspace/binary'',
     ''go'' \<mapsto> ''cd /workspace && CGO_ENABLED=0 go build -mod=vendor -o /workspace/binary .'']"

section \<open>The build pod\<close>

definition build_secctx :: security_context where
  "build_secctx = \<lparr>RunAsUser = Some 65534, RunAsNonRoot = Some True, ReadOnlyRootFilesystem = Some True,
     AllowPrivilegeEscalation = Some False, CapabilitiesDrop = [''ALL''], SeccompProfile = Some RuntimeDefault,
     AppArmorProfile = Some RuntimeDefault\<rparr>"

definition workspace_mounts :: "(string \<times> string) list" where
  "workspace_mounts = [(''workspace'', ''/workspace''), (''tmp'', ''/tmp'')]"

definition download_source :: "string \<Rightarrow> container" where
  "download_source sourceURL = container0\<lparr>c_Name := ''download-source'', c_Image := ''alpine:3.23'',
     c_Command := [''sh'', ''-c''],
     c_Args := [''wget -q -O /workspace/source.tar.gz \"$SOURCE_URL\" && '' @
       ''tar xzf /workspace/source.tar.gz -C /workspace && '' @ ''rm /workspace/source.tar.gz''],
     c_Env := [(''SOURCE_URL'', sourceURL)], c_SecurityContext := Some build_secctx, c_VolumeMounts := workspace_mounts\<rparr>"

definition build_container :: "string \<Rightarrow> string \<Rightarrow> container" where
  "build_container img buildCmd = container0\<lparr>c_Name := ''build'', c_Image := img, c_Command := [''sh'', ''-c''],
     c_Args := [buildCmd], c_WorkingDir := ''/workspace'',
     c_Env := [(''GOCACHE'', ''/tmp/go-build-cache''), (''GOPATH'', ''/tmp/go-path'')],
     c_SecurityContext := Some build_secctx, c_VolumeMounts := workspace_mounts,
     c_Limits := [(''cpu'', ''2''), (''memory'', ''2Gi'')], c_Requests := [(''cpu'', ''1''), (''memory'', ''512Mi'')]\<rparr>"

definition newline :: string where
  "newline = [CHR 0x0A]"

definition upload_binary :: "string \<Rightarrow> container" where
  "upload_binary uploadURL = container0\<lparr>c_Name := ''upload-binary'', c_Image := ''alpine/curl:8.9.1'',
     c_Command := [''sh'', ''-c''],
     c_Args := [''curl -sS -f -X PUT '' @ [CHR 0x5C] @ newline @
       ''  -H \"Content-Type: application/octet-stream\" '' @ [CHR 0x5C] @ newline @
       ''  -T /workspace/binary '' @ [CHR 0x5C] @ newline @
       ''  --max-time 60 '' @ [CHR 0x5C] @ newline @
       ''  \"$BINARY_UPLOAD_URL\" '' @ [CHR 0x5C] @ newline @
       ''  && echo \"upload: ok\" || { echo \"upload failed\"; exit 1; }''],
     c_Env := [(''BINARY_UPLOAD_URL'', uploadURL)], c_SecurityContext := Some build_secctx,
     c_VolumeMounts := workspace_mounts\<rparr>"

definition createBuildPod :: "string \<Rightarrow> string \<Rightarrow> string \<Rightarrow> string \<Rightarrow> string \<Rightarrow> pod" where
  "createBuildPod name img buildCmd sourceURL binaryUploadURL =
     \<lparr>p_Name = name, p_Namespace = ''builds'',
      p_Labels = [(''app'', ''build''), (''role'', ''build-pod''), (''app.kubernetes.io/name'', ''build'')],
      p_RestartPolicy = ''Never'', p_Automount = None,
      p_InitContainers = [download_source sourceURL, build_container img buildCmd, upload_binary binaryUploadURL],
      p_Containers = [container0\<lparr>c_Name := ''done'', c_Image := ''alpine:3.23'', c_Command := [''true''],
        c_SecurityContext := Some build_secctx\<rparr>],
      p_Volumes = [(''workspace'', Some ''512Mi''), (''tmp'', None)],
      p_NodeSelector = [], p_Tolerations = []\<rparr>"

section \<open>Waiting and logs\<close>

text \<open>The loop over the watch: \<open>None\<close> for success, otherwise the text of the error.\<close>

fun completion_loop :: "pod_event list \<Rightarrow> string option" where
  "completion_loop [] = Some ''watch closed before pod completed''"
| "completion_loop (NotAPod # es) = completion_loop es"
| "completion_loop (PodSeen ph ready # es) =
     (if ph = PodSucceeded then None else if ph = PodFailed then Some ''pod failed'' else completion_loop es)"

definition waitForPodCompletion :: "string + pod_event list \<Rightarrow> string option" where
  "waitForPodCompletion watch = (case watch of Inl e \<Rightarrow> Some (''watch pod: '' @ e) | Inr es \<Rightarrow> completion_loop es)"

text \<open>The container whose logs are read: the first init container that ended with a code other than 0.\<close>

definition failed_container :: "(string \<times> int option) list \<Rightarrow> string" where
  "failed_container statuses =
     (case find (\<lambda>(name, code). code \<noteq> None \<and> code \<noteq> Some 0) statuses of None \<Rightarrow> ''done'' | Some (name, code) \<Rightarrow> name)"

record build_world =
  b_source_url :: "string + string"
  b_upload_url :: "string + string"
  b_create :: "string option"
  b_watch :: "string + pod_event list"
  b_get_pod :: "string + (string \<times> int option) list"
  b_stream :: "string \<Rightarrow> string + string list"
  b_took :: nat

definition readPodLogs :: "nat \<Rightarrow> build_world \<Rightarrow> string + string" where
  "readPodLogs maxLogBytes w =
     (case b_get_pod w of
        Inl e \<Rightarrow> Inl (''get pod: '' @ e)
      | Inr statuses \<Rightarrow>
          (case b_stream w (failed_container statuses) of
             Inl e \<Rightarrow> Inl (''get logs stream: '' @ e)
           | Inr chunks \<Rightarrow>
               let ((n, buf), ok) = io_copy maxLogBytes chunks (0, [])
               in if \<not> ok then Inl ''read logs: short write'' else Inr (trim_reason buf)))"

section \<open>A build\<close>

text \<open>
  \<open>cleanupPod\<close> under the context that \<open>Build\<close> makes as soon as the pod exists, with a timeout of 30 s,
  and uses when it returns: \<open>b_took\<close> is the milliseconds in between. A request under a context that has
  ended is not sent.
\<close>

definition cleanupPod :: "nat \<Rightarrow> string \<Rightarrow> pod_action list" where
  "cleanupPod took name = (if took < 30000 then [DeletePodNamed ''builds'' name] else [])"

definition Build :: "nat \<Rightarrow> build_world \<Rightarrow> string \<Rightarrow> string \<Rightarrow> (string + string) \<times> pod_action list" where
  "Build maxLogBytes w language submissionId =
     (case (buildImages language, buildCommands language) of
        (None, _) \<Rightarrow> (Inl (''unsupported language: '' @ language), [])
      | (_, None) \<Rightarrow> (Inl (''no build command for language: '' @ language), [])
      | (Some img, Some buildCmd) \<Rightarrow>
          (case b_source_url w of
             Inl e \<Rightarrow> (Inl (''generate presigned source URL: '' @ e), [])
           | Inr sourceURL \<Rightarrow>
               (case b_upload_url w of
                  Inl e \<Rightarrow> (Inl (''generate presigned binary upload URL: '' @ e), [])
                | Inr uploadURL \<Rightarrow>
                    let binaryPath = ''builds/'' @ submissionId @ ''/binary'';
                        podName = ''build-'' @ submissionId;
                        create = CreatePod (createBuildPod podName img buildCmd sourceURL uploadURL)
                    in case b_create w of
                         Some e \<Rightarrow> (Inl (''create pod: create pod: '' @ e), [create])
                       | None \<Rightarrow>
                           (case waitForPodCompletion (b_watch w) of
                              None \<Rightarrow> Inr binaryPath
                            | Some e \<Rightarrow> (case readPodLogs maxLogBytes w of
                                Inl _ \<Rightarrow> Inl (''build failed: '' @ e)
                              | Inr logs \<Rightarrow> Inl (''build error: '' @ logs)),
                            create # cleanupPod (b_took w) podName))))"

section \<open>The consumer\<close>

definition PublishBuildFailed :: "broker \<Rightarrow> int64 \<Rightarrow> string \<Rightarrow> string \<Rightarrow> LifecycleEvent \<times> publish_error option" where
  "PublishBuildFailed br at_time submissionId reason =
     (let event = BuildFailed submissionId (truncate_utf8 reason 4096) at_time in (event, publish br submissionId event))"

definition PublishBuildComplete :: "broker \<Rightarrow> int64 \<Rightarrow> string \<Rightarrow> string \<Rightarrow> string \<Rightarrow> string \<Rightarrow>
    LifecycleEvent \<times> publish_error option" where
  "PublishBuildComplete br at_time submissionId binaryPath language teamName =
     (let event = BuildComplete submissionId binaryPath language teamName at_time in (event, publish br submissionId event))"

text \<open>A decoded record: \<open>None\<close> when it cannot be decoded or is of another type.\<close>

definition handle_submission :: "nat \<Rightarrow> broker \<Rightarrow> int64 \<Rightarrow> build_world \<Rightarrow> LifecycleEvent option \<Rightarrow> handled \<times> pod_action list" where
  "handle_submission maxLogBytes br at_time w envelope =
     (case envelope of
        Some (SubmissionCreated sub lang team path created) \<Rightarrow>
          (let (result, actions) = Build maxLogBytes w lang sub
           in (case result of
                 Inl err \<Rightarrow> (let (event, e) = PublishBuildFailed br at_time sub err
                             in if e = None then Published event else ReportDropped event)
               | Inr binaryPath \<Rightarrow> (let (event, e) = PublishBuildComplete br at_time sub binaryPath lang team
                   in case e of None \<Rightarrow> Published event | Some e \<Rightarrow> ConsumerError e), actions))
      | _ \<Rightarrow> (Skipped, []))"

section \<open>Properties\<close>

definition ended :: "pod_event \<Rightarrow> bool" where
  "ended e = (case e of NotAPod \<Rightarrow> False | PodSeen ph ready \<Rightarrow> ph = PodSucceeded \<or> ph = PodFailed)"

lemma completion_loop_find:
  "completion_loop es = (case find ended es of None \<Rightarrow> Some ''watch closed before pod completed''
     | Some (PodSeen PodSucceeded ready) \<Rightarrow> None | Some _ \<Rightarrow> Some ''pod failed'')"
  by (induction es rule: completion_loop.induct) (auto simp: ended_def split: pod_phase.splits)

definition build_succeeds :: "build_world \<Rightarrow> string \<Rightarrow> bool" where
  "build_succeeds w lang \<longleftrightarrow> lang \<in> {''cpp'', ''rust'', ''go''} \<and> \<not> isl (b_source_url w) \<and> \<not> isl (b_upload_url w) \<and>
     b_create w = None \<and> (\<exists>es ready. b_watch w = Inr es \<and> find ended es = Some (PodSeen PodSucceeded ready))"

lemma languages: "buildImages lang = None \<longleftrightarrow> lang \<notin> {''cpp'', ''rust'', ''go''}"
    "buildCommands lang = None \<longleftrightarrow> lang \<notin> {''cpp'', ''rust'', ''go''}"
  by (auto simp: buildImages_def buildCommands_def)

lemma wait_success: "waitForPodCompletion watch = None \<longleftrightarrow>
    (\<exists>es ready. watch = Inr es \<and> find ended es = Some (PodSeen PodSucceeded ready))"
  by (auto simp: waitForPodCompletion_def completion_loop_find split: sum.splits option.splits pod_event.splits pod_phase.splits)

text \<open>The pod is deleted when it was created and less than 30 s passed until \<open>Build\<close> returned.\<close>

definition deleted_in :: "build_world \<Rightarrow> string \<Rightarrow> bool" where
  "deleted_in w lang \<longleftrightarrow> lang \<in> {''cpp'', ''rust'', ''go''} \<and> \<not> isl (b_source_url w) \<and> \<not> isl (b_upload_url w) \<and>
     b_create w = None \<and> b_took w < 30000"

lemma Build_cases:
  obtains (unknown) "lang \<notin> {''cpp'', ''rust'', ''go''}" "\<exists>e. Build m w lang sub = (Inl e, [])"
  | (unsigned) "isl (b_source_url w) \<or> isl (b_upload_url w)" "\<exists>e. Build m w lang sub = (Inl e, [])"
  | (refused) "b_create w \<noteq> None" "\<exists>e p. Build m w lang sub = (Inl e, [CreatePod p])"
  | (ran) p where "lang \<in> {''cpp'', ''rust'', ''go''}" "\<not> isl (b_source_url w)" "\<not> isl (b_upload_url w)" "b_create w = None"
      "Build m w lang sub = (case waitForPodCompletion (b_watch w) of None \<Rightarrow> Inr (''builds/'' @ sub @ ''/binary'')
         | Some e \<Rightarrow> (case readPodLogs m w of Inl _ \<Rightarrow> Inl (''build failed: '' @ e) | Inr logs \<Rightarrow> Inl (''build error: '' @ logs)),
         CreatePod p # cleanupPod (b_took w) (''build-'' @ sub))"
proof (cases "lang \<in> {''cpp'', ''rust'', ''go''}")
  case False
  then have "buildImages lang = None" using languages by blast
  then show thesis using unknown[OF False] by (simp add: Build_def)
next
  case l: True
  then obtain img cmd where ic: "buildImages lang = Some img" "buildCommands lang = Some cmd"
    using languages by (metis option.exhaust)
  show thesis
  proof (cases "b_source_url w")
    case (Inl e)
    then show thesis using unsigned ic by (simp add: Build_def)
  next
    case u: (Inr u)
    show thesis
    proof (cases "b_upload_url w")
      case (Inl e)
      then show thesis using unsigned ic u by (simp add: Build_def)
    next
      case v: (Inr v)
      show thesis
      proof (cases "b_create w")
        case (Some e)
        then show thesis using refused ic u v by (simp add: Build_def Let_def)
      next
        case None
        show thesis by (rule ran[OF l, where p = "createBuildPod (''build-'' @ sub) img cmd u v"]) (use ic u v None in \<open>simp_all add: Build_def Let_def split: option.split sum.split\<close>)
      qed
    qed
  qed
qed

lemma Build_result:
  assumes "Build m w lang sub = (r, acts)"
  shows "build_succeeds w lang \<Longrightarrow> r = Inr (''builds/'' @ sub @ ''/binary'')" "\<not> build_succeeds w lang \<Longrightarrow> isl r"
    "DeletePodNamed ns n \<in> set acts \<longleftrightarrow> deleted_in w lang \<and> ns = ''builds'' \<and> n = ''build-'' @ sub"
proof -
  have "(build_succeeds w lang \<longrightarrow> r = Inr (''builds/'' @ sub @ ''/binary'')) \<and> (\<not> build_succeeds w lang \<longrightarrow> isl r) \<and>
    (DeletePodNamed ns n \<in> set acts \<longleftrightarrow> deleted_in w lang \<and> ns = ''builds'' \<and> n = ''build-'' @ sub)"
  proof (rule Build_cases[of lang m w sub])
    fix p assume c: "lang \<in> {''cpp'', ''rust'', ''go''}" "\<not> isl (b_source_url w)" "\<not> isl (b_upload_url w)" "b_create w = None"
      and b: "Build m w lang sub = (case waitForPodCompletion (b_watch w) of None \<Rightarrow> Inr (''builds/'' @ sub @ ''/binary'')
         | Some e \<Rightarrow> (case readPodLogs m w of Inl _ \<Rightarrow> Inl (''build failed: '' @ e) | Inr logs \<Rightarrow> Inl (''build error: '' @ logs)),
         CreatePod p # cleanupPod (b_took w) (''build-'' @ sub))"
    have "build_succeeds w lang \<longleftrightarrow> waitForPodCompletion (b_watch w) = None"
      using c unfolding build_succeeds_def wait_success by blast
    moreover have "deleted_in w lang \<longleftrightarrow> b_took w < 30000" using c unfolding deleted_in_def by blast
    ultimately show ?thesis using assms b by (auto simp: cleanupPod_def split: option.splits sum.splits)
  qed (use assms in \<open>auto simp: build_succeeds_def deleted_in_def\<close>)
  then show "build_succeeds w lang \<Longrightarrow> r = Inr (''builds/'' @ sub @ ''/binary'')" "\<not> build_succeeds w lang \<Longrightarrow> isl r"
    "DeletePodNamed ns n \<in> set acts \<longleftrightarrow> deleted_in w lang \<and> ns = ''builds'' \<and> n = ''build-'' @ sub" by blast+
qed

text \<open>C27: What becomes of a submission. A build succeeds exactly when the language is known, both
  URLs could be signed, the pod could be created and the first end that the watch shows is
  success; then the record is answered by \<open>build.complete\<close> with the path of the binary, or the
  consumer stops without committing it. Otherwise it is answered by \<open>build.failed\<close> with a reason
  of at most 4096 bytes, and committed even if that report is lost. The pod that was created is
  deleted only if \<open>Build\<close> returns within 30 s of its creation: the deadline of the context for the
  cleanup runs while the build does, although a build may take 150 s.\<close>

theorem build_outcome:
  assumes "handle_submission m br t w (Some (SubmissionCreated sub lang team path created)) = (h, acts)"
  shows "(build_succeeds w lang \<longrightarrow> h = Published (BuildComplete sub (''builds/'' @ sub @ ''/binary'') lang team t) \<or>
      (\<exists>e. h = ConsumerError e \<and> \<not> commits h)) \<and>
    (\<not> build_succeeds w lang \<longrightarrow> commits h \<and> (\<exists>reason. length reason \<le> 4096 \<and>
      (h = Published (BuildFailed sub reason t) \<or> h = ReportDropped (BuildFailed sub reason t)))) \<and>
    (\<forall>ns n. DeletePodNamed ns n \<in> set acts \<longleftrightarrow> deleted_in w lang \<and> ns = ''builds'' \<and> n = ''build-'' @ sub)"
proof -
  obtain r a where b: "Build m w lang sub = (r, a)" by (cases "Build m w lang sub")
  note f = Build_result[OF b]
  have a: "acts = a" using assms b by (simp add: handle_submission_def)
  have len: "length (truncate_utf8 s 4096) \<le> 4096" for s using truncate_facts(1) .
  show ?thesis
  proof (cases r)
    case (Inl e)
    then show ?thesis using f assms b a len[of e]
      by (auto simp: handle_submission_def PublishBuildFailed_def Let_def commits_def split: if_splits)
  next
    case (Inr p)
    then show ?thesis using f assms b a
      by (auto simp: handle_submission_def PublishBuildComplete_def Let_def commits_def split: option.splits)
  qed
qed

definition good_build :: build_world where
  "good_build = \<lparr>b_source_url = Inr ''s'', b_upload_url = Inr ''u'', b_create = None,
     b_watch = Inr [PodSeen PodPending False, PodSeen PodSucceeded False], b_get_pod = Inl [], b_stream = (\<lambda>_. Inl []), b_took = 45000\<rparr>"

theorem build_outcome_witness:
  "fst (handle_submission 4096 open_broker 7 good_build (Some (SubmissionCreated ''s1'' ''go'' ''team'' ''p'' 0))) =
     Published (BuildComplete ''s1'' ''builds/s1/binary'' ''go'' ''team'' 7) \<and>
   DeletePodNamed ''builds'' ''build-s1'' \<notin>
     set (snd (handle_submission 4096 open_broker 7 good_build (Some (SubmissionCreated ''s1'' ''go'' ''team'' ''p'' 0))))"
proof -
  have s: "build_succeeds good_build ''go''" "\<not> deleted_in good_build ''go''"
    by (simp_all add: build_succeeds_def deleted_in_def good_build_def ended_def) (rule exI[of _ False], simp)
  obtain h a where h: "handle_submission 4096 open_broker 7 good_build (Some (SubmissionCreated ''s1'' ''go'' ''team'' ''p'' 0)) = (h, a)"
    by (rule prod.exhaust)
  have "publish open_broker ''s1'' (BuildComplete a b c d e) = None" for a b c d e by (simp add: publish_def open_broker_def)
  then have "h \<noteq> ConsumerError e" for e
    using h by (auto simp: handle_submission_def PublishBuildComplete_def PublishBuildFailed_def Let_def Build_def
      buildImages_def buildCommands_def good_build_def waitForPodCompletion_def)
  with build_outcome[OF h] s h show ?thesis by simp
qed

text \<open>The logs of a failed build are lost when they are long. \<open>readPodLogs\<close> gives the first
  \<open>maxLogBytes\<close> bytes, less what its loop trims, only when all the output fits or the limit falls
  between two reads; when the limit falls inside a read, \<open>limitWriter\<close> reports a short write, the copy
  fails, and the reason of the failure has no log at all.\<close>

lemma build_logs_lost:
  assumes "b_get_pod w = Inr statuses" "b_stream w (failed_container statuses) = Inr chunks" "\<forall>c \<in> set chunks. c \<noteq> []"
  shows "readPodLogs m w =
    (if length (concat chunks) \<le> m \<or> (\<exists>k \<le> length chunks. length (concat (take k chunks)) = m)
     then Inr (trim_reason (take m (concat chunks))) else Inl ''read logs: short write'')"
proof -
  from io_copy_result[of 0 "[]" m chunks] assms(3) obtain n where "io_copy m chunks (0, []) = ((n, take m (concat chunks)),
     length (concat chunks) \<le> m \<or> (\<exists>k \<le> length chunks. length (concat (take k chunks)) = m))" by auto
  then show ?thesis using assms(1,2) by (simp add: readPodLogs_def)
qed

text \<open>A failed build can vanish. When the log of the failure fits but is not UTF-8 (a program
  prints what it likes), nothing repairs it: the encoder refuses the event, the refusal is logged,
  and the record is committed, so that neither \<open>build.complete\<close> nor \<open>build.failed\<close> is ever published.\<close>

lemma build_failure_unreported:
  assumes "strict_encoder br" "lang \<in> {''cpp'', ''rust'', ''go''}" "b_source_url w = Inr u" "b_upload_url w = Inr v"
    "b_create w = None" "waitForPodCompletion (b_watch w) = Some e" "readPodLogs m w = Inr logs"
    "\<not> ValidString logs" "length logs \<le> 4083"
  shows "\<exists>event. fst (handle_submission m br t w (Some (SubmissionCreated sub lang team path created))) = ReportDropped event \<and>
    commits (ReportDropped event)"
proof -
  obtain img cmd where lang: "buildImages lang = Some img" "buildCommands lang = Some cmd"
    using assms(2) by (auto simp: buildImages_def buildCommands_def)
  have b: "fst (Build m w lang sub) = Inl (''build error: '' @ logs)"
    using lang assms by (simp add: Build_def Let_def)
  have "\<not> ValidString (''build error: '' @ logs)"
    using assms(8) by (subst ValidString_ascii) (simp_all add: byte_def)
  moreover have "truncate_utf8 (''build error: '' @ logs) 4096 = ''build error: '' @ logs"
    using assms(9) by (simp add: truncate_utf8_def)
  ultimately have "encode_error br (BuildFailed sub (truncate_utf8 (''build error: '' @ logs) 4096) t) \<noteq> None"
    using assms(1) unfolding strict_encoder_def by metis
  then show ?thesis using b
    by (cases "Build m w lang sub")
      (auto simp: handle_submission_def PublishBuildFailed_def Let_def publish_def commits_def split: option.splits)
qed

end
