(* ===== verification/ObjectStore.thy ===== *)
theory ObjectStore
  imports ServiceSettings ProcessStart SubmissionApi BuildService
begin

text \<open>
  The object store (\<open>storage.go\<close> of the submission API and of the build service, and the clients that
  \<open>NewStorage\<close>, \<open>NewBuilder\<close> and \<open>NewOrchestrator\<close> make): which request each of them signs or sends. The AWS
  library is a parameter: \<open>sign\<close> gives the URL for a request or an error, \<open>send\<close> carries one out.
\<close>

section \<open>Requests\<close>

datatype s3_verb = GetObject | PutObject | DeleteObject

record s3_request =
  s3_verb :: s3_verb
  s3_endpoint :: string
  s3_bucket :: string
  s3_key :: string
  s3_expires :: nat

text \<open>With path-style addressing an object is the endpoint, the bucket and the key.\<close>

definition object_url :: "s3_request \<Rightarrow> string" where
  "object_url r = s3_endpoint r @ ''/'' @ s3_bucket r @ ''/'' @ s3_key r"

text \<open>The expiry is in seconds.\<close>

type_synonym signer = "s3_request \<Rightarrow> string + string"

section \<open>The submission API\<close>

record storage =
  st_endpoint :: string
  st_bucket :: string

definition defaultBucket :: string where
  "defaultBucket = ''submissions''"

text \<open>\<open>load\<close>: the error of loading the configuration of the library.\<close>

definition NewStorage :: "string option \<Rightarrow> string \<Rightarrow> string \<Rightarrow> string + storage" where
  "NewStorage load endpoint bucket =
     (let bucket = (if bucket = [] then defaultBucket else bucket)
      in case load of Some e \<Rightarrow> Inl (''load config: '' @ e) | None \<Rightarrow> Inr \<lparr>st_endpoint = endpoint, st_bucket = bucket\<rparr>)"

definition upload_request :: "storage \<Rightarrow> string \<Rightarrow> nat \<Rightarrow> s3_request" where
  "upload_request s key lifetime =
     \<lparr>s3_verb = PutObject, s3_endpoint = st_endpoint s, s3_bucket = st_bucket s, s3_key = key, s3_expires = lifetime\<rparr>"

definition PresignUpload :: "signer \<Rightarrow> storage \<Rightarrow> string \<Rightarrow> nat \<Rightarrow> string + string" where
  "PresignUpload sign s key lifetime =
     (case sign (upload_request s key lifetime) of
        Inl e \<Rightarrow> Inl (''presign put object '' @ key @ '': '' @ e) | Inr url \<Rightarrow> Inr url)"

definition Upload :: "(s3_request \<Rightarrow> string option) \<Rightarrow> storage \<Rightarrow> string \<Rightarrow> string option" where
  "Upload send s key = map_option (\<lambda>e. ''put object '' @ key @ '': '' @ e) (send (upload_request s key 0))"

definition Delete_object :: "(s3_request \<Rightarrow> string option) \<Rightarrow> storage \<Rightarrow> string \<Rightarrow> string option" where
  "Delete_object send s key =
     map_option (\<lambda>e. ''delete object '' @ key @ '': '' @ e) (send ((upload_request s key 0)\<lparr>s3_verb := DeleteObject\<rparr>))"

section \<open>The build service\<close>

record builder =
  bd_endpoint :: string
  bd_maxLogBytes :: int64

text \<open>The calls that can fail, in their order; the sandbox orchestrator makes the same ones.\<close>

definition NewBuilder :: "(string \<Rightarrow> string option) \<Rightarrow> string \<Rightarrow> int64 \<Rightarrow> string + builder" where
  "NewBuilder fails seaweedfsEndpoint maxLogBytes =
     first_failure fails [''load aws config'', ''k8s in-cluster config'', ''k8s clientset'']
       \<lparr>bd_endpoint = seaweedfsEndpoint, bd_maxLogBytes = maxLogBytes\<rparr>"

definition NewSandboxOrchestrator :: "(string \<Rightarrow> string option) \<Rightarrow> string \<Rightarrow> SandboxConfig \<Rightarrow> string + (string \<times> SandboxConfig)" where
  "NewSandboxOrchestrator fails seaweedfsEndpoint cfg = first_failure fails [''load aws config'', ''k8s in-cluster config'', ''k8s clientset''] (seaweedfsEndpoint, cfg)"

text \<open>The bot orchestrator has no object store.\<close>

definition NewBotOrchestrator :: "(string \<Rightarrow> string option) \<Rightarrow> Config \<Rightarrow> string + Config" where
  "NewBotOrchestrator fails cfg = first_failure fails [''in-cluster config'', ''k8s client''] cfg"

definition srcBucket :: string where
  "srcBucket = ''submissions''"

definition get_request :: "builder \<Rightarrow> string \<Rightarrow> nat \<Rightarrow> s3_request" where
  "get_request b key expiry =
     \<lparr>s3_verb = GetObject, s3_endpoint = bd_endpoint b, s3_bucket = srcBucket, s3_key = key, s3_expires = expiry\<rparr>"

definition GeneratePresignedGetURL :: "signer \<Rightarrow> builder \<Rightarrow> string \<Rightarrow> nat \<Rightarrow> string + string" where
  "GeneratePresignedGetURL sign b key expiry =
     (case sign (get_request b key expiry) of
        Inl e \<Rightarrow> Inl (''presign get object '' @ key @ '': '' @ e) | Inr url \<Rightarrow> Inr url)"

definition GeneratePresignedPutURL :: "signer \<Rightarrow> builder \<Rightarrow> string \<Rightarrow> nat \<Rightarrow> string + string" where
  "GeneratePresignedPutURL sign b key expiry =
     (case sign ((get_request b key expiry)\<lparr>s3_verb := PutObject\<rparr>) of
        Inl e \<Rightarrow> Inl (''presign put object '' @ key @ '': '' @ e) | Inr url \<Rightarrow> Inr url)"

text \<open>The two URLs that \<open>Build\<close> asks for, both for 15 minutes.\<close>

definition build_urls :: "signer \<Rightarrow> builder \<Rightarrow> string \<Rightarrow> string \<Rightarrow> build_world \<Rightarrow> build_world" where
  "build_urls sign b artifactPath submissionId w =
     w\<lparr>b_source_url := GeneratePresignedGetURL sign b artifactPath 900,
       b_upload_url := GeneratePresignedPutURL sign b (''builds/'' @ submissionId @ ''/binary'') 900\<rparr>"

section \<open>The way of an artifact\<close>

lemma Build_pods:
  assumes "Build n w lang sub = (r, acts)" "CreatePod p \<in> set acts"
  shows "\<exists>img cmd src up. buildImages lang = Some img \<and> buildCommands lang = Some cmd \<and> b_source_url w = Inr src \<and>
    b_upload_url w = Inr up \<and> p = createBuildPod (''build-'' @ sub) img cmd src up"
  using assms by (auto simp: Build_def cleanupPod_def Let_def split: option.splits sum.splits if_splits)

text \<open>What the pod of a build downloads and uploads, by the URLs that were signed.\<close>

lemma build_pod_urls:
  assumes "Build n (build_urls sign b path sub w) lang sub = (r, acts)" "CreatePod p \<in> set acts"
  shows "\<exists>src up img cmd. sign (get_request b path 900) = Inr src \<and>
    sign ((get_request b (''builds/'' @ sub @ ''/binary'') 900)\<lparr>s3_verb := PutObject\<rparr>) = Inr up \<and>
    p_InitContainers p = [download_source src, build_container img cmd, upload_binary up]"
  using Build_pods[OF assms]
  by (auto simp: build_urls_def GeneratePresignedGetURL_def GeneratePresignedPutURL_def createBuildPod_def split: sum.splits)
    (rule exI, rule exI, rule refl)

section \<open>Property\<close>



end
