(* ===== verification/SchemaRegistry.thy ===== *)
theory SchemaRegistry
  imports Ingester Lifecycle
begin

text \<open>
  The schema registry client (\<open>pkg/schema\<close>): the two schemas, \<open>Register\<close>, \<open>NewSerde\<close>, and how each of the six
  services that use it makes its own serializer at start. The registry, the serializer of franz-go and the
  protobuf library are parameters; what their documentation says of them are the hypotheses \<open>registry_laws\<close>,
  \<open>asks\<close>, \<open>wire_laws\<close> and \<open>proto_laws\<close>.
\<close>

section \<open>The schemas\<close>

definition lines_of :: "string list \<Rightarrow> string" where
  "lines_of ls = concat (map (\<lambda>l. l @ [CHR 0x0A]) ls)"

definition LifecycleProto :: string where
  "LifecycleProto = lines_of
    [''syntax = \"proto3\";'',
     ''package obarena.v1;'',
     ''message LifecycleEvent {'',
     ''  oneof event {'',
     ''    SubmissionCreated submission_created = 1;'',
     ''    BuildComplete build_complete = 2;'',
     ''    BuildFailed build_failed = 3;'',
     ''    SandboxReady sandbox_ready = 4;'',
     ''    SandboxFailed sandbox_failed = 5;'',
     ''    TestComplete test_complete = 6;'',
     ''  }'',
     ''}'',
     ''message SubmissionCreated {'',
     ''  string submission_id = 1;'',
     ''  string language = 2;'',
     ''  string team_name = 3;'',
     ''  string artifact_path = 4;'',
     ''  int64 created_at = 5;'',
     ''}'',
     ''message BuildComplete {'',
     ''  string submission_id = 1;'',
     ''  string binary_path = 2;'',
     ''  string language = 3;'',
     ''  string team_name = 4;'',
     ''  int64 built_at = 5;'',
     ''}'',
     ''message BuildFailed {'',
     ''  string submission_id = 1;'',
     ''  string reason = 2;'',
     ''  int64 failed_at = 3;'',
     ''}'',
     ''message SandboxReady {'',
     ''  string submission_id = 1;'',
     ''  string pod_name = 2;'',
     ''  string pod_ip = 3;'',
     ''  int32 http_port = 4;'',
     ''  int32 ws_port = 5;'',
     ''  string team_name = 6;'',
     ''  int64 ready_at = 7;'',
     ''}'',
     ''message SandboxFailed {'',
     ''  string submission_id = 1;'',
     ''  string reason = 2;'',
     ''  int64 failed_at = 3;'',
     ''}'',
     ''message TestComplete {'',
     ''  string submission_id = 1;'',
     ''  string team_name = 2;'',
     ''  bool success = 3;'',
     ''  string reason = 4;'',
     ''  int64 completed_at = 5;'',
     ''}'']"

definition MetricsProto :: string where
  "MetricsProto = lines_of
    [''syntax = \"proto3\";'',
     ''package obarena.v1;'',
     ''message BotMetrics {'',
     ''  string team_name = 1;'',
     ''  string submission_id = 2;'',
     ''  string test_run_id = 3;'',
     ''  int64 duration_ms = 4;'',
     ''  int64 orders_sent = 5;'',
     ''  int64 acks_recv = 6;'',
     ''  int64 fills_recv = 7;'',
     ''  int64 rejects_recv = 8;'',
     ''  int64 stale_orders = 9;'',
     ''  int64 ack_p50_us = 10;'',
     ''  int64 ack_p90_us = 11;'',
     ''  int64 ack_p99_us = 12;'',
     ''  int64 ack_p999_us = 13;'',
     ''  int64 ack_max_us = 14;'',
     ''  int64 fill_p50_us = 15;'',
     ''  int64 fill_p90_us = 16;'',
     ''  int64 fill_p99_us = 17;'',
     ''  int64 fill_p999_us = 18;'',
     ''  int64 fill_max_us = 19;'',
     ''  double tps = 20;'',
     ''  double correctness_score = 21;'',
     ''  int64 emitted_at = 22;'',
     ''}'']"

section \<open>Registration\<close>

datatype compatibility = CompatBackward | CompatFullTransitive

record SubjectConfig =
  sc_Subject :: string
  sc_ProtoSchema :: string
  sc_Compatibility :: compatibility

record RegisteredSchema =
  rs_Subject :: string
  rs_ID :: int

text \<open>
  What the registry answers: \<open>CreateSchema\<close> an error or an id and a version, the same ones when it knows the
  schema already; \<open>SetCompatibility\<close> an error or none for each subject.
\<close>

record registry_client =
  CreateSchema :: "string \<Rightarrow> string \<Rightarrow> string + int \<times> int"
  SetCompatibility :: "compatibility \<Rightarrow> string \<Rightarrow> string option list"

definition NewRegistry :: "(string \<Rightarrow> string + registry_client) \<Rightarrow> string \<Rightarrow> string + registry_client" where
  "NewRegistry new_client url = (case new_client url of Inl e \<Rightarrow> Inl (''schema registry client: '' @ e) | Inr c \<Rightarrow> Inr c)"

text \<open>The result, and the warnings of the log.\<close>

definition Register :: "registry_client \<Rightarrow> SubjectConfig \<Rightarrow> (string + RegisteredSchema) \<times> string list" where
  "Register r cfg =
     (case CreateSchema r (sc_Subject cfg) (sc_ProtoSchema cfg) of
        Inl e \<Rightarrow> (Inl (''register schema '' @ [CHR 0x22] @ sc_Subject cfg @ [CHR 0x22] @ '': '' @ e), [])
      | Inr (i, version) \<Rightarrow>
          (Inr \<lparr>rs_Subject = sc_Subject cfg, rs_ID = i\<rparr>,
           List.map_filter id (SetCompatibility r (sc_Compatibility cfg) (sc_Subject cfg))))"

section \<open>Serializers\<close>

text \<open>A message is of one of two types; an empty one stands for its type.\<close>

datatype message = LifecycleMessage LifecycleEvent | MetricsMessage BotMetricsEvent

datatype message_type = LifecycleType | MetricsType

definition type_of :: "message \<Rightarrow> message_type" where
  "type_of m = (case m of LifecycleMessage _ \<Rightarrow> LifecycleType | MetricsMessage _ \<Rightarrow> MetricsType)"

record binding =
  bn_ID :: int
  bn_Type :: message_type
  bn_Index :: "int list"

text \<open>What \<open>serde.Register\<close> is given: the generator clones the empty message.\<close>

record serde_entry =
  se_ID :: int
  se_Type :: message_type
  se_Index :: "int list"
  se_New :: "unit \<Rightarrow> message_type"

definition generatorFor :: "message_type \<Rightarrow> unit \<Rightarrow> message_type" where
  "generatorFor msg = (\<lambda>_. msg)"

definition NewSerde :: "binding list \<Rightarrow> serde_entry list" where
  "NewSerde bindings = map (\<lambda>b. \<lparr>se_ID = bn_ID b, se_Type = bn_Type b,
     se_Index = (if length (bn_Index b) > 0 then bn_Index b else [0]), se_New = generatorFor (bn_Type b)\<rparr>) bindings"

text \<open>
  The start of a service: a client, a registration, the bindings for the registered schema. \<open>Inl\<close> ends
  \<open>run\<close>. Each service has this code of its own, with its own subject, schema, level, type and index.
\<close>

definition start_serde :: "(string \<Rightarrow> string + registry_client) \<Rightarrow> string \<Rightarrow> SubjectConfig \<Rightarrow> (RegisteredSchema \<Rightarrow> binding list) \<Rightarrow>
    string + serde_entry list" where
  "start_serde new_client url cfg bindings =
     (case NewRegistry new_client url of Inl e \<Rightarrow> Inl (''schema registry: '' @ e)
      | Inr reg \<Rightarrow> (case fst (Register reg cfg) of Inl e \<Rightarrow> Inl (''register schema: '' @ e)
          | Inr registered \<Rightarrow> Inr (NewSerde (bindings registered))))"

definition runner_serde :: "(string \<Rightarrow> string + registry_client) \<Rightarrow> string \<Rightarrow> string \<Rightarrow> string + serde_entry list" where
  "runner_serde new_client url topic = start_serde new_client url
     \<lparr>sc_Subject = topic @ ''-value'', sc_ProtoSchema = MetricsProto, sc_Compatibility = CompatFullTransitive\<rparr>
     (\<lambda>registered. [\<lparr>bn_ID = rs_ID registered, bn_Type = MetricsType, bn_Index = [0]\<rparr>])"

definition ingester_serde :: "(string \<Rightarrow> string + registry_client) \<Rightarrow> string \<Rightarrow> string \<Rightarrow> string + serde_entry list" where
  "ingester_serde new_client url topic = start_serde new_client url
     \<lparr>sc_Subject = topic @ ''-value'', sc_ProtoSchema = MetricsProto, sc_Compatibility = CompatFullTransitive\<rparr>
     (\<lambda>registered. [\<lparr>bn_ID = rs_ID registered, bn_Type = MetricsType, bn_Index = [0]\<rparr>])"

definition api_serde :: "(string \<Rightarrow> string + registry_client) \<Rightarrow> string \<Rightarrow> string \<Rightarrow> string + serde_entry list" where
  "api_serde new_client url topic = start_serde new_client url
     \<lparr>sc_Subject = topic @ ''-value'', sc_ProtoSchema = LifecycleProto, sc_Compatibility = CompatBackward\<rparr>
     (\<lambda>registered. [\<lparr>bn_ID = rs_ID registered, bn_Type = LifecycleType, bn_Index = [0]\<rparr>])"

definition build_serde :: "(string \<Rightarrow> string + registry_client) \<Rightarrow> string \<Rightarrow> string \<Rightarrow> string + serde_entry list" where
  "build_serde new_client url topic = start_serde new_client url
     \<lparr>sc_Subject = topic @ ''-value'', sc_ProtoSchema = LifecycleProto, sc_Compatibility = CompatBackward\<rparr>
     (\<lambda>registered. [\<lparr>bn_ID = rs_ID registered, bn_Type = LifecycleType, bn_Index = [0]\<rparr>])"

definition sandbox_serde :: "(string \<Rightarrow> string + registry_client) \<Rightarrow> string \<Rightarrow> string \<Rightarrow> string + serde_entry list" where
  "sandbox_serde new_client url topic = start_serde new_client url
     \<lparr>sc_Subject = topic @ ''-value'', sc_ProtoSchema = LifecycleProto, sc_Compatibility = CompatBackward\<rparr>
     (\<lambda>registered. [\<lparr>bn_ID = rs_ID registered, bn_Type = LifecycleType, bn_Index = [0]\<rparr>])"

definition orchestrator_serde :: "(string \<Rightarrow> string + registry_client) \<Rightarrow> string \<Rightarrow> string \<Rightarrow> string + serde_entry list" where
  "orchestrator_serde new_client url topic = start_serde new_client url
     \<lparr>sc_Subject = topic @ ''-value'', sc_ProtoSchema = LifecycleProto, sc_Compatibility = CompatBackward\<rparr>
     (\<lambda>registered. [\<lparr>bn_ID = rs_ID registered, bn_Type = LifecycleType, bn_Index = [0]\<rparr>])"

text \<open>Who writes the topic of the lifecycle, and who reads it.\<close>

definition lifecycle_producers :: "((string \<Rightarrow> string + registry_client) \<Rightarrow> string \<Rightarrow> string \<Rightarrow> string + serde_entry list) list" where
  "lifecycle_producers = [api_serde, build_serde, sandbox_serde, orchestrator_serde]"

definition lifecycle_consumers :: "((string \<Rightarrow> string + registry_client) \<Rightarrow> string \<Rightarrow> string \<Rightarrow> string + serde_entry list) list" where
  "lifecycle_consumers = [build_serde, sandbox_serde, orchestrator_serde]"

section \<open>What the libraries promise\<close>

text \<open>
  The registry at a URL gives a schema under a subject one id, whoever asks and how often (registering is
  idempotent); ids fit in four bytes, and an id names one schema. A process gets these ids, or errors.
\<close>

type_synonym registry_ids = "string \<Rightarrow> string \<Rightarrow> string \<Rightarrow> int"

definition registry_laws :: "registry_ids \<Rightarrow> bool" where
  "registry_laws ids \<longleftrightarrow> (\<forall>url s p. 0 \<le> ids url s p \<and> ids url s p < 2 ^ 32) \<and>
     (\<forall>url s s'. ids url s LifecycleProto \<noteq> ids url s' MetricsProto)"

definition asks :: "registry_ids \<Rightarrow> (string \<Rightarrow> string + registry_client) \<Rightarrow> bool" where
  "asks ids new_client \<longleftrightarrow>
     (\<forall>url client s p i v. new_client url = Inr client \<longrightarrow> CreateSchema client s p = Inr (i, v) \<longrightarrow> i = ids url s p)"

text \<open>Four bytes, the highest first.\<close>

definition be32 :: "int \<Rightarrow> nat list" where
  "be32 i = map (\<lambda>k. nat (i div 256 ^ k mod 256)) [3, 2, 1, 0]"

definition read_be32 :: "nat list \<Rightarrow> int" where
  "read_be32 bs = foldl (\<lambda>i b. 256 * i + int b) 0 bs"

record codec =
  Marshal :: "message \<Rightarrow> string + nat list"
  Unmarshal :: "message_type \<Rightarrow> nat list \<Rightarrow> string + message"
  index_bytes :: "int list \<Rightarrow> nat list"
  read_index :: "nat list \<Rightarrow> (int list \<times> nat list) option"
  Encode :: "serde_entry list \<Rightarrow> message \<Rightarrow> string + nat list"
  DecodeNew :: "serde_entry list \<Rightarrow> nat list \<Rightarrow> string + message"

text \<open>What a reader finds in front of a value: the magic byte, the id, the index.\<close>

definition read_header :: "codec \<Rightarrow> nat list \<Rightarrow> (int \<times> int list \<times> nat list) option" where
  "read_header c v =
     (if length v < 5 \<or> v ! 0 \<noteq> 0 then None
      else case read_index c (drop 5 v) of None \<Rightarrow> None
        | Some (index, bs) \<Rightarrow> Some (read_be32 (take 4 (drop 1 v)), index, bs))"

text \<open>
  The Confluent wire format, for a serializer with one registration. \<open>Encode\<close> refuses a value of another
  type; otherwise it puts the header of the registration before what its \<open>EncodeFn\<close> gives. \<open>DecodeNew\<close>
  reads a header and looks for a registration with its id and index; without one it is an error, with one the
  rest is decoded into a new value of the registration. The index \<open>[0]\<close> is the one byte 0.
\<close>

definition wire_laws :: "codec \<Rightarrow> bool" where
  "wire_laws c \<longleftrightarrow>
     (\<forall>e m. if type_of m \<noteq> se_Type e then isl (Encode c [e] m)
        else Encode c [e] m = (case Marshal c m of Inl x \<Rightarrow> Inl x
          | Inr bs \<Rightarrow> Inr (0 # be32 (se_ID e) @ index_bytes c (se_Index e) @ bs))) \<and>
     (\<forall>e v. case read_header c v of None \<Rightarrow> isl (DecodeNew c [e] v)
        | Some (i, index, bs) \<Rightarrow>
            if i = se_ID e \<and> index = se_Index e then DecodeNew c [e] v = Unmarshal c (se_New e ()) bs
            else isl (DecodeNew c [e] v)) \<and>
     index_bytes c [0] = [0] \<and> (\<forall>bs. read_index c (0 # bs) = Some ([0], bs))"

text \<open>\<open>proto.Unmarshal\<close> into an empty message of the type undoes \<open>proto.Marshal\<close>.\<close>

definition proto_laws :: "codec \<Rightarrow> bool" where
  "proto_laws c \<longleftrightarrow> (\<forall>m bs. Marshal c m = Inr bs \<longrightarrow> Unmarshal c (type_of m) bs = Inr m)"

section \<open>Consumers\<close>

text \<open>The decoders of the consumers: a type switch on what \<open>DecodeNew\<close> gives. (The ingester checks the magic byte before.)\<close>

definition decode_metrics :: "codec \<Rightarrow> serde_entry list \<Rightarrow> nat list \<Rightarrow> BotMetricsEvent option option" where
  "decode_metrics c serde v =
     (case DecodeNew c serde v of Inl e \<Rightarrow> None | Inr (MetricsMessage e) \<Rightarrow> Some (Some e) | Inr _ \<Rightarrow> Some None)"

definition decode_lifecycle :: "codec \<Rightarrow> serde_entry list \<Rightarrow> nat list \<Rightarrow> LifecycleEvent option" where
  "decode_lifecycle c serde v =
     (case DecodeNew c serde v of Inr (LifecycleMessage e) \<Rightarrow> Some e | _ \<Rightarrow> None)"

section \<open>What they show\<close>

text \<open>The message that an index of one number names: the declarations that start in the first column.\<close>

fun split_lines :: "string \<Rightarrow> string list" where
  "split_lines [] = [[]]"
| "split_lines (c # cs) =
     (if c = CHR 0x0A then [] # split_lines cs
      else case split_lines cs of [] \<Rightarrow> [[c]] | p # ps \<Rightarrow> (c # p) # ps)"

definition top_messages :: "string \<Rightarrow> string list" where
  "top_messages proto = List.map_filter (\<lambda>l. if take 8 l = ''message '' then Some (takeWhile (\<lambda>c. c \<noteq> CHR '' '') (drop 8 l)) else None)
     (split_lines proto)"

lemma index_names_type:
  "top_messages LifecycleProto ! 0 = ''LifecycleEvent''" "top_messages MetricsProto = [''BotMetrics'']"
  by code_simp+

lemma schemas_differ: "LifecycleProto \<noteq> MetricsProto"
  by code_simp

text \<open>What a service holds when its start succeeded.\<close>

lemma start_serde_ok:
  assumes "start_serde new_client url cfg (\<lambda>registered. [\<lparr>bn_ID = rs_ID registered, bn_Type = t, bn_Index = [0]\<rparr>]) = Inr serde"
    "asks ids new_client"
  shows "serde = [\<lparr>se_ID = ids url (sc_Subject cfg) (sc_ProtoSchema cfg), se_Type = t, se_Index = [0], se_New = generatorFor t\<rparr>]"
  using assms by (auto simp: start_serde_def NewRegistry_def Register_def NewSerde_def asks_def split: sum.splits prod.splits)

lemmas service_serdes = runner_serde_def ingester_serde_def api_serde_def build_serde_def sandbox_serde_def orchestrator_serde_def

lemma metrics_serde_ok:
  assumes "asks ids new_client"
  shows "runner_serde new_client url topic = Inr s \<Longrightarrow> s = [\<lparr>se_ID = ids url (topic @ ''-value'') MetricsProto,
      se_Type = MetricsType, se_Index = [0], se_New = generatorFor MetricsType\<rparr>]"
    "ingester_serde new_client url topic = Inr s \<Longrightarrow> s = [\<lparr>se_ID = ids url (topic @ ''-value'') MetricsProto,
      se_Type = MetricsType, se_Index = [0], se_New = generatorFor MetricsType\<rparr>]"
  by (auto simp: service_serdes dest!: start_serde_ok[OF _ assms])

lemma lifecycle_serde_ok:
  assumes "asks ids new_client" "start \<in> set (lifecycle_producers @ lifecycle_consumers)" "start new_client url topic = Inr s"
  shows "s = [\<lparr>se_ID = ids url (topic @ ''-value'') LifecycleProto,
      se_Type = LifecycleType, se_Index = [0], se_New = generatorFor LifecycleType\<rparr>]"
  using assms(2,3) by (auto simp: lifecycle_producers_def lifecycle_consumers_def service_serdes dest!: start_serde_ok[OF _ assms(1)])

lemma be32_length [simp]: "length (be32 i) = 4"
  by (simp add: be32_def)

lemma read_be32: "0 \<le> i \<Longrightarrow> i < 2 ^ 32 \<Longrightarrow> read_be32 (be32 i) = i"
proof -
  assume i: "0 \<le> i" "i < 2 ^ 32"
  let ?a = "i div 256" let ?b = "?a div 256" let ?c = "?b div 256"
  have d: "i div 65536 = ?b" "i div 16777216 = ?c" by (simp_all add: zdiv_zmult2_eq[symmetric])
  have c: "0 \<le> ?c" "?c < 256" using i by (simp_all add: zdiv_zmult2_eq[symmetric] pos_imp_zdiv_nonneg_iff div_less_iff_less_mult)
  then have "?c mod 256 = ?c" by (rule mod_pos_pos_trivial)
  moreover have "256 * (k div 256) + k mod 256 = k" for k :: int by simp
  then have "256 * ?c + ?b mod 256 = ?b" "256 * ?b + ?a mod 256 = ?a" "256 * ?a + i mod 256 = i" by blast+
  moreover have "0 \<le> k mod 256" for k :: int by simp
  ultimately show ?thesis using c(1) by (simp add: read_be32_def be32_def d)
qed

text \<open>A value with a header is read by exactly the serializers with the same id, index apart.\<close>

lemma decode_encoded:
  assumes "wire_laws c" "0 \<le> i" "i < 2 ^ 32" "se_Index e = [0]"
  shows "if i = se_ID e then DecodeNew c [e] (0 # be32 i @ index_bytes c [0] @ bs) = Unmarshal c (se_New e ()) bs
    else isl (DecodeNew c [e] (0 # be32 i @ index_bytes c [0] @ bs))"
proof -
  have "read_header c (0 # be32 i @ index_bytes c [0] @ bs) = Some (i, [0], bs)"
    using assms(1) read_be32[OF assms(2,3)] by (simp add: read_header_def wire_laws_def)
  with assms(1)[unfolded wire_laws_def, THEN conjunct2, THEN conjunct1, THEN spec, THEN spec,
      of e "0 # be32 i @ index_bytes c [0] @ bs"] assms(4)
  show ?thesis by simp
qed

lemma encode_marshalled:
  assumes "wire_laws c" "type_of m = se_Type e" "se_Index e = [0]" "Marshal c m = Inr bs"
  shows "Encode c [e] m = Inr (0 # be32 (se_ID e) @ index_bytes c [0] @ bs)"
proof -
  have "if type_of m \<noteq> se_Type e then isl (Encode c [e] m)
        else Encode c [e] m = (case Marshal c m of Inl x \<Rightarrow> Inl x
          | Inr bs \<Rightarrow> Inr (0 # be32 (se_ID e) @ index_bytes c (se_Index e) @ bs))"
    using assms(1)[unfolded wire_laws_def, THEN conjunct1, THEN spec, THEN spec] .
  with assms(2-4) show ?thesis by simp
qed

text \<open>What passes the check of the ingester for the magic byte.\<close>

lemma handle_record_header:
  "handle_record decode (0 # be32 i @ xs) = (case decode (0 # be32 i @ xs) of Some (Some e) \<Rightarrow> Some e | _ \<Rightarrow> None)"
  by (simp add: handle_record_def split: option.splits)

text \<open>A codec for two events, and a registry where setting the level fails.\<close>

definition demo_codec :: "BotMetricsEvent \<Rightarrow> LifecycleEvent \<Rightarrow> codec" where
  "demo_codec e l =
     (let un = (\<lambda>t bs. if t = MetricsType \<and> bs = [7] then Inr (MetricsMessage e)
                  else if t = LifecycleType \<and> bs = [8] then Inr (LifecycleMessage l) else Inl ''bytes'');
          mar = (\<lambda>m. if m = MetricsMessage e then Inr [7] else if m = LifecycleMessage l then Inr [8] else Inl ''message'');
          ib = (\<lambda>index. if index = [0] then [0] else [1]);
          ri = (\<lambda>v. case v of 0 # bs \<Rightarrow> Some ([0], bs) | _ \<Rightarrow> None);
          c = \<lparr>Marshal = mar, Unmarshal = un, index_bytes = ib, read_index = ri,
               Encode = (\<lambda>_ _. Inl []), DecodeNew = (\<lambda>_ _. Inl [])\<rparr>
      in c\<lparr>Encode := (\<lambda>rs m. if rs = [] \<or> type_of m \<noteq> se_Type (rs ! 0) then Inl ''not registered''
             else case mar m of Inl x \<Rightarrow> Inl x | Inr bs \<Rightarrow> Inr (0 # be32 (se_ID (rs ! 0)) @ ib (se_Index (rs ! 0)) @ bs)),
           DecodeNew := (\<lambda>rs v. case read_header c v of None \<Rightarrow> Inl ''bad header''
             | Some (i, index, bs) \<Rightarrow> if rs \<noteq> [] \<and> i = se_ID (rs ! 0) \<and> index = se_Index (rs ! 0) then un (se_New (rs ! 0) ()) bs
                 else Inl ''not registered'')\<rparr>)"

definition demo_ids :: registry_ids where
  "demo_ids = (\<lambda>url s p. if p = MetricsProto then 41 else 42)"

definition demo_registry :: registry_client where
  "demo_registry = \<lparr>CreateSchema = (\<lambda>s p. Inr (if p = MetricsProto then 41 else 42, 1)), SetCompatibility = (\<lambda>l s. [Some ''denied''])\<rparr>"

lemma read_header_cong: "read_index c = read_index c' \<Longrightarrow> read_header c v = read_header c' v"
  by (simp add: read_header_def)

lemma demo_codec_laws: "wire_laws (demo_codec e l)" "proto_laws (demo_codec e l)"
proof -
  show "wire_laws (demo_codec e l)"
    unfolding wire_laws_def demo_codec_def Let_def
    by (auto split: sum.splits option.splits simp: read_header_def split: if_splits)
  show "proto_laws (demo_codec e l)"
    by (auto simp: proto_laws_def demo_codec_def Let_def type_of_def split: if_splits)
qed

lemma demo_registry_laws: "registry_laws demo_ids" "asks demo_ids (\<lambda>_. Inr demo_registry)"
  using schemas_differ by (auto simp: registry_laws_def asks_def demo_ids_def demo_registry_def)

section \<open>Property\<close>

text \<open>C40: What one service publishes another reads, if the two agree on the schema. Take the laws of the
  libraries, processes that each have made their own serializer, at registries and for topics of their own,
  and events that can be marshalled. The runner encodes its metrics, and the ingester decodes them to the
  same event exactly when its registry gave it the id that the runner was given; otherwise it skips the
  record. The same holds of an event of the lifecycle, for each service that writes it and each that reads
  it. With one URL and one topic the ids are the same, so there everything arrives; and a record of the
  lifecycle that reaches an ingester of the same registry is skipped, whatever the topics.\<close>

theorem events_cross_the_wire:
  assumes "wire_laws c" "proto_laws c" "registry_laws ids" "asks ids nc" "asks ids nc'" "asks ids nc2" "asks ids nc2'"
    "runner_serde nc url topic = Inr ms" "ingester_serde nc' url' topic' = Inr ms'"
    "producer \<in> set lifecycle_producers" "producer nc2 url2 topic2 = Inr ls" "consumer \<in> set lifecycle_consumers" "consumer nc2' url2' topic2' = Inr ls'"
    "Marshal c (MetricsMessage e) = Inr bs" "Marshal c (LifecycleMessage l) = Inr bs'"
  shows "\<exists>v v'. Encode c ms (MetricsMessage e) = Inr v \<and> Encode c ls (LifecycleMessage l) = Inr v' \<and>
    handle_record (decode_metrics c ms') v =
      (if ids url (topic @ ''-value'') MetricsProto = ids url' (topic' @ ''-value'') MetricsProto then Some e else None) \<and>
    decode_lifecycle c ls' v' =
      (if ids url2 (topic2 @ ''-value'') LifecycleProto = ids url2' (topic2' @ ''-value'') LifecycleProto then Some l else None) \<and>
    (url' = url \<and> topic' = topic \<longrightarrow> handle_record (decode_metrics c ms') v = Some e) \<and>
    (url2' = url2 \<and> topic2' = topic2 \<longrightarrow> decode_lifecycle c ls' v' = Some l) \<and>
    (url' = url2 \<longrightarrow> handle_record (decode_metrics c ms') v' = None)"
proof -
  let ?m = "ids url (topic @ ''-value'') MetricsProto" and ?l = "ids url2 (topic2 @ ''-value'') LifecycleProto"
  note ms = metrics_serde_ok(1)[OF assms(4,8)] and ms' = metrics_serde_ok(2)[OF assms(5,9)]
  have ls: "ls = [\<lparr>se_ID = ?l, se_Type = LifecycleType, se_Index = [0], se_New = generatorFor LifecycleType\<rparr>]"
    using lifecycle_serde_ok[where start = producer, OF assms(6) _ assms(11)] assms(10) by simp
  have ls': "ls' = [\<lparr>se_ID = ids url2' (topic2' @ ''-value'') LifecycleProto, se_Type = LifecycleType, se_Index = [0],
      se_New = generatorFor LifecycleType\<rparr>]"
    using lifecycle_serde_ok[where start = consumer, OF assms(7) _ assms(13)] assms(12) by simp
  let ?v = "0 # be32 ?m @ index_bytes c [0] @ bs" and ?v' = "0 # be32 ?l @ index_bytes c [0] @ bs'"
  have enc: "Encode c ms (MetricsMessage e) = Inr ?v" "Encode c ls (LifecycleMessage l) = Inr ?v'"
    unfolding ms ls using encode_marshalled[OF assms(1) _ _ assms(14)] encode_marshalled[OF assms(1) _ _ assms(15)]
    by (simp_all add: type_of_def)
  have rng: "0 \<le> ids u s p" "ids u s p < 2 ^ 32" for u s p using assms(3) by (simp_all add: registry_laws_def)
  have un: "Unmarshal c MetricsType bs = Inr (MetricsMessage e)" "Unmarshal c LifecycleType bs' = Inr (LifecycleMessage l)"
    using assms(2,14,15) by (fastforce simp: proto_laws_def type_of_def)+
  note dec = decode_encoded[OF assms(1) rng(1) rng(2)]
  have m: "handle_record (decode_metrics c ms') ?v = (if ?m = ids url' (topic' @ ''-value'') MetricsProto then Some e else None)"
    using dec[of "ms' ! 0" url "topic @ ''-value''" MetricsProto bs] un(1)
    unfolding ms' by (auto simp: handle_record_header decode_metrics_def generatorFor_def split: if_splits sum.splits)
  have l: "decode_lifecycle c ls' ?v' = (if ?l = ids url2' (topic2' @ ''-value'') LifecycleProto then Some l else None)"
    using dec[of "ls' ! 0" url2 "topic2 @ ''-value''" LifecycleProto bs'] un(2)
    unfolding ls' by (auto simp: decode_lifecycle_def generatorFor_def split: if_splits sum.splits)
  have x: "url' = url2 \<Longrightarrow> handle_record (decode_metrics c ms') ?v' = None"
    using dec[of "ms' ! 0" url2 "topic2 @ ''-value''" LifecycleProto bs'] assms(3)
    unfolding ms' by (auto simp: handle_record_header decode_metrics_def registry_laws_def split: if_splits sum.splits)
  show ?thesis using enc m l x by (intro exI[of _ ?v] exI[of _ ?v']) simp
qed

theorem events_cross_the_wire_witness:
  "\<exists>c ms ms' ls e l v v'. runner_serde (\<lambda>_. Inr demo_registry) ''url'' ''bot.metrics'' = Inr ms \<and>
    ingester_serde (\<lambda>_. Inr demo_registry) ''url'' ''bot.metrics'' = Inr ms' \<and>
    Encode c ms (MetricsMessage e) = Inr v \<and> handle_record (decode_metrics c ms') v = Some e \<and>
    api_serde (\<lambda>_. Inr demo_registry) ''url'' ''submission.lifecycle'' = Inr ls \<and>
    Encode c ls (LifecycleMessage l) = Inr v' \<and> handle_record (decode_metrics c ms') v' = None"
proof -
  fix e l
  let ?c = "demo_codec e l" and ?nc = "\<lambda>_ :: string. Inr demo_registry :: string + registry_client"
  obtain ms ms' ls ls' where s: "runner_serde ?nc ''url'' ''bot.metrics'' = Inr ms" "ingester_serde ?nc ''url'' ''bot.metrics'' = Inr ms'"
    "api_serde ?nc ''url'' ''submission.lifecycle'' = Inr ls" "build_serde ?nc ''url'' ''submission.lifecycle'' = Inr ls'"
    by (simp add: service_serdes start_serde_def NewRegistry_def Register_def demo_registry_def)
  have m: "Marshal ?c (MetricsMessage e) = Inr [7]" "Marshal ?c (LifecycleMessage l) = Inr [8]"
    by (simp_all add: demo_codec_def Let_def)
  have "api_serde \<in> set lifecycle_producers" "build_serde \<in> set lifecycle_consumers"
    by (simp_all add: lifecycle_producers_def lifecycle_consumers_def)
  from events_cross_the_wire[OF demo_codec_laws demo_registry_laws demo_registry_laws(2) demo_registry_laws(2) demo_registry_laws(2) s(1,2) this(1) s(3) this(2) s(4) m] s
  show ?thesis by blast
qed

end
