(* ===== verification/StubSnapshot.thy ===== *)
theory StubSnapshot
  imports StubMatch
begin

text \<open>
  The book snapshot of the matching engine, \<open>orderbookHandler\<close> of \<open>services/stub/main.go\<close>: the
  resting quantity per price, best price first. Go visits a map in an unspecified order, which
  is an argument here; the result does not depend on it.
\<close>

record PriceLevel =
  level_Price :: price
  level_Quantity :: int64

record SnapshotResponse =
  Bids :: "PriceLevel list"
  Asks :: "PriceLevel list"
  Timestamp :: int64

text \<open>\<open>m[o.Price] += o.Remaining\<close>: a missing key counts as zero, the addition wraps.\<close>

definition add_order :: "Order \<Rightarrow> (price \<rightharpoonup> int64) \<Rightarrow> (price \<rightharpoonup> int64)" where
  "add_order x m = m(Price x \<mapsto> i64 ((case m (Price x) of None \<Rightarrow> 0 | Some q \<Rightarrow> q) + Remaining x))"

definition level_map :: "memory \<Rightarrow> addr list \<Rightarrow> price \<rightharpoonup> int64" where
  "level_map m0 h = fold (\<lambda>a. add_order (m0 a)) h Map.empty"

definition levels :: "(price \<rightharpoonup> int64) \<Rightarrow> price list \<Rightarrow> PriceLevel list" where
  "levels m visit = map (\<lambda>p. \<lparr>level_Price = p, level_Quantity = (case m p of None \<Rightarrow> 0 | Some q \<Rightarrow> q)\<rparr>) visit"

definition orderbookHandler :: "(nat \<Rightarrow> int64) \<Rightarrow> price list \<Rightarrow> price list \<Rightarrow> Orderbook \<Rightarrow> clock \<Rightarrow>
    SnapshotResponse \<times> clock" where
  "orderbookHandler u visit_bids visit_asks ob c =
     (let bidMap = level_map (objs ob) (bids ob);
          askMap = level_map (objs ob) (asks ob);
          bids = levels bidMap visit_bids;
          asks = levels askMap visit_asks;
          bids = sort_key (\<lambda>l. - level_Price l) bids;
          asks = sort_key level_Price asks;
          (ts, c) = now u c
      in (\<lparr>Bids = bids, Asks = asks, Timestamp = ts\<rparr>, c))"

section \<open>The quantity at a price\<close>

definition total_at :: "price \<Rightarrow> Order list \<Rightarrow> int" where
  "total_at p xs = sum_list (map Remaining (filter (\<lambda>x. Price x = p) xs))"

lemma i64_add: "i64 (i64 x + y) = i64 (x + y)"
proof -
  have "((x + 2 ^ 63) mod 2 ^ 64 + y) mod 2 ^ 64 = (x + 2 ^ 63 + y) mod 2 ^ 64" by (rule mod_add_left_eq)
  then show ?thesis by (simp add: i64_def algebra_simps)
qed

lemma total_at_snoc: "total_at p (xs @ [x]) = total_at p xs + (if Price x = p then Remaining x else 0)"
  by (simp add: total_at_def)

lemma total_at_absent: "p \<notin> Price ` set xs \<Longrightarrow> total_at p xs = 0"
  unfolding total_at_def by (subst filter_False) auto

lemma level_map_fold:
  "fold add_order xs Map.empty p = (if p \<in> Price ` set xs then Some (i64 (total_at p xs)) else None)"
proof (induction xs rule: rev_induct)
  case (snoc x xs)
  show ?case
  proof (cases "p = Price x")
    case True
    then show ?thesis
      using snoc total_at_absent[of p xs] by (auto simp: add_order_def i64_add total_at_snoc)
  next
    case False
    then show ?thesis using snoc by (auto simp: add_order_def total_at_snoc)
  qed
qed simp

lemma level_map_eq:
  "level_map m0 h p =
    (if p \<in> (\<lambda>a. Price (m0 a)) ` set h then Some (i64 (total_at p (map (\<lambda>a. view (m0 a)) h))) else None)"
proof -
  have "level_map m0 h = fold add_order (map m0 h) Map.empty"
    by (simp add: level_map_def fold_map comp_def)
  moreover have "total_at p (map m0 h) = total_at p (map (\<lambda>a. view (m0 a)) h)"
    by (induction h) (auto simp: total_at_def)
  ultimately show ?thesis by (simp add: level_map_fold image_image)
qed

lemma total_at_mset: "mset xs = mset ys \<Longrightarrow> total_at p xs = total_at p ys"
proof -
  assume "mset xs = mset ys"
  then have "mset (map Remaining (filter (\<lambda>x. Price x = p) xs)) = mset (map Remaining (filter (\<lambda>x. Price x = p) ys))"
    by simp
  then show ?thesis unfolding total_at_def sum_mset_sum_list[symmetric] by (rule arg_cong)
qed

section \<open>Sorted and merged levels\<close>

text \<open>The levels of a side listed best first: one per price, with everything that rests there.\<close>

definition spec_levels :: "Order list \<Rightarrow> PriceLevel list" where
  "spec_levels xs = map (\<lambda>p. \<lparr>level_Price = p, level_Quantity = total_at p xs\<rparr>) (remdups_adj (map Price xs))"

lemma sort_key_levels:
  fixes key :: "price \<Rightarrow> price"
  assumes "inj key" "distinct visit" "set visit = set ps" "sorted (map key ps)" "distinct ps"
  shows "sort_key (\<lambda>l. key (level_Price l)) (map (\<lambda>p. \<lparr>level_Price = p, level_Quantity = f p\<rparr>) visit) =
    map (\<lambda>p. \<lparr>level_Price = p, level_Quantity = f p\<rparr>) ps"
proof (rule sort_key_unique)
  have "mset ps = mset visit" using assms(2,3,5) by (simp add: set_eq_iff_mset_eq_distinct)
  then show "mset (map (\<lambda>p. \<lparr>level_Price = p, level_Quantity = f p\<rparr>) ps) =
      mset (map (\<lambda>p. \<lparr>level_Price = p, level_Quantity = f p\<rparr>) visit)" by simp
  show "sorted (map (\<lambda>l. key (level_Price l)) (map (\<lambda>p. \<lparr>level_Price = p, level_Quantity = f p\<rparr>) ps))"
    using assms(4) by (simp add: comp_def)
  show "distinct (map (\<lambda>l. key (level_Price l)) (map (\<lambda>p. \<lparr>level_Price = p, level_Quantity = f p\<rparr>) visit))"
    using assms(1,2) by (simp add: comp_def distinct_map inj_on_def)
qed

lemma sorted_distinct_adj: "sorted xs \<Longrightarrow> distinct_adj xs \<Longrightarrow> distinct (xs :: 'a::linorder list)"
proof (induction xs)
  case (Cons x xs)
  have "x \<notin> set xs"
  proof (cases xs)
    case (Cons y ys)
    have "x < y" using Cons.prems unfolding Cons by (simp add: order.strict_iff_order)
    moreover have "\<forall>z \<in> set xs. y \<le> z" using Cons.prems(1) unfolding Cons by simp
    ultimately show ?thesis by auto
  qed simp
  with Cons show ?case by (cases xs) auto
qed simp

lemma merged_prices:
  fixes key :: "price \<Rightarrow> price"
  assumes "inj key" "sorted (map key ps)"
  shows "sorted (map key (remdups_adj ps))" "distinct (remdups_adj ps)"
proof -
  have eq: "map key (remdups_adj ps) = remdups_adj (map key ps)"
    using assms(1) by (simp add: remdups_adj_map_injective)
  show "sorted (map key (remdups_adj ps))" unfolding eq using assms(2) by simp
  have "distinct (remdups_adj (map key ps))" using assms(2) by (intro sorted_distinct_adj) simp_all
  with eq show "distinct (remdups_adj ps)" by (metis distinct_map)
qed

text \<open>One side of the response, for any order in which the map is visited.\<close>

lemma side_levels:
  fixes key :: "price \<Rightarrow> price"
  assumes "inj key" "sorted (map key (map Price L))" "mset L = mset (map (\<lambda>a. view (m0 a)) h)"
    "range_order (level_map m0 h) visit" "\<And>p. int64_range (total_at p L)"
  shows "sort_key (\<lambda>l. key (level_Price l)) (levels (level_map m0 h) visit) = spec_levels L"
proof -
  have tot: "total_at p (map (\<lambda>a. view (m0 a)) h) = total_at p L" for p
    by (rule total_at_mset[OF assms(3)[symmetric]])
  have "set L = (\<lambda>a. view (m0 a)) ` set h" using mset_eq_setD[OF assms(3)] by simp
  then have prices: "Price ` set L = (\<lambda>a. Price (m0 a)) ` set h" by (simp add: image_image)
  have "dom (level_map m0 h) = (\<lambda>a. Price (m0 a)) ` set h"
    by (auto simp: level_map_eq dom_def split: if_splits)
  then have visit: "distinct visit" "set visit = set (remdups_adj (map Price L))"
    using assms(4) prices by (simp_all add: range_order_def)
  have "levels (level_map m0 h) visit =
      map (\<lambda>p. \<lparr>level_Price = p, level_Quantity = total_at p L\<rparr>) visit"
    unfolding levels_def
  proof (rule map_cong[OF refl])
    fix p assume "p \<in> set visit"
    then have "p \<in> (\<lambda>a. Price (m0 a)) ` set h" using visit(2) prices by auto
    then show "\<lparr>level_Price = p, level_Quantity = (case level_map m0 h p of None \<Rightarrow> 0 | Some q \<Rightarrow> q)\<rparr> =
        \<lparr>level_Price = p, level_Quantity = total_at p L\<rparr>"
      by (simp add: level_map_eq tot i64_id[OF assms(5)])
  qed
  then show ?thesis
    unfolding spec_levels_def
    using sort_key_levels[OF assms(1) visit merged_prices[OF assms(1,2)]] by simp
qed

lemma bid_prices_sorted: "sorted (map uminus (map Price (bid_list ob)))"
proof -
  have "sorted_wrt (\<lambda>x y. bid_rank x \<le> bid_rank y) (bid_list ob)"
    using bid_side.ranked_sorted by (simp add: bid_list_def sorted_map)
  then show ?thesis
    unfolding sorted_map sorted_wrt_map by (rule sorted_wrt_mono_rel[rotated]) (auto simp: bid_rank_def less_eq_prod_def)
qed

lemma ask_prices_sorted: "sorted (map id (map Price (ask_list ob)))"
proof -
  have "sorted_wrt (\<lambda>x y. ask_rank x \<le> ask_rank y) (ask_list ob)"
    using ask_side.ranked_sorted by (simp add: ask_list_def sorted_map)
  then show ?thesis
    unfolding sorted_map sorted_wrt_map by (rule sorted_wrt_mono_rel[rotated]) (auto simp: ask_rank_def less_eq_prod_def)
qed

lemma list_msets:
  "mset (bid_list ob) = mset (map (\<lambda>a. view (objs ob a)) (bids ob))"
  "mset (ask_list ob) = mset (map (\<lambda>a. view (objs ob a)) (asks ob))"
  by (simp_all add: bid_list_def ask_list_def bid_side.ranked_def ask_side.ranked_def
      bid_side.side_orders_views ask_side.side_orders_views)

text \<open>The whole response.\<close>

lemma orderbookHandler_levels:
  assumes "range_order (level_map (objs ob) (bids ob)) visit_bids"
    "range_order (level_map (objs ob) (asks ob)) visit_asks"
    "\<And>p. int64_range (total_at p (bid_list ob))" "\<And>p. int64_range (total_at p (ask_list ob))"
  shows "orderbookHandler u visit_bids visit_asks ob c =
    (\<lparr>Bids = spec_levels (bid_list ob), Asks = spec_levels (ask_list ob), Timestamp = fst (now u c)\<rparr>, snd (now u c))"
proof -
  have "sort_key (\<lambda>l. - level_Price l) (levels (level_map (objs ob) (bids ob)) visit_bids) = spec_levels (bid_list ob)"
    using side_levels[OF _ bid_prices_sorted list_msets(1) assms(1,3)] by (simp add: inj_def)
  moreover have "sort_key level_Price (levels (level_map (objs ob) (asks ob)) visit_asks) = spec_levels (ask_list ob)"
    using side_levels[OF _ ask_prices_sorted list_msets(2) assms(2,4)] by simp
  ultimately show ?thesis by (simp add: orderbookHandler_def Let_def split: prod.splits)
qed

lemma spec_levels_nth: "l \<in> set (spec_levels xs) \<longleftrightarrow>
    level_Price l \<in> Price ` set xs \<and> level_Quantity l = total_at (level_Price l) xs"
  by (cases l) (auto simp: spec_levels_def)

lemma sorted_key_strict:
  assumes "sorted (map key xs)" "distinct xs" "inj key"
  shows "sorted_wrt (\<lambda>x y. key x < (key y :: price)) xs"
proof -
  have "distinct (map key xs)" using assms(2,3) by (simp add: distinct_map inj_on_def inj_def)
  then have "sorted_wrt (<) (map key xs)" using assms(1) by (simp add: strict_sorted_iff)
  then show ?thesis by (simp add: sorted_wrt_map)
qed

lemma spec_levels_sorted:
  "sorted_wrt (>) (map level_Price (spec_levels (bid_list ob)))"
  "sorted_wrt (<) (map level_Price (spec_levels (ask_list ob)))"
proof -
  have p: "map level_Price (spec_levels xs) = remdups_adj (map Price xs)" for xs
    by (simp add: spec_levels_def comp_def)
  show "sorted_wrt (>) (map level_Price (spec_levels (bid_list ob)))" unfolding p
    using sorted_key_strict[OF merged_prices[OF _ bid_prices_sorted]] by (simp add: inj_def)
  show "sorted_wrt (<) (map level_Price (spec_levels (ask_list ob)))" unfolding p
    using sorted_key_strict[OF merged_prices[OF _ ask_prices_sorted]] by (simp add: inj_def)
qed

text \<open>The best bid is below the best ask, whenever both sides have a level.\<close>

lemma spread_positive:
  assumes "wf_book T ob" "b \<in> set (spec_levels (bid_list ob))" "a \<in> set (spec_levels (ask_list ob))"
  shows "level_Price b < level_Price a"
proof -
  have cross: "\<forall>b \<in> set (bids ob). \<forall>a \<in> set (asks ob). Price (objs ob b) < Price (objs ob a)"
    using assms(1) unfolding wf_book_def by (elim conjE)
  show ?thesis using assms(2,3) cross by (auto simp: spec_levels_nth list_sets)
qed

end
