(* ===== verification/CorrectnessStub.thy ===== *)
theory CorrectnessStub
  imports CorrectnessBot StubServer StubSnapshot "HOL-Library.List_Lexorder" "HOL-Library.Char_ord"
begin

text \<open>
  The correctness bot against the reference matching engine. A locale says when two engines look
  the same to the bot; the reference engine is such a pair with \<open>spec_target\<close>, an engine that
  keeps two sorted lists and no clock, and on that one the bot's run is a computation.
\<close>

section \<open>Two engines the bot cannot tell apart\<close>

definition untimed :: "BotMessage \<Rightarrow> BotMessage" where
  "untimed m = m\<lparr>r_Timestamp := 0\<rparr>"

fun same_result :: "read_result \<Rightarrow> read_result \<Rightarrow> bool" where
  "same_result (Received m) (Received m') = (untimed m = untimed m')"
| "same_result r r' = (r = r')"

text \<open>\<open>Off\<close> relates the engines' states without a connection of the bot, \<open>On\<close> with one.\<close>

locale target_pair =
  fixes t :: "'a target" and t' :: "'b target" and Off :: "'a \<Rightarrow> 'b \<Rightarrow> bool" and On :: "'a \<Rightarrow> 'b \<Rightarrow> bool"
  assumes dials: "Off a b \<Longrightarrow> \<exists>a' b'. dial t a = Inr a' \<and> dial t' b = Inr b' \<and> On a' b'"
    and transmits: "On a b \<Longrightarrow> int64_range (in_Quantity msg) \<Longrightarrow>
      \<exists>a' b'. transmit t msg a = Inr a' \<and> transmit t' msg b = Inr b' \<and> On a' b'"
    and receives: "On a b \<Longrightarrow> receive_one t a = (r, a') \<Longrightarrow> receive_one t' b = (r', b') \<Longrightarrow>
      same_result r r' \<and> On a' b'"
    and hangs_up: "On a b \<Longrightarrow> Off (hang_up t a) (hang_up t' b)"
    and orderbooks: "On a b \<Longrightarrow> get_orderbook t a = (q, a') \<Longrightarrow> get_orderbook t' b = (q', b') \<Longrightarrow>
      q = q' \<and> On a' b'"
begin

lemma note_untimed: "untimed m = untimed m' \<Longrightarrow> note_message m g = note_message m' g"
  by (cases m; cases m') (simp add: untimed_def note_message_def)

lemma read_replies_same:
  "On a b \<Longrightarrow> read_replies n t step g a = (o1, a') \<Longrightarrow> read_replies n t' step g b = (o2, b') \<Longrightarrow>
    o1 = o2 \<and> On a' b'"
proof (induction n arbitrary: g a b)
  case (Suc n)
  obtain r a1 where r: "receive_one t a = (r, a1)" by (cases "receive_one t a")
  obtain r' b1 where r': "receive_one t' b = (r', b1)" by (cases "receive_one t' b")
  have on: "same_result r r'" "On a1 b1" using receives[OF Suc.prems(1) r r'] by auto
  show ?case
  proof (cases r)
    case (ReadFailed c)
    with on Suc.prems r r' show ?thesis by (cases c) auto
  next
    case Garbled
    with on Suc.prems r r' Suc.IH[OF on(2)] show ?thesis by simp
  next
    case (Received m)
    then obtain m' where m': "r' = Received m'" "untimed m = untimed m'" using on(1) by (cases r') auto
    show ?thesis
      using Suc.prems r r' on(2) Received m'(1) Suc.IH[OF on(2)] note_untimed[OF m'(2), of g]
      by (auto simp: Let_def split: if_splits)
  qed
qed simp

lemma assert_book_same:
  assumes "On a b" "assert_book i step t a = (v, a')" "assert_book i step t' b = (v', b')"
  shows "v = v' \<and> On a' b'"
proof -
  obtain r a1 where r: "get_orderbook t a = (r, a1)" by (cases "get_orderbook t a")
  obtain r' b1 where r': "get_orderbook t' b = (r', b1)" by (cases "get_orderbook t' b")
  show ?thesis
    using assms r r' orderbooks[OF assms(1) r r']
    by (auto simp: assert_book_def split: sum.splits prod.splits if_splits)
qed

lemma run_steps_same:
  "On a b \<Longrightarrow> list_all (\<lambda>s. int64_range (step_Quantity s)) steps \<Longrightarrow>
    run_steps reads t i tags steps a = (v, a') \<Longrightarrow> run_steps reads t' i tags steps b = (v', b') \<Longrightarrow>
    v = v' \<and> On a' b'"
proof (induction steps arbitrary: i tags a b v a' v' b')
  case (Cons step steps)
  have step: "v = v' \<and> On a' b'"
    if payload: "int64_range (in_Quantity payload)" and runs:
      "(case transmit t payload a of Inl err \<Rightarrow> (fail (WriteFailed i err), a)
        | Inr s \<Rightarrow> (case read_replies (reads i) t step got0 s of (None, s) \<Rightarrow> (fail (ContextCancelled i), s)
           | (Some g, s) \<Rightarrow> let (book, s) = assert_book i step t s;
                (later, s) = run_steps reads t (Suc i) tags' steps s
              in (vplus (vplus (assert_replies i step g) book) later, s))) = (v, a')"
      "(case transmit t' payload b of Inl err \<Rightarrow> (fail (WriteFailed i err), b)
        | Inr s \<Rightarrow> (case read_replies (reads i) t' step got0 s of (None, s) \<Rightarrow> (fail (ContextCancelled i), s)
           | (Some g, s) \<Rightarrow> let (book, s) = assert_book i step t' s;
                (later, s) = run_steps reads t' (Suc i) tags' steps s
              in (vplus (vplus (assert_replies i step g) book) later, s))) = (v', b')"
    for payload tags'
  proof -
    obtain a1 b1 where 1: "transmit t payload a = Inr a1" "transmit t' payload b = Inr b1" "On a1 b1"
      using transmits[OF Cons.prems(1) payload] by blast
    obtain og a2 where ra: "read_replies (reads i) t step got0 a1 = (og, a2)" by fastforce
    obtain og' b2 where rb: "read_replies (reads i) t' step got0 b1 = (og', b2)" by fastforce
    have 2: "og' = og" "On a2 b2" using read_replies_same[OF 1(3) ra rb] by auto
    obtain w a3 where wa: "assert_book i step t a2 = (w, a3)" by fastforce
    obtain w' b3 where wb: "assert_book i step t' b2 = (w', b3)" by fastforce
    have 3: "w' = w" "On a3 b3" using assert_book_same[OF 2(2) wa wb] by auto
    obtain l a4 where la: "run_steps reads t (Suc i) tags' steps a3 = (l, a4)" by fastforce
    obtain l' b4 where lb: "run_steps reads t' (Suc i) tags' steps b3 = (l', b4)" by fastforce
    have 4: "l' = l" "On a4 b4" using Cons.IH[OF 3(2) _ la lb] Cons.prems(2) by auto
    show ?thesis
      using runs 1 ra rb 2 wa wb 3 la lb 4 by (auto split: option.splits)
  qed
  show ?case
  proof (cases "Kind step = StepCancel")
    case True
    show ?thesis
    proof (cases "tags (CancelTag step)")
      case None
      obtain l a4 where la: "run_steps reads t (Suc i) tags steps a = (l, a4)" by fastforce
      obtain l' b4 where lb: "run_steps reads t' (Suc i) tags steps b = (l', b4)" by fastforce
      from Cons.IH[OF Cons.prems(1) _ la lb] Cons.prems(2-4) True None la lb show ?thesis by auto
    next
      case (Some k)
      show ?thesis
        using Cons.prems(3,4) True Some step[of "cancel_payload k" tags]
        by (simp add: Let_def cancel_payload_def int64_range_def)
    qed
  next
    case False
    let ?oid = "''cx-s'' @ show_int (int i) @ ''-'' @ Tag step"
    show ?thesis
    proof (rule step[of "order_payload ?oid step" "tags(Tag step \<mapsto> ?oid)"])
      show "int64_range (in_Quantity (order_payload ?oid step))"
        using Cons.prems(2) by (simp add: order_payload_def)
    qed (use Cons.prems(3,4) False in \<open>simp_all only: run_steps.simps Let_def if_False\<close>)
  qed
qed simp

lemma runSequence_same:
  assumes "Off a b" "list_all (\<lambda>s. int64_range (step_Quantity s)) (Steps seq)"
  shows "fst (runSequence reads t seq a) = fst (runSequence reads t' seq b) \<and>
    Off (snd (runSequence reads t seq a)) (snd (runSequence reads t' seq b))"
proof -
  obtain a1 b1 where 1: "dial t a = Inr a1" "dial t' b = Inr b1" "On a1 b1" using dials[OF assms(1)] by blast
  obtain v a2 where ra: "run_steps reads t 0 Map.empty (Steps seq) a1 = (v, a2)" by fastforce
  obtain v' b2 where rb: "run_steps reads t' 0 Map.empty (Steps seq) b1 = (v', b2)" by fastforce
  from run_steps_same[OF 1(3) assms(2) ra rb] have "v = v'" "On a2 b2" by auto
  with 1 ra rb hangs_up show ?thesis by (simp add: runSequence_def)
qed

lemma run_all_same:
  "Off a b \<Longrightarrow> list_all (\<lambda>seq. list_all (\<lambda>s. int64_range (step_Quantity s)) (Steps seq)) seqs \<Longrightarrow>
    fst (run_all reads t seqs a) = fst (run_all reads t' seqs b)"
proof (induction seqs arbitrary: a b)
  case (Cons seq seqs)
  obtain v a1 where ra: "runSequence (reads (Name seq)) t seq a = (v, a1)" by fastforce
  obtain v' b1 where rb: "runSequence (reads (Name seq)) t' seq b = (v', b1)" by fastforce
  have 1: "v = v'" "Off a1 b1"
    using runSequence_same[OF Cons.prems(1), of seq "reads (Name seq)"] Cons.prems(2) ra rb by auto
  have "fst (run_all reads t seqs a1) = fst (run_all reads t' seqs b1)"
    using Cons.IH[OF 1(2)] Cons.prems(2) by simp
  then show ?case
    using ra rb 1(1) by (cases "run_all reads t seqs a1"; cases "run_all reads t' seqs b1")
      (auto simp: Let_def split: prod.splits)
qed simp

lemma Run_same: "Off a b \<Longrightarrow> fst (Run reads t a) = fst (Run reads t' b)"
proof -
  assume off: "Off a b"
  have "list_all (\<lambda>seq. list_all (\<lambda>s. int64_range (step_Quantity s)) (Steps seq)) CorrectnessSequences"
    by code_simp
  from run_all_same[OF off this, of reads] show ?thesis
    by (cases "run_all reads t CorrectnessSequences a"; cases "run_all reads t' CorrectnessSequences b")
      (auto simp: Run_def Let_def split: prod.splits)
qed

end

section \<open>The reference engine as a target\<close>

definition blank :: BotMessage where
  "blank = \<lparr>r_Type = [], r_OrderID = [], r_Reason = [], r_FilledQty = 0, r_FillPrice = 0,
            r_Remaining = 0, r_Timestamp = 0\<rparr>"

text \<open>The JSON of a message of the engine, read with the field names of the bot.\<close>

fun decode :: "OutMessage \<Rightarrow> BotMessage" where
  "decode (AckMessage k ts) = blank\<lparr>r_Type := ''ack'', r_OrderID := k, r_Timestamp := ts\<rparr>"
| "decode (FillMessage k q p r ts) = blank\<lparr>r_Type := ''fill'', r_OrderID := k, r_FilledQty := q,
     r_FillPrice := p, r_Remaining := r, r_Timestamp := ts\<rparr>"
| "decode (CancelAckMessage k ts) = blank\<lparr>r_Type := ''cancel_ack'', r_OrderID := k, r_Timestamp := ts\<rparr>"
| "decode (RejectMessage k reason ts) = blank\<lparr>r_Type := ''reject'', r_OrderID := k, r_Reason := reason,
     r_Timestamp := ts\<rparr>"

record stub_world =
  w_engine :: engine
  w_session :: string
  w_inbox :: "BotMessage list"

text \<open>The order in which Go visits a map: the given one if it is a visit of the map at all.\<close>

definition go_range :: "(('k::linorder \<rightharpoonup> 'v) \<Rightarrow> 'k list) \<Rightarrow> ('k \<rightharpoonup> 'v) \<Rightarrow> 'k list" where
  "go_range vis m = (if range_order m (vis m) then vis m else sorted_list_of_set (dom m))"

lemma go_range_ok: "finite (dom m) \<Longrightarrow> range_order m (go_range vis m)"
  by (simp add: go_range_def range_order_def)

text \<open>
  The bot is alone with the engine, and the engine answers at once; an empty inbox is a read
  that runs into the deadline. \<open>vis\<close> and \<open>visp\<close> choose the orders in which maps are visited.
\<close>

definition stub_target :: "(nat \<Rightarrow> int64) \<Rightarrow> ((string \<rightharpoonup> addr) \<Rightarrow> string list) \<Rightarrow>
    ((price \<rightharpoonup> int64) \<Rightarrow> price list) \<Rightarrow> stub_world target" where
  "stub_target u vis visp = \<lparr>
     dial = (\<lambda>w. let (ts, c) = now u (clk (w_engine w))
       in Inr \<lparr>w_engine = (w_engine w)\<lparr>clk := c\<rparr>, w_session = session_id ''bot'' ts, w_inbox = []\<rparr>),
     transmit = (\<lambda>msg w.
       let (eng, outs) = deliver u (on_message u (w_session w) msg (w_engine w))
       in Inr (w\<lparr>w_engine := eng, w_inbox := w_inbox w @ map decode outs\<rparr>)),
     receive_one = (\<lambda>w. case w_inbox w of [] \<Rightarrow> (ReadFailed False, w)
       | m # ms \<Rightarrow> (Received m, w\<lparr>w_inbox := ms\<rparr>)),
     hang_up = (\<lambda>w. let ob = book (w_engine w)
       in w\<lparr>w_engine := (w_engine w)\<lparr>book := cancelSession (go_range vis (orders ob)) (w_session w) ob\<rparr>\<rparr>),
     get_orderbook = (\<lambda>w.
       let ob = book (w_engine w);
           (snap, c) = orderbookHandler u (go_range visp (level_map (objs ob) (bids ob)))
             (go_range visp (level_map (objs ob) (asks ob))) ob (clk (w_engine w))
       in (Inr (length (Bids snap), length (Asks snap)), w\<lparr>w_engine := (w_engine w)\<lparr>clk := c\<rparr>\<rparr>))\<rparr>"

section \<open>The contract as a target\<close>

record spec_world =
  s_bids :: "Order list"
  s_asks :: "Order list"
  s_inbox :: "BotMessage list"

definition erase :: "Order \<Rightarrow> Order" where
  "erase x = x\<lparr>EnteredAt := 0, SessionID := [], index := 0\<rparr>"

text \<open>A new order goes behind the orders of its price.\<close>

fun place :: "Order \<Rightarrow> Order list \<Rightarrow> Order list" where
  "place x [] = [x]"
| "place x (y # ys) =
     (if (if Side x = ''buy'' then Price x > Price y else Price x < Price y) then x # y # ys
      else y # place x ys)"

definition spec_book :: "bool \<Rightarrow> Order list \<Rightarrow> Order list \<Rightarrow> spec_world \<Rightarrow> spec_world" where
  "spec_book buy own opp w = (if buy then w\<lparr>s_bids := own, s_asks := opp\<rparr> else w\<lparr>s_asks := own, s_bids := opp\<rparr>)"

definition reject_of :: "string \<Rightarrow> string \<Rightarrow> BotMessage" where
  "reject_of k reason = blank\<lparr>r_Type := ''reject'', r_OrderID := k, r_Reason := reason\<rparr>"

definition fill_msg :: "string \<Rightarrow> fill \<Rightarrow> BotMessage" where
  "fill_msg k f = (let (q, p, r) = f
     in blank\<lparr>r_Type := ''fill'', r_OrderID := k, r_FilledQty := q, r_FillPrice := p, r_Remaining := r\<rparr>)"

definition order_error_ids :: "string set \<Rightarrow> IncomingMessage \<Rightarrow> string option" where
  "order_error_ids ids msg =
     (if \<not> (orderIDRegex (in_OrderID msg) \<and> length (in_OrderID msg) \<le> 64 \<and>
           in_Side msg \<in> {''buy'', ''sell''} \<and> in_OrderType msg \<in> {''limit'', ''market''})
      then Some ''invalid_order''
      else if in_Quantity msg \<le> 0 then Some ''invalid_quantity''
      else if in_OrderType msg = ''limit'' \<and> in_Price msg \<le> 0 then Some ''invalid_price''
      else if in_OrderID msg \<in> ids then Some ''duplicate_order_id''
      else None)"

definition spec_ids :: "spec_world \<Rightarrow> string set" where
  "spec_ids w = OrderID ` set (s_bids w @ s_asks w)"

definition spec_order :: "IncomingMessage \<Rightarrow> spec_world \<Rightarrow> spec_world" where
  "spec_order msg w =
     (let k = in_OrderID msg; say = (\<lambda>ms w. w\<lparr>s_inbox := s_inbox w @ ms\<rparr>) in
      case order_error_ids (spec_ids w) msg of
        Some reason \<Rightarrow> say [reject_of k reason] w
      | None \<Rightarrow>
          let order = erase (new_order [] msg 0); buy = (in_Side msg = ''buy'');
              own = (if buy then s_bids w else s_asks w);
              (order', opp, fs) = spec_match order (if buy then s_asks w else s_bids w);
              own = (if OrderType order' = ''limit'' \<and> 0 < Remaining order' then place order' own else own);
              nolq = (if OrderType order' = ''market'' \<and> 0 < Remaining order' then [reject_of k ''no_liquidity''] else [])
          in say (blank\<lparr>r_Type := ''ack'', r_OrderID := k\<rparr> # map (fill_msg k) fs @ nolq) (spec_book buy own opp w))"

definition spec_cancel :: "IncomingMessage \<Rightarrow> spec_world \<Rightarrow> spec_world" where
  "spec_cancel msg w =
     (let k = in_OrderID msg in
      if k \<in> spec_ids w
      then w\<lparr>s_bids := filter (\<lambda>x. OrderID x \<noteq> k) (s_bids w), s_asks := filter (\<lambda>x. OrderID x \<noteq> k) (s_asks w),
             s_inbox := s_inbox w @ [blank\<lparr>r_Type := ''cancel_ack'', r_OrderID := k\<rparr>]\<rparr>
      else w\<lparr>s_inbox := s_inbox w @ [reject_of k ''unknown_order'']\<rparr>)"

definition spec_target :: "spec_world target" where
  "spec_target = \<lparr>
     dial = (\<lambda>w. Inr (w\<lparr>s_inbox := []\<rparr>)),
     transmit = (\<lambda>msg w. Inr
       (if in_Type msg = ''order'' then spec_order msg w
        else if in_Type msg = ''cancel'' then spec_cancel msg w
        else w\<lparr>s_inbox := s_inbox w @ [reject_of (in_OrderID msg) ''unknown_type'']\<rparr>)),
     receive_one = (\<lambda>w. case s_inbox w of [] \<Rightarrow> (ReadFailed False, w)
       | m # ms \<Rightarrow> (Received m, w\<lparr>s_inbox := ms\<rparr>)),
     hang_up = (\<lambda>w. w\<lparr>s_bids := [], s_asks := []\<rparr>),
     get_orderbook = (\<lambda>w. (Inr (length (remdups (map Price (s_bids w))), length (remdups (map Price (s_asks w)))), w))\<rparr>"

definition spec_start :: spec_world where
  "spec_start = \<lparr>s_bids = [], s_asks = [], s_inbox = []\<rparr>"

section \<open>The reference engine keeps the contract\<close>

lemma erase_sel [simp]:
  "OrderID (erase x) = OrderID x" "Side (erase x) = Side x" "OrderType (erase x) = OrderType x"
  "Price (erase x) = Price x" "Quantity (erase x) = Quantity x" "Remaining (erase x) = Remaining x"
  "erase (view x) = erase x" "erase (x\<lparr>Remaining := r\<rparr>) = (erase x)\<lparr>Remaining := r\<rparr>"
  by (simp_all add: erase_def view_def)

lemma erase_new: "erase (new_order sid msg ts) = erase (new_order [] msg 0)"
  by (simp add: erase_def new_order_def)

lemma erase_match:
  "spec_match order L = (order', L', fs) \<Longrightarrow> spec_match (erase order) (map erase L) = (erase order', map erase L', fs)"
proof (induction order L arbitrary: order' L' fs rule: spec_match.induct)
  case (2 order best others)
  have w: "worse (erase order) (erase best) = worse order best" by (simp add: worse_def)
  show ?case
    using "2.prems" "2.IH" by (auto simp: w split: if_splits prod.splits)
qed simp

lemma erase_insort:
  "\<forall>y \<in> set own. EnteredAt y < EnteredAt x \<Longrightarrow>
    map erase (insort_key (own_rank x) x own) = place (erase x) (map erase own)"
  by (induction own) (auto simp: own_rank_def bid_rank_def ask_rank_def less_eq_prod_def)

lemma place_view: "place (erase (view x)) ys = place (erase x) ys"
  by simp

lemma erase_rested:
  assumes "\<forall>y \<in> set own. EnteredAt y < EnteredAt x" 
  shows "map erase (rested x own) =
    (if OrderType x = ''limit'' \<and> 0 < Remaining x then place (erase x) (map erase own) else map erase own)"
proof -
  have "own_rank x = own_rank (view x)" by (simp add: own_rank_def)
  moreover have "map erase (insort_key (own_rank (view x)) (view x) own) = place (erase (view x)) (map erase own)"
    using assms by (intro erase_insort) simp
  ultimately show ?thesis by (simp add: rested_def)
qed

lemma decode_fills:
  "list_all (is_fill_for k) fills \<Longrightarrow> map (\<lambda>m. untimed (decode m)) fills = map (fill_msg k) (map fill_of fills)"
  by (induction fills) (auto simp: is_fill_for_def fill_msg_def fill_of_def untimed_def blank_def)

lemma dom_orders: "wf_book T ob \<Longrightarrow> dom (orders ob) = OrderID ` set (bid_list ob @ ask_list ob)"
proof -
  assume wf: "wf_book T ob"
  have "k \<in> dom (orders ob) \<longleftrightarrow> k \<in> (\<lambda>a. OrderID (objs ob a)) ` resting ob" for k
    using wf_orders[OF wf, of k] by (auto simp: dom_def image_iff)
  then have "dom (orders ob) = (\<lambda>a. OrderID (objs ob a)) ` resting ob" by blast
  then show ?thesis by (simp add: list_sets resting_def image_Un image_image)
qed

definition bot_alone :: "stub_world \<Rightarrow> spec_world \<Rightarrow> bool" where
  "bot_alone w s \<longleftrightarrow> wf_book (lastTimestamp (clk (w_engine w))) (book (w_engine w)) \<and>
     map erase (bid_list (book (w_engine w))) = s_bids s \<and> map erase (ask_list (book (w_engine w))) = s_asks s \<and>
     owners (book (w_engine w)) \<subseteq> {w_session w} \<and> map untimed (w_inbox w) = s_inbox s"

definition nobody_there :: "stub_world \<Rightarrow> spec_world \<Rightarrow> bool" where
  "nobody_there w s \<longleftrightarrow> wf_book (lastTimestamp (clk (w_engine w))) (book (w_engine w)) \<and>
     bid_list (book (w_engine w)) = [] \<and> ask_list (book (w_engine w)) = [] \<and> s_bids s = [] \<and> s_asks s = []"

lemma bot_aloneD:
  assumes "bot_alone w s"
  shows "wf_book (lastTimestamp (clk (w_engine w))) (book (w_engine w))"
    "s_bids s = map erase (bid_list (book (w_engine w)))" "s_asks s = map erase (ask_list (book (w_engine w)))"
    "owners (book (w_engine w)) \<subseteq> {w_session w}" "s_inbox s = map untimed (w_inbox w)"
  using assms by (simp_all add: bot_alone_def)

lemma spec_ids_stub:
  assumes "bot_alone w s"
  shows "spec_ids s = dom (orders (book (w_engine w)))"
  by (simp add: spec_ids_def bot_aloneD(2,3)[OF assms] dom_orders[OF bot_aloneD(1)[OF assms]] image_Un image_image)

lemma order_error_stub:
  "bot_alone w s \<Longrightarrow> order_error_ids (spec_ids s) msg = order_error (book (w_engine w)) msg"
  by (simp add: order_error_ids_def order_error_def spec_ids_stub)

text \<open>A late reply changes the clock only.\<close>

lemma stamp_alone:
  assumes "bot_alone w s" "\<And>ts. untimed (decode (m ts)) = m'"
  shows "\<exists>eng outs. deliver u (w_engine w, Stamp m) = (eng, outs) \<and>
    bot_alone (w\<lparr>w_engine := eng, w_inbox := w_inbox w @ map decode outs\<rparr>) (s\<lparr>s_inbox := s_inbox s @ [m']\<rparr>)"
proof -
  obtain ts c where now: "now u (clk (w_engine w)) = (ts, c)" by (cases "now u (clk (w_engine w))")
  have "lastTimestamp (clk (w_engine w)) \<le> lastTimestamp c" using now_later[OF now] by simp
  then show ?thesis
    using assms now bot_aloneD[OF assms(1)] by (auto simp: deliver_def bot_alone_def intro: wf_book_later)
qed

lemma reject_decodes: "untimed (decode (RejectMessage k reason ts)) = reject_of k reason"
  by (simp add: untimed_def reject_of_def blank_def)

lemma cancel_ack_decodes:
  "untimed (decode (CancelAckMessage k ts)) = blank\<lparr>r_Type := ''cancel_ack'', r_OrderID := k\<rparr>"
  by (simp add: untimed_def blank_def)

text \<open>An order.\<close>

lemma spec_same: "s\<lparr>s_bids := s_bids s\<rparr> = s" "s\<lparr>s_asks := s_asks s\<rparr> = s"
  "s\<lparr>s_bids := s_bids s, s_asks := a, s_inbox := i\<rparr> = s\<lparr>s_asks := a, s_inbox := i\<rparr>"
  "s\<lparr>s_asks := s_asks s, s_bids := a, s_inbox := i\<rparr> = s\<lparr>s_bids := a, s_inbox := i\<rparr>" for s :: spec_world
  by (cases s; simp)+

lemma order_alone:
  assumes alone: "bot_alone w s" and q: "int64_range (in_Quantity msg)"
  shows "\<exists>eng outs. deliver u (handleOrder u (w_session w) msg (w_engine w)) = (eng, outs) \<and>
    bot_alone (w\<lparr>w_engine := eng, w_inbox := w_inbox w @ map decode outs\<rparr>) (spec_order msg s)"
proof (cases "order_error (book (w_engine w)) msg")
  case (Some reason)
  then have "spec_order msg s = s\<lparr>s_inbox := s_inbox s @ [reject_of (in_OrderID msg) reason]\<rparr>"
    by (simp add: spec_order_def order_error_stub[OF alone])
  then show ?thesis
    using stamp_alone[OF alone reject_decodes, of u "in_OrderID msg" reason] handleOrder_rejects[OF Some]
    by simp
next
  case None
  let ?ob = "book (w_engine w)" and ?sid = "w_session w"
  obtain ts c where now: "now u (clk (w_engine w)) = (ts, c)" by (cases "now u (clk (w_engine w))")
  let ?o = "new_order ?sid msg ts"
  obtain order' opp' fs where spec: "spec_match ?o (opposite_list ?o ?ob) = (order', opp', fs)"
    by (cases "spec_match ?o (opposite_list ?o ?ob)")
  obtain eng out where run: "handleOrder u ?sid msg (w_engine w) = (eng, out)"
    by (cases "handleOrder u ?sid msg (w_engine w)")
  have qty: "in_Quantity msg < 2 ^ 63" "0 < in_Quantity msg"
    using q None unfolding order_error_None int64_range_def by auto
  note wf = bot_aloneD(1)[OF alone]
  note acc = handleOrder_accepts[OF wf None qty(1) now run spec]
  obtain fills where f: "out = Ready (accept_reply (in_OrderID msg) ts fills order' (lastTimestamp (clk eng)))"
    "map fill_of fills = fs" "list_all (is_fill_for (in_OrderID msg)) fills" using acc by blast
  have own: "owners (book eng) \<subseteq> {?sid}"
    using handleOrder_ok[OF wf q run] bot_aloneD(4)[OF alone] by auto
  have keep: "order' = ?o\<lparr>Remaining := Remaining order'\<rparr>"
    using spec_match_keeps[OF spec] resting_old[OF wf] qty by (auto simp: order_ok_def)
  have sel: "Side order' = in_Side msg" "EnteredAt order' = ts" by (subst keep, simp)+
  have seen: "\<forall>y \<in> set (own_list ?o ?ob). EnteredAt y < EnteredAt order'"
    using resting_old[OF wf, of _ ?o] now_later[OF now] sel by (force simp: order_ok_def)
  have sides: "(if in_Side msg = ''buy'' then s_bids s else s_asks s) = map erase (own_list ?o ?ob)"
    "(if in_Side msg = ''buy'' then s_asks s else s_bids s) = map erase (opposite_list ?o ?ob)"
    using bot_aloneD(2,3)[OF alone] by (simp_all add: own_list_def opposite_list_def)
  have smatch: "spec_match (erase (new_order [] msg 0)) (map erase (opposite_list ?o ?ob)) =
      (erase order', map erase opp', fs)"
    using erase_match[OF spec] by (simp add: erase_new[of ?sid msg ts])
  have lists: "map erase (own_list ?o (book eng)) =
      (if OrderType order' = ''limit'' \<and> 0 < Remaining order'
       then place (erase order') (map erase (own_list ?o ?ob)) else map erase (own_list ?o ?ob))"
    "map erase (opposite_list ?o (book eng)) = map erase opp'"
    using acc erase_rested[OF seen] by simp_all
  have inbox: "map untimed (map decode (pending out)) = blank\<lparr>r_Type := ''ack'', r_OrderID := in_OrderID msg\<rparr> #
      map (fill_msg (in_OrderID msg)) fs @
      (if OrderType order' = ''market'' \<and> 0 < Remaining order' then [reject_of (in_OrderID msg) ''no_liquidity''] else [])"
    using decode_fills[OF f(3)] f(2)
    by (auto simp: f(1) pending_def accept_reply_def comp_def reject_of_def untimed_def blank_def)
  have "spec_order msg s = (spec_book (in_Side msg = ''buy'') (map erase (own_list ?o (book eng)))
      (map erase (opposite_list ?o (book eng))) s)\<lparr>s_inbox := s_inbox s @ map untimed (map decode (pending out))\<rparr>"
    unfolding spec_order_def order_error_stub[OF alone] None inbox lists
    using smatch[folded sides(2)]
    by (cases "in_Side msg = ''buy''") (simp_all add: Let_def spec_book_def spec_same flip: sides)
  moreover have "deliver u (handleOrder u ?sid msg (w_engine w)) = (eng, pending out)"
    by (simp add: run deliver_def f(1) pending_def)
  moreover have "wf_book (lastTimestamp (clk eng)) (book eng)" using acc by blast
  ultimately show ?thesis
    using own bot_aloneD(5)[OF alone]
    by (auto simp: bot_alone_def spec_book_def own_list_def opposite_list_def)
qed

text \<open>A cancel: all orders on the book are the bot's.\<close>

lemma cancel_alone:
  assumes alone: "bot_alone w s"
  shows "\<exists>eng outs. deliver u (handleCancel (w_session w) msg (w_engine w)) = (eng, outs) \<and>
    bot_alone (w\<lparr>w_engine := eng, w_inbox := w_inbox w @ map decode outs\<rparr>) (spec_cancel msg s)"
proof (cases "orders (book (w_engine w)) (in_OrderID msg)")
  case None
  then have "in_OrderID msg \<notin> spec_ids s" by (simp add: spec_ids_stub[OF alone] domIff)
  with None stamp_alone[OF alone reject_decodes, of u "in_OrderID msg" "''unknown_order''"] show ?thesis
    by (simp add: handleCancel_def spec_cancel_def)
next
  case (Some a)
  let ?ob = "book (w_engine w)" and ?k = "in_OrderID msg"
  note wf = bot_aloneD(1)[OF alone]
  have "a \<in> resting ?ob" using wf_orders[OF wf] Some by simp
  then have mine: "SessionID (objs ?ob a) = w_session w"
    using bot_aloneD(4)[OF alone] unfolding owners_resting by blast
  have k: "?k \<in> spec_ids s" using Some by (simp add: spec_ids_stub[OF alone] domIff)
  let ?w = "w\<lparr>w_engine := (w_engine w)\<lparr>book := remove ?k ?ob\<rparr>\<rparr>"
  let ?s = "s\<lparr>s_bids := filter (\<lambda>x. OrderID x \<noteq> ?k) (s_bids s), s_asks := filter (\<lambda>x. OrderID x \<noteq> ?k) (s_asks s)\<rparr>"
  have rm: "wf_book (lastTimestamp (clk (w_engine w))) (remove ?k ?ob)"
    "without (\<lambda>x. OrderID x = ?k) ?ob (remove ?k ?ob)" using remove_wf[OF wf, of ?k] by auto
  have "bot_alone ?w ?s"
    using rm owners_without[OF rm(2)] bot_aloneD[OF alone]
    by (auto simp: bot_alone_def without_def filter_map comp_def)
  from stamp_alone[OF this cancel_ack_decodes, of u ?k] show ?thesis
    using Some mine k by (simp add: handleCancel_def spec_cancel_def Let_def)
qed

lemma transmit_alone:
  assumes "bot_alone w s" "int64_range (in_Quantity msg)"
  shows "\<exists>w' s'. transmit (stub_target u vis visp) msg w = Inr w' \<and> transmit spec_target msg s = Inr s' \<and>
    bot_alone w' s'"
proof -
  consider (order) "in_Type msg = ''order''" | (cancel) "in_Type msg \<noteq> ''order''" "in_Type msg = ''cancel''"
    | (other) "in_Type msg \<noteq> ''order''" "in_Type msg \<noteq> ''cancel''" by blast
  then show ?thesis
  proof cases
    case order
    with order_alone[OF assms, of u] show ?thesis
      by (auto simp: stub_target_def spec_target_def on_message_def)
  next
    case cancel
    with cancel_alone[OF assms(1), of u msg] show ?thesis
      by (auto simp: stub_target_def spec_target_def on_message_def)
  next
    case other
    with stamp_alone[OF assms(1), of "RejectMessage (in_OrderID msg) ''unknown_type''", OF reject_decodes, of u]
    show ?thesis
      by (auto simp: stub_target_def spec_target_def on_message_def)
  qed
qed

lemma level_count:
  assumes "mset L = mset (map (\<lambda>a. view (m a)) h)"
  shows "length (sort_key f (levels (level_map m h) (go_range visp (level_map m h)))) = card (Price ` set L)"
proof -
  have "set L = (\<lambda>a. view (m a)) ` set h" using mset_eq_setD[OF assms] by simp
  then have "dom (level_map m h) = Price ` set L"
    by (auto simp: level_map_eq dom_def image_image split: if_splits)
  then have "range_order (level_map m h) (go_range visp (level_map m h))" "dom (level_map m h) = Price ` set L"
    by (auto intro: go_range_ok)
  then show ?thesis by (simp add: levels_def range_order_def distinct_card[symmetric])
qed

interpretation stub_bot: target_pair "stub_target u vis visp" spec_target nobody_there bot_alone for u vis visp
proof (unfold_locales, goal_cases)
  case (1 a b)
  obtain ts c where now: "now u (clk (w_engine a)) = (ts, c)" by (cases "now u (clk (w_engine a))")
  have "lastTimestamp (clk (w_engine a)) \<le> lastTimestamp c" using now_later[OF now] by simp
  with 1 now show ?case
    by (auto simp: stub_target_def spec_target_def nobody_there_def bot_alone_def owners_def intro: wf_book_later)
next
  case (2 a b msg)
  then show ?case by (rule transmit_alone)
next
  case (3 a b r a' r' b')
  then show ?case
    by (auto simp: stub_target_def spec_target_def bot_alone_def untimed_def split: list.splits)
next
  case (4 a b)
  let ?ob = "book (w_engine a)"
  note wf = bot_aloneD(1)[OF 4]
  have "finite (dom (orders ?ob))" unfolding dom_orders[OF wf] by simp
  from cancelSession_wf[OF wf go_range_ok[OF this]]
  have c: "wf_book (lastTimestamp (clk (w_engine a))) (cancelSession (go_range vis (orders ?ob)) (w_session a) ?ob)"
    "without (\<lambda>x. SessionID x = w_session a) ?ob (cancelSession (go_range vis (orders ?ob)) (w_session a) ?ob)"
    by auto
  have "SessionID x = w_session a" if "x \<in> set (bid_list ?ob) \<union> set (ask_list ?ob)" for x
    using bot_aloneD(4)[OF 4] that unfolding owners_def by blast
  then show ?case
    using c by (auto simp: nobody_there_def stub_target_def spec_target_def Let_def without_def)
next
  case (5 a b q a' q' b')
  let ?ob = "book (w_engine a)"
  obtain ts c where now: "now u (clk (w_engine a)) = (ts, c)" by (cases "now u (clk (w_engine a))")
  have later: "lastTimestamp (clk (w_engine a)) \<le> lastTimestamp c" using now_later[OF now] by simp
  have spec: "length (remdups (map Price (s_bids b))) = card (Price ` set (bid_list ?ob))"
    "length (remdups (map Price (s_asks b))) = card (Price ` set (ask_list ?ob))"
    unfolding bot_aloneD(2,3)[OF 5(1)] by (simp_all add: length_remdups_card_conv image_image)
  show ?case
    using 5 now later level_count[OF list_msets(1)[of ?ob], where f = "\<lambda>l. - level_Price l" and visp = visp]
      level_count[OF list_msets(2)[of ?ob], where f = level_Price and visp = visp] spec
    by (auto simp: stub_target_def spec_target_def orderbookHandler_def Let_def bot_alone_def intro: wf_book_later)
qed

text \<open>On the contract the bot's run is a computation, for any number of further reads.\<close>

lemma spec_run: "fst (run_all (\<lambda>n i. Suc (Suc (Suc (k n i)))) spec_target CorrectnessSequences spec_start) = (33, [])"
  by code_simp

lemma stub_run:
  assumes "wf_book (lastTimestamp (clk (w_engine w))) (book (w_engine w))"
    "bid_list (book (w_engine w)) = []" "ask_list (book (w_engine w)) = []" "\<And>n i. 3 \<le> reads n i"
  shows "fst (run_all reads (stub_target u vis visp) CorrectnessSequences w) = (33, [])"
proof -
  have off: "nobody_there w spec_start" using assms(1-3) by (simp add: nobody_there_def spec_start_def)
  have "list_all (\<lambda>seq. list_all (\<lambda>s. int64_range (step_Quantity s)) (Steps seq)) CorrectnessSequences"
    by code_simp
  note same = stub_bot.run_all_same[OF off this, of reads u vis visp]
  have "reads = (\<lambda>n i. Suc (Suc (Suc (reads n i - 3))))" 
  proof (intro ext)
    fix n i
    show "reads n i = Suc (Suc (Suc (reads n i - 3)))" using assms(4)[of n i] by simp
  qed
  then show ?thesis unfolding same using spec_run[of "\<lambda>n i. reads n i - 3"] by simp
qed

end
