(* ===== verification/StubProperties.thy ===== *)
theory StubProperties
  imports StubServer StubSnapshot
begin

text \<open>
  The properties of the matching engine: matching, the handlers, the reachable states of the
  server, and the snapshot. The demonstration books of the witnesses come from \<open>play\<close>, which
  runs messages through the handlers one after the other.
\<close>

fun play :: "(nat \<Rightarrow> int64) \<Rightarrow> engine \<Rightarrow> (string \<times> IncomingMessage) list \<Rightarrow> engine" where
  "play u eng [] = eng"
| "play u eng ((sid, msg) # ms) = play u (fst (deliver u (on_message u sid msg eng))) ms"

lemma play_wf:
  "wf_book (lastTimestamp (clk eng)) (book eng) \<Longrightarrow> list_all (\<lambda>(sid, msg). int64_range (in_Quantity msg)) ms \<Longrightarrow>
    wf_book (lastTimestamp (clk (play u eng ms))) (book (play u eng ms))"
proof (induction u eng ms rule: play.induct)
  case (2 u eng sid msg ms)
  obtain eng1 out where r: "on_message u sid msg eng = (eng1, out)" by (cases "on_message u sid msg eng")
  have wf1: "wf_book (lastTimestamp (clk eng1)) (book eng1)"
    using on_message_ok[OF "2.prems"(1) _ r] "2.prems"(2) by simp
  obtain eng2 outs where d: "deliver u (eng1, out) = (eng2, outs)" by (cases "deliver u (eng1, out)")
  have "wf_book (lastTimestamp (clk eng2)) (book eng2)"
  proof (cases out)
    case (Ready ms)
    with d wf1 show ?thesis by (simp add: deliver_def)
  next
    case (Stamp m)
    obtain t c where n: "now u (clk eng1) = (t, c)" by (cases "now u (clk eng1)")
    with d Stamp now_later[OF n] wf1 show ?thesis by (auto simp: deliver_def intro: wf_book_later)
  qed
  then show ?case using "2.IH" "2.prems"(2) r d by simp
qed simp

definition limit :: "string \<Rightarrow> string \<Rightarrow> price \<Rightarrow> int64 \<Rightarrow> IncomingMessage" where
  "limit k side p q = \<lparr>in_Type = ''order'', in_OrderID = k, in_Side = side, in_OrderType = ''limit'',
                       in_Price = p, in_Quantity = q\<rparr>"

definition fresh_engine :: engine where
  "fresh_engine = \<lparr>book = NewOrderbook, clk = \<lparr>lastTimestamp = 0, readings = 0\<rparr>\<rparr>"

text \<open>Two sellers at 7, one at 9, one buyer at 5.\<close>

definition demo :: engine where
  "demo = play int fresh_engine
     [(''s'', limit ''s1'' ''sell'' 9 4), (''s'', limit ''s2'' ''sell'' 7 2), (''t'', limit ''s3'' ''sell'' 7 3),
      (''t'', limit ''b1'' ''buy'' 5 1)]"

lemma demo_wf: "wf_book (lastTimestamp (clk demo)) (book demo)"
  unfolding demo_def by (rule play_wf) (simp_all add: fresh_engine_def wf_NewOrderbook limit_def int64_range_def)

section \<open>Orders\<close>

text \<open>C1: Matching on the code's heaps of shared orders is matching on the sorted book. When the
  book is well formed, \<open>match\<close> gives the incoming order the same fills, in the same order, as
  walking down the other side from its best order does; the other side loses exactly what was
  filled, the order's own side does not change, and the book stays well formed.\<close>

theorem match_best_first:
  assumes "wf_book (lastTimestamp c) ob" "0 \<le> Remaining order" "Remaining order < 2 ^ 63"
    "match u ob c order = (ob', c', order', fills)"
  shows "spec_match order (opposite_list order ob) = (order', opposite_list order ob', map fill_of fills) \<and>
    own_list order ob' = own_list order ob \<and> wf_book (lastTimestamp c') ob'"
  using match_refines_spec[OF assms] by simp

theorem match_best_first_witness:
  "\<exists>ob' c' order'. match int (book demo) (clk demo) (new_order ''b'' (limit ''b2'' ''buy'' 8 4) 6) =
      (ob', c', order', [FillMessage ''b2'' 2 7 2 5, FillMessage ''b2'' 2 7 0 6]) \<and>
    map OrderID (ask_list ob') = [''s3'', ''s1''] \<and> wf_book (lastTimestamp c') ob'"
proof -
  let ?o = "new_order ''b'' (limit ''b2'' ''buy'' 8 4) 6"
  obtain ob' c' order' fills where m: "match int (book demo) (clk demo) ?o = (ob', c', order', fills)"
    by (cases "match int (book demo) (clk demo) ?o")
  have "snd (snd (snd (match int (book demo) (clk demo) ?o))) = [FillMessage ''b2'' 2 7 2 5, FillMessage ''b2'' 2 7 0 6]"
    by code_simp
  moreover have "map OrderID (fst (snd (spec_match ?o (opposite_list ?o (book demo))))) = [''s3'', ''s1'']"
    by code_simp
  moreover note match_best_first[OF demo_wf _ _ m]
  ultimately show ?thesis using m by (auto simp: limit_def new_order_def opposite_list_def)
qed

text \<open>C2: An accepted order refines the contract. The reply starts with the ack, stamped with the
  time the order entered the book, then has one fill per step of \<open>spec_match\<close>, then the
  \<open>no_liquidity\<close> reject exactly when a market order is left over; the rest of a limit order is
  inserted into its own side behind every order of the same price; timestamps increase along
  the reply; the book stays well formed.\<close>

theorem accepted_order_refines:
  assumes "wf_book (lastTimestamp (clk eng)) (book eng)" "order_error (book eng) msg = None"
    "in_Quantity msg < 2 ^ 63" "now u (clk eng) = (ts, c)" "handleOrder u sid msg eng = (eng', out)"
  defines "order \<equiv> new_order sid msg ts" and "T' \<equiv> lastTimestamp (clk eng')"
  shows "\<exists>order' fills.
    spec_match order (opposite_list order (book eng)) =
      (order', opposite_list order (book eng'), map fill_of fills) \<and>
    own_list order (book eng') = rested order' (own_list order (book eng)) \<and>
    list_all (is_fill_for (in_OrderID msg)) fills \<and>
    out = Ready (accept_reply (in_OrderID msg) ts fills order' T') \<and>
    stamped (lastTimestamp (clk eng)) (accept_reply (in_OrderID msg) ts fills order' T') T' \<and>
    wf_book T' (book eng')"
proof -
  obtain order' opp' fs where spec: "spec_match order (opposite_list order (book eng)) = (order', opp', fs)"
    by (cases "spec_match order (opposite_list order (book eng))")
  from handleOrder_accepts[OF assms(1-5), folded order_def, OF spec, folded T'_def] spec show ?thesis
    by (intro exI[of _ order']) blast
qed

theorem accepted_order_refines_witness:
  "\<exists>eng' out. handleOrder int ''b'' (limit ''b2'' ''buy'' 8 9) demo = (eng', out) \<and>
    pending out = [AckMessage ''b2'' 5, FillMessage ''b2'' 2 7 7 6, FillMessage ''b2'' 3 7 4 7] \<and>
    map OrderID (ask_list (book eng')) = [''s1''] \<and> wf_book (lastTimestamp (clk eng')) (book eng')"
proof -
  let ?msg = "limit ''b2'' ''buy'' 8 9" and ?o = "new_order ''b'' (limit ''b2'' ''buy'' 8 9) 5"
  obtain eng' out where run: "handleOrder int ''b'' ?msg demo = (eng', out)"
    by (cases "handleOrder int ''b'' ?msg demo")
  have ok: "order_error (book demo) ?msg = None" "in_Quantity ?msg < 2 ^ 63"
    by (code_simp, simp add: limit_def)
  obtain c where now: "now int (clk demo) = (5, c)"
  proof -
    have "fst (now int (clk demo)) = 5" by code_simp
    then show thesis using that by (cases "now int (clk demo)") auto
  qed
  have "pending (snd (handleOrder int ''b'' ?msg demo)) =
      [AckMessage ''b2'' 5, FillMessage ''b2'' 2 7 7 6, FillMessage ''b2'' 3 7 4 7]" by code_simp
  moreover have "map OrderID (fst (snd (spec_match ?o (ask_list (book demo))))) = [''s1'']" by code_simp
  moreover note accepted_order_refines[OF demo_wf ok now run]
  ultimately show ?thesis
    using run by (auto simp: opposite_list_def limit_def)
qed

text \<open>C3: An order that fails a check is answered with the reject of the first check it fails, in
  the order of the code (id, side and type, then quantity, then the price of a limit order, then
  an id that is already on the book), and the book is left as it was.\<close>

theorem bad_order_rejected:
  assumes "order_error (book eng) msg = Some reason"
  shows "let (ts, c) = now u (clk eng)
    in deliver u (handleOrder u sid msg eng) = (eng\<lparr>clk := c\<rparr>, [RejectMessage (in_OrderID msg) reason ts])"
  by (simp add: handleOrder_rejects[OF assms] deliver_def split: prod.splits)

theorem bad_order_rejected_witness:
  "snd (deliver int (handleOrder int ''b'' (limit ''s1'' ''buy'' 8 9) demo)) = [RejectMessage ''s1'' ''duplicate_order_id'' 5] \<and>
   snd (deliver int (handleOrder int ''b'' (limit ''s 1'' ''buy'' 8 0) demo)) = [RejectMessage ''s 1'' ''invalid_order'' 5]"
proof -
  have e: "order_error (book demo) (limit ''s1'' ''buy'' 8 9) = Some ''duplicate_order_id''"
    "order_error (book demo) (limit ''s 1'' ''buy'' 8 0) = Some ''invalid_order''" by code_simp+
  have "fst (now int (clk demo)) = 5" by code_simp
  with bad_order_rejected[OF e(1), of int "''b''"] bad_order_rejected[OF e(2), of int "''b''"] show ?thesis
    by (auto simp: limit_def split: prod.splits)
qed

text \<open>C4: Quantity is conserved and prices are honoured. For an accepted order, what its fills say,
  what rests of it and what a market order is refused add up to its quantity; the other side
  loses exactly the filled quantity; every fill has a positive quantity, at a price of the other
  side that a limit order accepts; and a market order is refused something only when the other
  side is empty.\<close>

theorem quantity_conserved:
  assumes "wf_book (lastTimestamp (clk eng)) (book eng)" "order_error (book eng) msg = None"
    "in_Quantity msg < 2 ^ 63" "now u (clk eng) = (ts, c)" "handleOrder u sid msg eng = (eng', out)"
  defines "order \<equiv> new_order sid msg ts"
    and "fs \<equiv> map fill_of (filter (is_fill_for (in_OrderID msg)) (pending out))"
  shows "\<exists>order'. sum_list (map fst fs) + Remaining order' = in_Quantity msg \<and> 0 \<le> Remaining order' \<and>
      own_list order (book eng') = rested order' (own_list order (book eng)) \<and>
      sum_list (map Remaining (opposite_list order (book eng'))) + sum_list (map fst fs) =
        sum_list (map Remaining (opposite_list order (book eng))) \<and>
      (\<forall>(q, p, r) \<in> set fs. 0 < q \<and> 0 \<le> r \<and> p \<in> Price ` set (opposite_list order (book eng))) \<and>
      (in_OrderType msg = ''limit'' \<longrightarrow> (\<forall>(q, p, r) \<in> set fs.
        if in_Side msg = ''buy'' then p \<le> in_Price msg else in_Price msg \<le> p)) \<and>
      (in_OrderType msg = ''market'' \<and> 0 < Remaining order' \<longrightarrow> opposite_list order (book eng') = [])"
proof -
  let ?opp = "opposite_list order (book eng)"
  obtain order' fills where
    spec: "spec_match order ?opp = (order', opposite_list order (book eng'), map fill_of fills)" and
    own: "own_list order (book eng') = rested order' (own_list order (book eng))" and
    fills: "list_all (is_fill_for (in_OrderID msg)) fills"
      "out = Ready (accept_reply (in_OrderID msg) ts fills order' (lastTimestamp (clk eng')))"
    using handleOrder_accepts[OF assms(1-5), folded order_def]
    by (cases "spec_match order ?opp") blast
  have "fs = map fill_of fills"
    using fills(1) unfolding fs_def fills(2)
    by (auto simp: pending_def accept_reply_def is_fill_for_def list_all_iff intro!: arg_cong[of _ _ "map fill_of"] filter_True)
  note spec = spec[folded this]
  have order: "Remaining order = in_Quantity msg" "Side order = in_Side msg" "OrderType order = in_OrderType msg"
    "Price order = in_Price msg" by (simp_all add: order_def)
  have q: "0 \<le> Remaining order" using assms(2) unfolding order_error_None order by auto
  have pos: "\<forall>x \<in> set ?opp. 0 < Remaining x" using resting_old[OF assms(1)] by (auto simp: order_ok_def)
  note keep = spec_match_keeps[OF spec q pos]
  have "sum_list (map fst fs) + Remaining order' = in_Quantity msg" "0 \<le> Remaining order'"
    "sum_list (map Remaining (opposite_list order (book eng'))) + sum_list (map fst fs) =
      sum_list (map Remaining ?opp)"
    using spec_match_conserves[OF spec] keep order by auto
  moreover have "\<forall>(q, p, r) \<in> set fs. 0 < q \<and> 0 \<le> r \<and> p \<in> Price ` set ?opp"
    using spec_match_fills[OF spec q] keep by fastforce
  moreover have "\<forall>(q, p, r) \<in> set fs. if in_Side msg = ''buy'' then p \<le> in_Price msg else in_Price msg \<le> p"
    if "in_OrderType msg = ''limit''"
    using spec_match_prices[OF spec] that order by (auto split: if_splits)
  moreover have "opposite_list order (book eng') = []" if "in_OrderType msg = ''market''" "0 < Remaining order'"
    using spec_match_stuck[OF spec that(2)] that order by auto
  ultimately show ?thesis using own by blast
qed

theorem quantity_conserved_witness:
  "\<exists>eng' out. handleOrder int ''b'' (limit ''b2'' ''buy'' 8 9) demo = (eng', out) \<and>
    map fill_of (filter (is_fill_for ''b2'') (pending out)) = [(2, 7, 7), (3, 7, 4)] \<and>
    sum_list (map Remaining (ask_list (book eng'))) + 5 = 9"
proof -
  let ?msg = "limit ''b2'' ''buy'' 8 9"
  obtain eng' out where run: "handleOrder int ''b'' ?msg demo = (eng', out)"
    by (cases "handleOrder int ''b'' ?msg demo")
  have ok: "order_error (book demo) ?msg = None" "in_Quantity ?msg < 2 ^ 63"
    by (code_simp, simp add: limit_def)
  obtain ts c where now: "now int (clk demo) = (ts, c)" by (cases "now int (clk demo)")
  have "map fill_of (filter (is_fill_for ''b2'') (pending (snd (handleOrder int ''b'' ?msg demo)))) =
      [(2, 7, 7), (3, 7, 4)]"
    by code_simp
  moreover have "sum_list (map Remaining (ask_list (book demo))) = 9" by code_simp
  moreover note quantity_conserved[OF demo_wf ok now run]
  ultimately show ?thesis
    using run by (auto simp: opposite_list_def limit_def)
qed

section \<open>Cancels and disconnects\<close>

text \<open>C5: A cancel is answered by what the book says of the id. An id that is not on the book gives
  \<open>unknown_order\<close>, another session's order gives \<open>unauthorized\<close>, and both leave the book alone;
  the session's own order is acknowledged and is gone from its side, every other order stays in
  its place, and the book stays well formed. (The table of docs/api-contract.md names another
  session's order under both reasons, in lines 148 and 149; the code sends the second.)\<close>

theorem cancel_answers:
  fixes msg :: IncomingMessage and sid :: string
  assumes wf: "wf_book (lastTimestamp (clk eng)) (book eng)" and now: "now u (clk eng) = (ts, c)"
  defines "k \<equiv> in_OrderID msg"
  defines "mine \<equiv> \<lambda>x. OrderID x = k"
  defines "r \<equiv> deliver u (handleCancel sid msg eng)"
  shows "case filter mine (bid_list (book eng) @ ask_list (book eng)) of
      [] \<Rightarrow> r = (eng\<lparr>clk := c\<rparr>, [RejectMessage k ''unknown_order'' ts])
    | x # _ \<Rightarrow>
        if SessionID x \<noteq> sid then r = (eng\<lparr>clk := c\<rparr>, [RejectMessage k ''unauthorized'' ts])
        else snd r = [CancelAckMessage k ts] \<and> wf_book (lastTimestamp c) (book (fst r)) \<and>
          bid_list (book (fst r)) = filter (\<lambda>x. OrderID x \<noteq> k) (bid_list (book eng)) \<and>
          ask_list (book (fst r)) = filter (\<lambda>x. OrderID x \<noteq> k) (ask_list (book eng))"
proof (cases "orders (book eng) k")
  case None
  have "\<not> mine x" if x: "x \<in> set (bid_list (book eng) @ ask_list (book eng))" for x
  proof -
    obtain a where "a \<in> resting (book eng)" "x = view (objs (book eng) a)"
      using x list_subsets[of "book eng"] by auto
    then show ?thesis using None wf_orders[OF wf, of k a] by (auto simp: mine_def)
  qed
  then have "filter mine (bid_list (book eng) @ ask_list (book eng)) = []"
    by (simp add: filter_empty_conv)
  with None now show ?thesis by (simp add: r_def handleCancel_def deliver_def k_def)
next
  case (Some a)
  have a: "a \<in> resting (book eng)" "OrderID (objs (book eng) a) = k"
    using wf_orders[OF wf, of k a] Some by auto
  have here: "view (objs (book eng) a) \<in> set (filter mine (bid_list (book eng) @ ask_list (book eng)))"
    using a by (auto simp: mine_def list_sets resting_def)
  have "SessionID x = SessionID (objs (book eng) a)"
    if x: "x \<in> set (filter mine (bid_list (book eng) @ ask_list (book eng)))" for x
  proof -
    obtain b where b: "b \<in> resting (book eng)" "x = view (objs (book eng) b)"
      using x list_subsets[of "book eng"] by auto
    then have "OrderID (objs (book eng) b) = OrderID (objs (book eng) a)" using x a by (auto simp: mine_def)
    then have "b = a" by (rule wf_book_id_unique[OF wf b(1) a(1)])
    then show ?thesis using b(2) by simp
  qed
  note all = this
  obtain x xs where x: "filter mine (bid_list (book eng) @ ask_list (book eng)) = x # xs"
    using here by (cases "filter mine (bid_list (book eng) @ ask_list (book eng))")
      (simp_all del: filter_append set_filter)
  have "x \<in> set (filter mine (bid_list (book eng) @ ask_list (book eng)))" unfolding x by simp
  note f = x all[OF this]
  have later: "lastTimestamp (clk eng) \<le> lastTimestamp c" using now_later[OF now] by simp
  note rm = remove_wf[OF wf, of k]
  show ?thesis
    using f Some now rm wf_book_later[OF conjunct1[OF rm] later]
    by (simp add: r_def handleCancel_def deliver_def without_def k_def del: filter_append)
qed

theorem cancel_answers_witness:
  "snd (deliver int (handleCancel ''t'' (limit ''s3'' ''sell'' 0 0) demo)) = [CancelAckMessage ''s3'' 5] \<and>
   map OrderID (ask_list (book (fst (deliver int (handleCancel ''t'' (limit ''s3'' ''sell'' 0 0) demo))))) = [''s2'', ''s1''] \<and>
   snd (deliver int (handleCancel ''s'' (limit ''s3'' ''sell'' 0 0) demo)) = [RejectMessage ''s3'' ''unauthorized'' 5]"
proof -
  obtain c where now: "now int (clk demo) = (5, c)"
  proof -
    have "fst (now int (clk demo)) = 5" by code_simp
    then show thesis using that by (cases "now int (clk demo)") auto
  qed
  have f: "map SessionID (filter (\<lambda>x. OrderID x = ''s3'') (bid_list (book demo) @ ask_list (book demo))) = [''t'']"
    "map OrderID (filter (\<lambda>x. OrderID x \<noteq> ''s3'') (ask_list (book demo))) = [''s2'', ''s1'']" by code_simp+
  obtain x where x: "filter (\<lambda>x. OrderID x = ''s3'') (bid_list (book demo) @ ask_list (book demo)) = [x]"
    "SessionID x = ''t''"
    using f(1) by (auto simp: map_eq_Cons_conv simp del: filter_append map_append)
  show ?thesis
    using cancel_answers[OF demo_wf now, where msg = "limit ''s3'' ''sell'' 0 0" and sid = "''t''"]
      cancel_answers[OF demo_wf now, where msg = "limit ''s3'' ''sell'' 0 0" and sid = "''s''"] x f(2)
    by (simp add: limit_def del: filter_append)
qed

text \<open>C6: A session that ends takes its orders with it, and only its own: in whatever order the map
  is visited, the book keeps exactly the orders of the other sessions, each in its place, and
  stays well formed.\<close>

theorem disconnect_clears_session:
  assumes "wf_book T ob" "range_order (orders ob) visit"
  shows "wf_book T (cancelSession visit sid ob) \<and>
    bid_list (cancelSession visit sid ob) = filter (\<lambda>x. SessionID x \<noteq> sid) (bid_list ob) \<and>
    ask_list (cancelSession visit sid ob) = filter (\<lambda>x. SessionID x \<noteq> sid) (ask_list ob)"
  using cancelSession_wf[OF assms] by (simp add: without_def)

theorem disconnect_clears_session_witness:
  "map OrderID (ask_list (cancelSession [''b1'', ''s3'', ''s1'', ''s2''] ''t'' (book demo))) = [''s2'', ''s1''] \<and>
   bid_list (cancelSession [''b1'', ''s3'', ''s1'', ''s2''] ''t'' (book demo)) = []"
proof -
  have o: "orders (book demo) k \<noteq> None \<longleftrightarrow> k \<in> set [''b1'', ''s3'', ''s1'', ''s2'']" for k
  proof -
    have ids: "OrderID ` set (bid_list (book demo) @ ask_list (book demo)) = set [''b1'', ''s3'', ''s1'', ''s2'']"
      by code_simp
    have "orders (book demo) k \<noteq> None \<longleftrightarrow> k \<in> (\<lambda>a. OrderID (objs (book demo) a)) ` resting (book demo)"
      using wf_orders[OF demo_wf, of k] by (auto simp: image_iff)
    also have "\<dots> \<longleftrightarrow> k \<in> OrderID ` set (bid_list (book demo) @ ask_list (book demo))"
      by (simp add: list_sets resting_def image_Un image_image)
    finally show ?thesis unfolding ids .
  qed
  then have v: "range_order (orders (book demo)) [''b1'', ''s3'', ''s1'', ''s2'']"
    by (auto simp: range_order_def)
  have "map OrderID (filter (\<lambda>x. SessionID x \<noteq> ''t'') (ask_list (book demo))) = [''s2'', ''s1'']"
    "filter (\<lambda>x. SessionID x \<noteq> ''t'') (bid_list (book demo)) = []" by code_simp+
  then show ?thesis using disconnect_clears_session[OF demo_wf v, of "''t''"] by simp
qed

section \<open>Every execution of the server\<close>

lemma distinct_ids:
  assumes wf: "wf_book T ob"
  shows "distinct (map OrderID (bid_list ob @ ask_list ob))"
proof -
  have "distinct (bids ob @ asks ob)"
    using wf_sides(1-3)[OF wf] by (auto simp: bid_side.heaped_def ask_side.heaped_def slice_ok_def)
  moreover have "inj_on (\<lambda>a. OrderID (view (objs ob a))) (resting ob)"
    using wf_book_id_unique[OF wf] by (auto intro!: inj_onI)
  ultimately have "distinct (map (\<lambda>a. OrderID (view (objs ob a))) (bids ob @ asks ob))"
    by (simp only: distinct_map set_append resting_def)
  moreover have "mset (map OrderID (bid_list ob @ ask_list ob)) =
      mset (map (\<lambda>a. OrderID (view (objs ob a))) (bids ob @ asks ob))"
    by (simp add: list_msets image_mset.compositionality comp_def)
  ultimately show ?thesis using mset_eq_imp_distinct_iff by blast
qed

text \<open>C7: In every reachable state, whatever sessions did and however their moves interleaved, each
  side of the book is sorted by price and then by time of entry, every bid is below every ask,
  every order has something left of its quantity, no two orders share an id, and the front of
  the code's heaps is the best order.\<close>

theorem book_never_crossed:
  assumes "server_reachable u sv"
  defines "ob \<equiv> book (engine sv)"
  shows "sorted (map (\<lambda>x. (- Price x, EnteredAt x)) (bid_list ob)) \<and>
    sorted (map (\<lambda>x. (Price x, EnteredAt x)) (ask_list ob)) \<and>
    (\<forall>b \<in> set (bid_list ob). \<forall>a \<in> set (ask_list ob). Price b < Price a) \<and>
    (\<forall>x \<in> set (bid_list ob @ ask_list ob). 0 < Price x \<and> 0 < Remaining x \<and> Remaining x \<le> Quantity x) \<and>
    distinct (map OrderID (bid_list ob @ ask_list ob)) \<and>
    (bids ob \<noteq> [] \<longrightarrow> view (objs ob (hd (bids ob))) = hd (bid_list ob)) \<and>
    (asks ob \<noteq> [] \<longrightarrow> view (objs ob (hd (asks ob))) = hd (ask_list ob))"
proof -
  have wf: "wf_book (lastTimestamp (clk (engine sv))) ob"
    using server_reachable_ok[OF assms(1)] by (simp add: server_ok_def Let_def ob_def)
  have "sorted (map (\<lambda>x. (- Price x, EnteredAt x)) (bid_list ob))" "sorted (map (\<lambda>x. (Price x, EnteredAt x)) (ask_list ob))"
    using bid_side.ranked_sorted[of "(objs ob, bids ob)"] ask_side.ranked_sorted[of "(objs ob, asks ob)"]
    by (simp_all add: bid_list_def ask_list_def bid_rank_def[abs_def] ask_rank_def[abs_def])
  moreover have "\<forall>b \<in> set (bids ob). \<forall>a \<in> set (asks ob). Price (objs ob b) < Price (objs ob a)"
    using wf unfolding wf_book_def by (elim conjE)
  then have "\<forall>b \<in> set (bid_list ob). \<forall>a \<in> set (ask_list ob). Price b < Price a"
    by (simp add: list_sets)
  moreover have "\<forall>x \<in> set (bid_list ob @ ask_list ob). 0 < Price x \<and> 0 < Remaining x \<and> Remaining x \<le> Quantity x"
    using wf_sides(7)[OF wf] by (auto simp: list_sets resting_def order_ok_def)
  moreover have "distinct (map OrderID (bid_list ob @ ask_list ob))" by (rule distinct_ids[OF wf])
  moreover have "bids ob \<noteq> [] \<Longrightarrow> view (objs ob (hd (bids ob))) = hd (bid_list ob)"
    using bid_side.head_ranked[of "objs ob" "hd (bids ob)" "tl (bids ob)"] wf_sides(1)[OF wf]
    by (simp add: bid_list_def)
  moreover have "asks ob \<noteq> [] \<Longrightarrow> view (objs ob (hd (asks ob))) = hd (ask_list ob)"
    using ask_side.head_ranked[of "objs ob" "hd (asks ob)" "tl (asks ob)"] wf_sides(2)[OF wf]
    by (simp add: ask_list_def)
  ultimately show ?thesis by blast
qed

theorem book_never_crossed_witness:
  "\<exists>sv. server_reachable int sv \<and> bid_list (book (engine sv)) @ ask_list (book (engine sv)) \<noteq> [] \<and>
    distinct (map OrderID (bid_list (book (engine sv)) @ ask_list (book (engine sv))))"
proof -
  obtain sv sid where sv: "server_reachable int sv" "sid \<in> owners (book (engine sv))"
    using one_order_reachable by blast
  have "bid_list (book (engine sv)) @ ask_list (book (engine sv)) \<noteq> []"
    using sv(2) by (auto simp: owners_def)
  with book_never_crossed[OF sv(1)] sv(1) show ?thesis by blast
qed

text \<open>No orphan orders: in every reachable state each resting order belongs to a session that is
  still connected.\<close>

lemma resting_orders_have_sessions:
  assumes "server_reachable u sv" "x \<in> set (bid_list (book (engine sv)) @ ask_list (book (engine sv)))"
  shows "sessions sv (SessionID x) \<noteq> None"
proof -
  have "owners (book (engine sv)) \<subseteq> dom (sessions sv)"
    using server_reachable_ok[OF assms(1)] by (simp add: server_ok_def Let_def)
  moreover have "SessionID x \<in> owners (book (engine sv))" using assms(2) by (auto simp: owners_def)
  ultimately show ?thesis by blast
qed

text \<open>C8: Each session reads its messages in time order: in every reachable state the timestamps of
  what was written to a session, then what waits in its channel, then what its handler is about
  to send increase strictly, up to the clock; and the channel never holds more than 256.\<close>

theorem session_stream_in_time_order:
  assumes "server_reachable u sv" "sessions sv sid = Some s"
  shows "sorted_wrt (<) (map msg_time (wire s @ chan s @ pending (doing s))) \<and>
    (\<forall>m \<in> set (wire s @ chan s @ pending (doing s)). msg_time m \<le> lastTimestamp (clk (engine sv))) \<and>
    length (chan s) \<le> 256"
proof -
  have "session_ok (lastTimestamp (clk (engine sv))) s"
    using server_reachable_ok[OF assms(1)] assms(2) by (simp add: server_ok_def Let_def)
  then show ?thesis by (simp add: session_ok_def in_order_def)
qed

theorem session_stream_in_time_order_witness:
  "\<exists>sv sid s. server_reachable int sv \<and> sessions sv sid = Some s \<and> chan s \<noteq> [] \<and>
    sorted_wrt (<) (map msg_time (wire s @ chan s @ pending (doing s)))"
proof -
  obtain sv sid where sv: "server_reachable int sv" "idle_with 1 sid (book (engine sv)) sv"
    using one_order_reachable by blast
  then obtain s where s: "sessions sv sid = Some s" "length (chan s) = 1" by (auto simp: idle_with_def)
  from s(2) have "chan s \<noteq> []" by auto
  with session_stream_in_time_order[OF sv(1) s(1)] sv(1) s(1) show ?thesis by blast
qed

text \<open>C9: The engine can keep the orders of a session that is gone. A reachable state has a session
  with an order on the book, a full channel, and a writer that stopped on an error: its reader
  waits in \<open>s.send <- m\<close> for room, and in every later state the session is as it was, so its
  \<open>cancelSession\<close> is never run.\<close>

theorem blocked_session_never_cleaned_up:
  "\<exists>sv sid s. server_reachable u sv \<and> sid \<in> SessionID ` set (bid_list (book (engine sv)) @ ask_list (book (engine sv))) \<and>
    sessions sv sid = Some s \<and> pending (doing s) \<noteq> [] \<and> length (chan s) = 256 \<and> \<not> writing s \<and>
    (\<nexists>sv'. server_later u sv sv' \<and> sessions sv' sid \<noteq> Some s)"
proof -
  obtain sv sid where sv: "server_reachable u sv" "sid \<in> owners (book (engine sv))" "blocked sv sid"
    "\<forall>sv'. server_later u sv sv' \<longrightarrow> sessions sv' sid = sessions sv sid"
    using ghost_orders by blast
  then obtain s where "sessions sv sid = Some s" "pending (doing s) \<noteq> []" "length (chan s) = 256" "\<not> writing s"
    by (auto simp: blocked_def split: option.splits)
  with sv show ?thesis by (auto simp: owners_def intro!: exI[of _ sv] exI[of _ sid])
qed

section \<open>The snapshot and the clock\<close>

text \<open>C10: The snapshot shows the book: for each side one level per price, best price first, with the
  total that rests there, whatever order Go visits its maps in; and in a well-formed book every
  bid level is below every ask level. (No total may exceed an \<open>int64\<close>.)\<close>

theorem snapshot_shows_book:
  assumes "wf_book T ob" "range_order (level_map (objs ob) (bids ob)) visit_bids"
    "range_order (level_map (objs ob) (asks ob)) visit_asks"
    "\<And>p. int64_range (total_at p (bid_list ob))" "\<And>p. int64_range (total_at p (ask_list ob))"
  shows "fst (orderbookHandler u visit_bids visit_asks ob c) =
      \<lparr>Bids = spec_levels (bid_list ob), Asks = spec_levels (ask_list ob), Timestamp = fst (now u c)\<rparr> \<and>
    sorted_wrt (>) (map level_Price (spec_levels (bid_list ob))) \<and>
    sorted_wrt (<) (map level_Price (spec_levels (ask_list ob))) \<and>
    (\<forall>b \<in> set (spec_levels (bid_list ob)). \<forall>a \<in> set (spec_levels (ask_list ob)). level_Price b < level_Price a)"
proof -
  have "sorted_wrt (>) (map level_Price (spec_levels (bid_list ob)))"
    "sorted_wrt (<) (map level_Price (spec_levels (ask_list ob)))"
    by (rule spec_levels_sorted)+
  moreover have "\<forall>b \<in> set (spec_levels (bid_list ob)). \<forall>a \<in> set (spec_levels (ask_list ob)). level_Price b < level_Price a"
    using spread_positive[OF assms(1)] by blast
  ultimately show ?thesis using orderbookHandler_levels[OF assms(2-5), of u c] by simp
qed

theorem snapshot_shows_book_witness:
  "fst (orderbookHandler int [5] [9, 7] (book demo) (clk demo)) =
    \<lparr>Bids = [\<lparr>level_Price = 5, level_Quantity = 1\<rparr>],
     Asks = [\<lparr>level_Price = 7, level_Quantity = 5\<rparr>, \<lparr>level_Price = 9, level_Quantity = 4\<rparr>], Timestamp = 5\<rparr>"
proof -
  have prices: "Price ` set (bid_list (book demo)) = set [5]" "Price ` set (ask_list (book demo)) = set [9, 7]"
    by code_simp+
  have d: "dom (level_map (objs ob) h) = Price ` (\<lambda>a. view (objs ob a)) ` set h" for ob h
    by (auto simp: level_map_eq dom_def image_image split: if_splits)
  have v: "range_order (level_map (objs (book demo)) (bids (book demo))) [5]"
    "range_order (level_map (objs (book demo)) (asks (book demo))) [9, 7]"
    using prices by (simp_all add: range_order_def d list_sets)
  have t: "spec_levels (bid_list (book demo)) = [\<lparr>level_Price = 5, level_Quantity = 1\<rparr>]"
    "spec_levels (ask_list (book demo)) = [\<lparr>level_Price = 7, level_Quantity = 5\<rparr>, \<lparr>level_Price = 9, level_Quantity = 4\<rparr>]"
    "fst (now int (clk demo)) = 5" by code_simp+
  have b: "map (\<lambda>x. (Price x, Remaining x)) (bid_list (book demo)) = [(5, 1)]"
    "map (\<lambda>x. (Price x, Remaining x)) (ask_list (book demo)) = [(7, 2), (7, 3), (9, 4)]" by code_simp+
  have "int64_range (total_at p (bid_list (book demo)))" "int64_range (total_at p (ask_list (book demo)))" for p
    using b by (auto simp: total_at_def int64_range_def)
  from snapshot_shows_book[OF demo_wf v this, of int "clk demo"] show ?thesis by (simp add: t)
qed

text \<open>C11: \<open>now\<close> never repeats itself: under any interleaving of goroutines in its compare-and-swap
  loop, the timestamps it returned, in the order of the successful swaps, increase strictly, and
  the last is at most the shared value.\<close>

theorem timestamps_unique:
  assumes "cas_reachable s"
  shows "sorted_wrt (<) (returned s) \<and> (\<forall>t \<in> set (returned s). t \<le> shared s)"
  using cas_reachable_inv[OF assms] by (simp add: cas_inv_def)

theorem timestamps_unique_witness:
  "\<exists>s. cas_reachable s \<and> returned s = [7, 8] \<and> sorted_wrt (<) (returned s)"
proof -
  let ?run = "\<lambda>g r old ts s. s\<lparr>shared := ts, pcs := (pcs s)(g := Outside), returned := returned s @ [ts]\<rparr>"
  have go: "cas_reachable (\<lparr>shared = ts, pcs = (\<lambda>_. Outside), returned = rs @ [ts]\<rparr>)"
    if "cas_reachable \<lparr>shared = old, pcs = (\<lambda>_. Outside), returned = rs\<rparr>" "ts = (if r \<le> old then old + 1 else r)"
    for old rs ts r
  proof -
    let ?s = "\<lparr>shared = old, pcs = (\<lambda>_. Outside), returned = rs\<rparr>"
    note 1 = cas_next[OF that(1) cas_enter[of ?s 0 r]]
    note 2 = cas_next[OF 1 cas_load[of _ 0 r r]]
    note 3 = cas_next[OF 2 cas_win[of _ 0 r old ts]]
    show ?thesis using 3 that(2) by (simp add: fun_upd_idem split: if_splits)
  qed
  have "cas_reachable \<lparr>shared = 7, pcs = (\<lambda>_. Outside), returned = [7]\<rparr>"
    using go[of 0 "[]" 7 7] cas_start by (simp add: cas_init_def)
  from go[OF this, of 8 5] have "cas_reachable \<lparr>shared = 8, pcs = (\<lambda>_. Outside), returned = [7, 8]\<rparr>" by simp
  from this timestamps_unique[OF this] show ?thesis by (intro exI conjI) (assumption, simp_all)
qed

end
