(* ===== verification/BotProperties.thy ===== *)
theory BotProperties
  imports CorrectnessStub StubProperties
begin

text \<open>The properties of the bot runner's scripts and of its correctness bot.\<close>

text \<open>C12: The reference engine passes its own exam. The correctness bot, alone with a matching
  engine whose book is empty, passes all 33 assertions and reports the score 1, whatever the
  engine's clock, in whatever order Go visits the maps, and as soon as the deadline of a step
  leaves time for three reads.\<close>

theorem reference_engine_scores_full:
  assumes "wf_book (lastTimestamp (clk (w_engine w))) (book (w_engine w))"
    "bid_list (book (w_engine w)) = []" "ask_list (book (w_engine w)) = []" "\<And>name i. 3 \<le> reads name i"
  shows "fst (Run reads (stub_target u vis visp) w) =
    \<lparr>Score = Fin 1, Passed = 33, Failed = 0, TotalAssertions = 33, FailureDetails = []\<rparr>"
proof -
  have "correctness_score 33 33 = Fin 1" using correctness_score_unit[of 33 33] by simp
  moreover have "fst (run_all reads (stub_target u vis visp) CorrectnessSequences w) = (33, [])"
    by (rule stub_run) (rule assms)+
  ultimately show ?thesis
    by (cases "run_all reads (stub_target u vis visp) CorrectnessSequences w")
      (auto simp: Run_def Let_def)
qed

theorem reference_engine_scores_full_witness:
  "Passed (fst (Run (\<lambda>_ _. 3) (stub_target int (\<lambda>_. []) (\<lambda>_. []))
    \<lparr>w_engine = fresh_engine, w_session = [], w_inbox = []\<rparr>)) = 33"
  by (subst reference_engine_scores_full) (simp_all add: fresh_engine_def wf_NewOrderbook NewOrderbook_empty)

lemma Run_score_unit: "unit_float (Score (fst (Run reads t s)))"
proof -
  obtain p d s' where run: "run_all reads t CorrectnessSequences s = ((p, d), s')" by (metis prod.exhaust)
  have "p + length d \<le> 33" using counted_run_all[OF correctness_weight(2) run] by (simp add: correctness_weight(1))
  then have "unit_float (correctness_score p (p + length d))" by (intro correctness_score_unit[THEN conjunct1]) simp_all
  then show ?thesis by (simp add: Run_def run Let_def)
qed

text \<open>The exam has at most 33 assertions for any engine, and exactly 33 when none fails (an
  engine that fails to answer is asked less, because a missing fill or an unreachable server
  counts once). The score is a number between 0 and 1, and it is 1 exactly when nothing failed.\<close>

lemma correctness_score_counts:
  defines "r \<equiv> \<lambda>reads t s. fst (Run reads t s)"
  shows "Passed (r reads t s) + Failed (r reads t s) = TotalAssertions (r reads t s) \<and>
    TotalAssertions (r reads t s) \<le> 33 \<and> (Failed (r reads t s) = 0 \<longrightarrow> Passed (r reads t s) = 33) \<and>
    unit_float (Score (r reads t s)) \<and> (Score (r reads t s) = Fin 1 \<longleftrightarrow> Failed (r reads t s) = 0)"
proof -
  obtain p d s' where run: "run_all reads t CorrectnessSequences s = ((p, d), s')" by (metis prod.exhaust)
  have n: "p + length d \<le> 33" "d = [] \<longrightarrow> p = 33"
    using counted_run_all[OF correctness_weight(2) run] by (simp_all add: correctness_weight(1))
  have "unit_float (correctness_score p (p + length d)) \<and>
      (correctness_score p (p + length d) = Fin 1 \<longleftrightarrow> p = p + length d)"
    by (rule correctness_score_unit) (use n(1) in simp_all)
  with n show ?thesis by (auto simp: r_def Run_def run Let_def)
qed

text \<open>The load bots never use an order id twice, across bots, iterations and tags, and the
  matching engine accepts every id they use.\<close>

lemma order_ids_unique_and_valid:
  assumes "0 \<le> b" "b < 2 ^ 63" "0 \<le> i" "i < 2 ^ 63" "0 \<le> b'" "0 \<le> i'"
  shows "(orderID b i tag = orderID b' i' tag' \<longrightarrow> b = b' \<and> i = i' \<and> tag = tag') \<and>
    (\<forall>seq \<in> set (sequences b). \<forall>step \<in> set (Steps seq).
      orderIDRegex (orderID b i (Tag step)) \<and> length (orderID b i (Tag step)) \<le> 64)"
proof -
  have tags: "list_all id_char (Tag step) \<and> length (Tag step) \<le> 20"
    if "seq \<in> set (sequences b)" "step \<in> set (Steps seq)" for seq step
    using that
    by (auto simp: sequences_def basicMatch_def partialFillLadder_def cancelCorrectness_def order_step_def
        cancel_step_def step0_def Let_def id_char_def)
  then show ?thesis using orderID_inj[of b i b' i' tag tag'] orderID_accepted[of b i] assms by blast
qed

text \<open>The bots do not trade with each other: the limit prices of different bots lie in bands
  that do not meet, and all of them above the prices of the correctness sequences.\<close>

lemma price_bands_disjoint:
  assumes "0 \<le> b" "b < b'" "b' < 10 ^ 12" "seq \<in> set (sequences b)" "seq' \<in> set (sequences b')"
    "p \<in> step_prices seq" "p' \<in> step_prices seq'" "cx \<in> set CorrectnessSequences" "r \<in> step_prices cx"
  shows "r < p \<and> p < p'"
proof -
  have "r \<le> correctnessBasePrice + 20"
    using assms(8,9)
    by (auto simp: CorrectnessSequences_def cxBasicMatch_def cxPriorityFill_def cxPartialFill_def cxCancel_def
        cxRejectMarketNoLiquidity_def step_prices_def expect_book_def expect_fill_def order_step_def
        cancel_step_def step0_def Let_def)
  with price_bands_apart[OF assms(1-7)] show ?thesis by simp
qed

end
