(* ===== verification/Pipeline.thy ===== *)
theory Pipeline
  imports SubmissionApi BuildService SandboxOrchestrator BotOrchestrator BotProperties Ingester
begin

text \<open>
  The services together. First the life of a submission on the topic \<open>submission.lifecycle\<close>: the
  submission API, the build service, the sandbox orchestrator and the bot orchestrator as one step
  relation over the topic, with every answer of Kubernetes, the object store and the broker, and every
  redelivery of a record. Then the end of a run: what a bot runner publishes, scored by the ingester.
\<close>

section \<open>The topic\<close>

text \<open>What the orchestrator's consumer makes of an event.\<close>

definition to_ready :: "LifecycleEvent \<Rightarrow> SandboxReadyEvent option" where
  "to_ready e = (case e of SandboxReady sub pod ip hp wp team t \<Rightarrow>
       Some \<lparr>e_SubmissionID = sub, e_PodName = pod, e_PodIP = ip, e_HTTPPort = hp, e_WSPort = wp, e_TeamName = team\<rparr>
     | _ \<Rightarrow> None)"

definition publish_test_complete :: "broker \<Rightarrow> int64 \<Rightarrow> TestCompleteEvent \<Rightarrow> LifecycleEvent \<times> publish_error option" where
  "publish_test_complete br at_time e =
     (let event = TestComplete (tc_SubmissionID e) (tc_TeamName e) (tc_Success e) (tc_Reason e) at_time
      in (event, publish br (tc_SubmissionID e) event))"

definition published :: "handled \<Rightarrow> LifecycleEvent list" where
  "published h = (case h of handled.Published e \<Rightarrow> [e] | _ \<Rightarrow> [])"

text \<open>What the reports of a test run, if it makes any, put on the topic.\<close>

definition test_reports :: "broker \<Rightarrow> int64 \<Rightarrow> action list \<Rightarrow> LifecycleEvent list" where
  "test_reports br at_time acts = List.map_filter (\<lambda>a. case a of
       PublishTestComplete tc \<Rightarrow> (case publish_test_complete br at_time tc of (e, None) \<Rightarrow> Some e | _ \<Rightarrow> None)
     | _ \<Rightarrow> None) acts"

text \<open>
  The topic with the API, the server of the bot orchestrator, and, as a record of the past, the tests that
  were started by \<open>POST /run\<close>, each with the number of events that the topic had then.
\<close>

record platform =
  front :: api
  server :: Server
  by_hand :: "(nat \<times> SandboxReadyEvent) set"

definition platform_start :: platform where
  "platform_start = \<lparr>front = api_start, server = new_server, by_hand = {}\<rparr>"

abbreviation add_events :: "LifecycleEvent list \<Rightarrow> platform \<Rightarrow> platform" where
  "add_events es s \<equiv> s\<lparr>front := (front s)\<lparr>topic := es @ topic (front s)\<rparr>\<rparr>"

text \<open>A record may be handled any number of times.\<close>

inductive platform_step :: "platform \<Rightarrow> platform \<Rightarrow> bool" where
  api: "api_step (front s) a \<Longrightarrow> platform_step s (s\<lparr>front := a\<rparr>)"
| build: "e \<in> set (topic (front s)) \<Longrightarrow> handle_submission m br t w (Some e) = (h, acts) \<Longrightarrow>
    platform_step s (add_events (published h) s)"
| sandbox: "e \<in> set (topic (front s)) \<Longrightarrow> handle_build_complete scfg endpoint br t sw (Some e) = (h, acts) \<Longrightarrow>
    platform_step s (add_events (published h) s)"
| test: "e \<in> set (topic (front s)) \<Longrightarrow> platform_step s (s\<lparr>server := on_record (\<lambda>_. Some (to_ready e)) r (server s)\<rparr>)"
| run: "runHandler is_post body (server s) = (code, srv) \<Longrightarrow>
    platform_step s (s\<lparr>server := srv,
      by_hand := (if code = 202 then insert (length (topic (front s)), with_defaults (the body)) (by_hand s) else by_hand s)\<rparr>)"
| finish: "ev \<in> set (tests (server s)) \<Longrightarrow>
    platform_step s (add_events (test_reports br t (Handle_test cfg tw ev)) (s\<lparr>server := test_done ev (server s)\<rparr>))"

inductive platform_reachable :: "platform \<Rightarrow> bool" where
  start: "platform_reachable platform_start"
| step: "platform_reachable s \<Longrightarrow> platform_step s s' \<Longrightarrow> platform_reachable s'"

section \<open>Causes\<close>

definition binary_path :: "string \<Rightarrow> string" where
  "binary_path u = ''builds/'' @ u @ ''/binary''"

definition was_created :: "LifecycleEvent set \<Rightarrow> string \<Rightarrow> string \<Rightarrow> string \<Rightarrow> bool" where
  "was_created old u lang team \<longleftrightarrow> (\<exists>t. SubmissionCreated u lang team (artifact_key u) t \<in> old)"

definition was_built :: "LifecycleEvent set \<Rightarrow> string \<Rightarrow> string \<Rightarrow> bool" where
  "was_built old u team \<longleftrightarrow> (\<exists>lang t. BuildComplete u (binary_path u) lang team t \<in> old)"

definition was_ready :: "LifecycleEvent set \<Rightarrow> string \<Rightarrow> string \<Rightarrow> string \<Rightarrow> bool" where
  "was_ready old u ip team \<longleftrightarrow> ip \<noteq> [] \<and> (\<exists>t. SandboxReady u (''sandbox-'' @ u) ip 8080 8080 team t \<in> old)"

text \<open>What answers for an event: the events before it, and the tests started by hand before it.\<close>

definition caused :: "SandboxReadyEvent set \<Rightarrow> LifecycleEvent set \<Rightarrow> LifecycleEvent \<Rightarrow> bool" where
  "caused runs old e = (case e of
      SubmissionCreated u lang team path t \<Rightarrow> valid_created e
    | BuildComplete u path lang team t \<Rightarrow> path = binary_path u \<and> was_created old u lang team
    | BuildFailed u reason t \<Rightarrow> length reason \<le> 4096 \<and> (\<exists>lang team. was_created old u lang team)
    | SandboxReady u pod ip hp wp team t \<Rightarrow> pod = ''sandbox-'' @ u \<and> ip \<noteq> [] \<and> hp = 8080 \<and> wp = 8080 \<and> was_built old u team
    | SandboxFailed u reason t \<Rightarrow> length reason \<le> 4096 \<and> (\<exists>team. was_built old u team)
    | TestComplete u team success reason t \<Rightarrow> (\<exists>ip. was_ready old u ip team) \<or>
        (\<exists>ev \<in> runs. e_SubmissionID ev = u \<and> e_TeamName ev = team))"

definition started_before :: "(nat \<times> SandboxReadyEvent) set \<Rightarrow> nat \<Rightarrow> SandboxReadyEvent set" where
  "started_before runs n = {ev. \<exists>k \<le> n. (k, ev) \<in> runs}"

fun causal :: "(nat \<times> SandboxReadyEvent) set \<Rightarrow> LifecycleEvent list \<Rightarrow> bool" where
  "causal runs [] = True"
| "causal runs (e # es) = (caused (started_before runs (length es)) (set es) e \<and> causal runs es)"

lemma caused_mono: "caused runs old e \<Longrightarrow> runs \<subseteq> runs' \<Longrightarrow> old \<subseteq> new \<Longrightarrow> caused runs' new e"
  unfolding caused_def was_created_def was_built_def was_ready_def
  by (cases e) (simp, simp, blast, (simp, blast)+)

lemma started_before_mono: "runs \<subseteq> runs' \<Longrightarrow> n \<le> m \<Longrightarrow> started_before runs n \<subseteq> started_before runs' m"
  unfolding started_before_def using order_trans by blast

lemma started_before_runs: "started_before runs n \<subseteq> snd ` runs"
  unfolding started_before_def by force

lemma causal_mono: "causal runs es \<Longrightarrow> runs \<subseteq> runs' \<Longrightarrow> causal runs' es"
  by (induction es) (auto elim!: caused_mono[OF _ started_before_mono[OF _ order_refl] subset_refl])

lemma causal_append:
  assumes "causal runs es" "\<forall>x \<in> set new. caused (started_before runs (length es)) (set es) x"
  shows "causal runs (new @ es)"
  using assms(2)
proof (induction new)
  case (Cons x new)
  have "caused (started_before runs (length (new @ es))) (set (new @ es)) x"
    by (rule caused_mono[OF _ started_before_mono[OF subset_refl]]) (use Cons.prems in auto)
  with Cons show ?case by simp
qed (simp add: assms(1))

lemma causal_before: "causal runs (newer @ e # older) \<Longrightarrow> caused (started_before runs (length older)) (set older) e"
  by (induction newer) auto

lemma causal_all: "causal runs es \<Longrightarrow> e \<in> set es \<Longrightarrow> caused (snd ` runs) (set es) e"
proof (induction es)
  case (Cons x es)
  from Cons.prems have "e = x \<and> caused (started_before runs (length es)) (set es) e \<or> caused (snd ` runs) (set es) e"
    using Cons.IH by auto
  then show ?case
    using caused_mono[OF _ started_before_runs, of runs "length es" "set es" e "set (x # es)"]
      caused_mono[OF _ subset_refl, of "snd ` runs" "set es" e "set (x # es)"] by auto
qed simp

text \<open>The tests of the server are for sandboxes that became ready, or were started by hand.\<close>

definition test_for :: "(nat \<times> SandboxReadyEvent) set \<Rightarrow> LifecycleEvent set \<Rightarrow> SandboxReadyEvent \<Rightarrow> bool" where
  "test_for runs old ev \<longleftrightarrow> (\<exists>x \<in> old. to_ready x = Some ev) \<or> ev \<in> snd ` runs"

definition platform_ok :: "platform \<Rightarrow> bool" where
  "platform_ok s \<longleftrightarrow> api_ok (front s) \<and> causal (by_hand s) (topic (front s)) \<and>
     (\<forall>(k, ev) \<in> by_hand s. k \<le> length (topic (front s))) \<and>
     list_all (test_for (by_hand s) (set (topic (front s)))) (tests (server s))"

lemma test_for_mono: "test_for runs old ev \<Longrightarrow> runs \<subseteq> runs' \<Longrightarrow> old \<subseteq> new \<Longrightarrow> test_for runs' new ev"
  unfolding test_for_def by blast

text \<open>
  The contract of a service that consumes the topic: an answer to an event of a causal topic has its
  cause there. Such a service keeps the platform well formed, whatever it is asked and how often.
\<close>

lemma platform_ok_add:
  assumes ok: "platform_ok s" and "\<forall>x \<in> set es. caused (started_before (by_hand s) (length (topic (front s)))) (set (topic (front s))) x"
    and "\<forall>x \<in> set es. valid_created x"
  shows "platform_ok (add_events es s)"
proof -
  have "causal (by_hand s) (es @ topic (front s))"
    using ok assms(2) by (intro causal_append) (simp_all add: platform_ok_def)
  moreover have "list_all (test_for (by_hand s) (set (es @ topic (front s)))) (tests (server s))"
    using ok by (auto simp: platform_ok_def list_all_iff intro: test_for_mono)
  ultimately show ?thesis using ok assms(3) by (auto simp: platform_ok_def api_ok_def list_all_iff)
qed

locale topic_service =
  fixes answer :: "LifecycleEvent \<Rightarrow> handled"
  assumes caused_answer: "causal runs es \<Longrightarrow> e \<in> set es \<Longrightarrow> answer e = h \<Longrightarrow>
    published h = [] \<or> (\<exists>x. published h = [x] \<and> caused {} (set es) x \<and> valid_created x)"
begin

lemma platform_answer:
  assumes "platform_ok s" "e \<in> set (topic (front s))"
  shows "platform_ok (add_events (published (answer e)) s)"
proof (rule platform_ok_add[OF assms(1)])
  have c: "causal (by_hand s) (topic (front s))" using assms(1) by (simp add: platform_ok_def)
  show "\<forall>x \<in> set (published (answer e)). caused (started_before (by_hand s) (length (topic (front s)))) (set (topic (front s))) x"
    using caused_answer[OF c assms(2) refl] caused_mono[OF _ empty_subsetI subset_refl] by auto
  show "\<forall>x \<in> set (published (answer e)). valid_created x" using caused_answer[OF c assms(2) refl] by auto
qed

end

lemma build_caused:
  assumes "causal runs es" "e \<in> set es" "fst (handle_submission m br t w (Some e)) = h"
  shows "published h = [] \<or> (\<exists>x. published h = [x] \<and> caused {} (set es) x \<and> valid_created x)"
proof -
  show ?thesis
  proof (cases e)
    case (SubmissionCreated u lang team path c)
    have "path = artifact_key u" using causal_all[OF assms(1,2)] by (simp add: SubmissionCreated caused_def valid_created_def)
    then have cr: "was_created (set es) u lang team" using assms(2) SubmissionCreated by (auto simp: was_created_def)
    obtain r a where b: "Build m w lang u = (r, a)" by (rule prod.exhaust)
    have len: "length (truncate_utf8 s 4096) \<le> 4096" for s using truncate_facts(1) .
    show ?thesis
    proof (cases r)
      case (Inl err)
      then show ?thesis using assms(3) cr b len[of err] unfolding SubmissionCreated
        by (auto simp: handle_submission_def PublishBuildFailed_def Let_def published_def caused_def valid_created_def split: if_splits)
    next
      case (Inr p)
      have "p = binary_path u" using Build_result(1,2)[OF b] Inr by (cases "build_succeeds w lang") (auto simp: binary_path_def)
      then show ?thesis using assms(3) cr b Inr unfolding SubmissionCreated
        by (auto simp: handle_submission_def PublishBuildComplete_def Let_def published_def caused_def valid_created_def
            split: option.splits)
    qed
  qed (use assms(3) in \<open>auto simp: handle_submission_def published_def\<close>)
qed

lemma sandbox_caused:
  assumes "causal runs es" "e \<in> set es" "fst (handle_build_complete cfg endpoint br t w (Some e)) = h"
  shows "published h = [] \<or> (\<exists>x. published h = [x] \<and> caused {} (set es) x \<and> valid_created x)"
proof -
  have len: "length (truncate_utf8 s 4096) \<le> 4096" for s using truncate_facts(1) .
  show ?thesis
  proof (cases e)
    case (BuildComplete u path lang team c)
    have "path = binary_path u" using causal_all[OF assms(1,2)] by (simp add: BuildComplete caused_def)
    then have bu: "was_built (set es) u team" using assms(2) BuildComplete by (auto simp: was_built_def)
    obtain r a where d: "Deploy cfg endpoint w u path = (r, a)" by (rule prod.exhaust)
    show ?thesis
    proof (cases r)
      case (Inl err)
      then show ?thesis using assms(3) bu d len[of "d_text err"] unfolding BuildComplete
        by (auto simp: handle_build_complete_def PublishSandboxFailed_def Let_def published_def caused_def valid_created_def
            split: if_splits)
    next
      case (Inr v)
      then obtain ip where "ip \<noteq> []" "v = \<lparr>d_PodName = ''sandbox-'' @ u, d_PodIP = ip\<rparr>"
        using d by (rule_tac Deploy_cases[of path cfg endpoint w u]) (auto simp: pod_ready_def)
      then show ?thesis using assms(3) bu d Inr unfolding BuildComplete
        by (auto simp: handle_build_complete_def PublishSandboxReady_def Let_def published_def caused_def valid_created_def
            split: option.splits)
    qed
  qed (use assms(3) in \<open>auto simp: handle_build_complete_def published_def\<close>)
qed

interpretation builds: topic_service "\<lambda>e. fst (handle_submission m br t w (Some e))" for m br t w
  by unfold_locales (rule build_caused)

interpretation sandboxes: topic_service "\<lambda>e. fst (handle_build_complete cfg endpoint br t w (Some e))" for cfg endpoint br t w
  by unfold_locales (rule sandbox_caused)

lemma api_causal:
  assumes "api_step a b" "api_ok a" "causal runs (topic a)"
  shows "causal runs (topic b) \<and> (\<exists>new. topic b = new @ topic a)"
  using assms
proof (induction rule: api_step.induct)
  case (confirm i a br t pc ps tp)
  have "valid_pc (confirms a ! i)" using confirm by (simp add: api_ok_def list_all_length)
  with confirm_step_ok[OF confirm(2)] confirm show ?case
    by (auto simp: api_ok_def caused_def split: LifecycleEvent.splits)
qed simp_all

lemma runTest_reports_nothing: "PublishTestComplete tc \<notin> set (snd (runTest cfg tw ev))"
  by (cases "w_create tw") (simp_all add: runTest_def deleteJob_def Let_def)

lemma tests_report: "PublishTestComplete tc \<in> set (Handle_test cfg tw ev) \<Longrightarrow>
    tc_SubmissionID tc = e_SubmissionID ev \<and> tc_TeamName tc = e_TeamName ev"
  using runTest_reports_nothing[of tc cfg tw ev]
  by (cases "runTest cfg tw ev")
    (simp add: Handle_test_def deleteSandboxPod_def PublishTestComplete_call_def split: if_splits)

lemma test_reports_of:
  assumes "x \<in> set (test_reports br t (Handle_test cfg tw ev))"
  shows "\<exists>success reason. x = TestComplete (e_SubmissionID ev) (e_TeamName ev) success reason t"
proof -
  obtain a where a: "a \<in> set (Handle_test cfg tw ev)"
    "(case a of PublishTestComplete tc \<Rightarrow> (case publish_test_complete br t tc of (e, None) \<Rightarrow> Some e | _ \<Rightarrow> None) | _ \<Rightarrow> None) = Some x"
    using assms by (auto simp: test_reports_def List.map_filter_def split: option.splits)
  then obtain tc where tc: "a = PublishTestComplete tc" "publish_test_complete br t tc = (x, None)"
    by (auto split: action.splits prod.splits option.splits)
  with tests_report[of tc cfg tw ev] a(1) show ?thesis
    by (auto simp: publish_test_complete_def Let_def)
qed

lemma tests_after_record: "ev \<in> set (tests (on_record d r s)) \<Longrightarrow> ev \<in> set (tests s) \<or> d r = Some (Some ev)"
  by (auto simp: on_record_def admit_def split: option.splits if_splits)

lemma tests_after_run: "runHandler is_post body s = (code, s') \<Longrightarrow>
    ev \<in> set (tests s') \<Longrightarrow> ev \<in> set (tests s) \<or> code = 202 \<and> ev = with_defaults (the body)"
  by (auto simp: runHandler_def admit_def split: option.splits if_splits)

text \<open>The event behind a test that came in from the topic.\<close>

lemma test_from_topic:
  assumes "causal runs es" "x \<in> set es" "to_ready x = Some ev"
  shows "was_ready (set es) (e_SubmissionID ev) (e_PodIP ev) (e_TeamName ev) \<and> e_WSPort ev = 8080"
  using causal_all[OF assms(1,2)] assms(2,3) by (cases x) (auto simp: to_ready_def caused_def was_ready_def)

lemma platform_ok_step: "platform_step s s' \<Longrightarrow> platform_ok s \<Longrightarrow> platform_ok s'"
proof (induction rule: platform_step.induct)
  case (api s a)
  then obtain new where "causal (by_hand s) (topic a)" "topic a = new @ topic (front s)" "api_ok a"
    using api_causal[OF api(1), of "by_hand s"] api_ok_step[OF api(1)] by (auto simp: platform_ok_def)
  with api show ?case by (fastforce simp: platform_ok_def list_all_iff intro: test_for_mono)
next
  case (build e s m br t w h acts)
  then show ?case using builds.platform_answer[OF build(3,1), of m br t w] by simp
next
  case (sandbox e s scfg endpoint br t sw h acts)
  then show ?case using sandboxes.platform_answer[OF sandbox(3,1), of scfg endpoint br t sw] by simp
next
  case (test e s r)
  then show ?case by (auto simp: platform_ok_def list_all_iff test_for_def dest!: tests_after_record)
next
  case (run is_post body s code srv)
  let ?runs = "if code = 202 then insert (length (topic (front s)), with_defaults (the body)) (by_hand s) else by_hand s"
  have sub: "by_hand s \<subseteq> ?runs" by auto
  have "test_for ?runs (set (topic (front s))) ev" if "ev \<in> set (tests srv)" for ev
    using tests_after_run[OF run(1) that] run(2) test_for_mono[OF _ sub subset_refl]
    by (auto simp: platform_ok_def list_all_iff test_for_def)
  moreover have "causal ?runs (topic (front s))" using run(2) sub by (auto simp: platform_ok_def intro: causal_mono)
  ultimately show ?case using run(2) by (auto simp: platform_ok_def list_all_iff)
next
  case (finish ev s br t cfg tw)
  have c: "causal (by_hand s) (topic (front s))" and l: "\<forall>(k, ev) \<in> by_hand s. k \<le> length (topic (front s))"
    and ev: "test_for (by_hand s) (set (topic (front s))) ev"
    using finish by (simp_all add: platform_ok_def list_all_iff)
  have ok: "platform_ok (s\<lparr>server := test_done ev (server s)\<rparr>)"
    using finish set_remove1_subset[of ev "tests (server s)"] by (auto simp: platform_ok_def test_done_def list_all_iff)
  have "(\<exists>ip. was_ready (set (topic (front s))) (e_SubmissionID ev) ip (e_TeamName ev)) \<or>
      ev \<in> started_before (by_hand s) (length (topic (front s)))"
    using ev l test_from_topic[OF c] by (fastforce simp: test_for_def started_before_def)
  then have "caused (started_before (by_hand s) (length (topic (front s)))) (set (topic (front s))) x \<and> valid_created x"
    if "x \<in> set (test_reports br t (Handle_test cfg tw ev))" for x
    using test_reports_of[OF that] by (auto simp: caused_def valid_created_def)
  then show ?case using platform_ok_add[OF ok] by simp
qed

lemma platform_reachable_ok: "platform_reachable s \<Longrightarrow> platform_ok s"
proof (induction rule: platform_reachable.induct)
  case start
  then show ?case by (simp add: platform_ok_def api_ok_def platform_start_def api_start_def new_server_def)
qed (rule platform_ok_step)

lemma api_in_platform: "api_reachable a \<Longrightarrow> platform_reachable (platform_start\<lparr>front := a\<rparr>)"
proof (induction rule: api_reachable.induct)
  case start
  show ?case using platform_reachable.start by (simp add: platform_start_def)
next
  case (step a b)
  from platform_reachable.step[OF step.IH platform_step.api, of b] step(2) show ?case by simp
qed

lemma uuid_path: "uuid_text u \<Longrightarrow> binaryPathRegex (binary_path u)"
proof -
  assume "uuid_text u"
  then have "list_all path_char u"
    by (auto simp: uuid_text_def list_all_iff uuid_char_def path_char_def Let_def)
  then show ?thesis by (simp add: binary_path_def binaryPathRegex_def path_char_def)
qed

lemma created_valid: "causal runs es \<Longrightarrow> was_created (set es) u lang team \<Longrightarrow>
    valid_pending u \<lparr>ps_Language = lang, ps_TeamName = team\<rparr>"
  using causal_all[of runs es] by (fastforce simp: was_created_def caused_def valid_created_def)

lemma built_valid: "causal runs es \<Longrightarrow> was_built (set es) u team \<Longrightarrow> \<exists>lang. was_created (set es) u lang team"
  using causal_all[of runs es] by (fastforce simp: was_built_def caused_def)

lemma ready_valid: "causal runs es \<Longrightarrow> was_ready (set es) u ip team \<Longrightarrow> was_built (set es) u team"
  using causal_all[of runs es] by (fastforce simp: was_ready_def caused_def)

text \<open>The id and the team of a test that came in from the topic have no dollar sign.\<close>

lemma topic_event_plain:
  assumes "platform_reachable s" "ev \<in> set (tests (server s))" "ev \<notin> snd ` by_hand s"
  shows "CHR ''$'' \<notin> set (e_SubmissionID ev) \<union> set (e_TeamName ev)"
proof -
  have ok: "causal (by_hand s) (topic (front s))" using platform_reachable_ok[OF assms(1)] by (simp add: platform_ok_def)
  obtain x where "x \<in> set (topic (front s))" "to_ready x = Some ev"
    using platform_reachable_ok[OF assms(1)] assms(2,3) by (auto simp: platform_ok_def list_all_iff test_for_def)
  note r = test_from_topic[OF ok this]
  obtain lang where "was_created (set (topic (front s))) (e_SubmissionID ev) lang (e_TeamName ev)"
    using built_valid[OF ok ready_valid[OF ok]] r by blast
  then have "list_all uuid_char (e_SubmissionID ev)" "list_all team_char (e_TeamName ev)"
    using created_valid[OF ok] by (simp_all add: valid_pending_def uuid_text_def teamNameRe_def)
  moreover have "\<not> uuid_char (CHR ''$'')" "\<not> team_char (CHR ''$'')" by (simp_all add: uuid_char_def team_char_def Let_def)
  ultimately show ?thesis by (auto simp: list_all_iff)
qed

section \<open>Properties of the topic\<close>

text \<open>C24: Every event on the topic has its cause before it, however the services interleave, whatever
  fails, and however often records are redelivered: a submission was initiated with a known language, a
  valid team name and a fresh id; a binary or a failed build answers a submission, with its language
  and team; a sandbox answers a binary, with its team and the name of its own pod; and a test report
  has before it a sandbox that was ready, of the same submission and team, or a \<open>POST /run\<close> that was
  accepted with this id and team. The second kind of report need not have anything else on the topic: a
  run by hand may name any submission, or none.\<close>

theorem lifecycle_causal:
  assumes "platform_reachable s" "topic (front s) = newer @ e # older"
  shows "caused (started_before (by_hand s) (length older)) (set older) e"
proof -
  have "causal (by_hand s) (topic (front s))" using platform_reachable_ok[OF assms(1)] by (simp add: platform_ok_def)
  then show ?thesis unfolding assms(2) by (rule causal_before)
qed

text \<open>Two runs of the platform: a submission that is built, and a test by hand on an empty topic.\<close>

definition demo_built :: LifecycleEvent where
  "demo_built = BuildComplete demo_uuid (binary_path demo_uuid) ''go'' ''team'' 7"

definition built_platform :: platform where
  "built_platform = platform_start\<lparr>front := demo_api\<lparr>topic := [demo_built, demo_created, demo_created]\<rparr>\<rparr>"

lemma built_platform_run: "platform_reachable built_platform"
proof -
  have "handle_submission 4096 open_broker 7 good_build (Some demo_created) =
    (handled.Published demo_built, snd (handle_submission 4096 open_broker 7 good_build (Some demo_created)))"
    by (simp add: handle_submission_def demo_created_def Build_def buildImages_def buildCommands_def good_build_def Let_def
        waitForPodCompletion_def PublishBuildComplete_def publish_def open_broker_def binary_path_def demo_built_def)
  from platform_reachable.step[OF api_in_platform[OF double_confirm_run] platform_step.build[OF _ this]]
  show ?thesis by (simp add: published_def demo_api_def built_platform_def)
qed

definition manual_event :: SandboxReadyEvent where
  "manual_event = with_defaults \<lparr>e_SubmissionID = [], e_PodName = [], e_PodIP = [], e_HTTPPort = 0, e_WSPort = 0, e_TeamName = []\<rparr>"

definition manual_report :: LifecycleEvent where
  "manual_report = TestComplete ''manual-run'' ''manual-team'' True [] 3"

definition manual_platform :: platform where
  "manual_platform = \<lparr>front = api_start\<lparr>topic := [manual_report]\<rparr>, server = new_server, by_hand = {(0, manual_event)}\<rparr>"

lemma manual_platform_run: "platform_reachable manual_platform"
proof -
  let ?body = "\<lparr>e_SubmissionID = [], e_PodName = [], e_PodIP = [], e_HTTPPort = 0, e_WSPort = 0, e_TeamName = []\<rparr>"
  let ?srv = "\<lparr>activeTests = {''manual-run''}, tests = [manual_event]\<rparr>"
  let ?s = "\<lparr>front = api_start, server = ?srv, by_hand = {(0, manual_event)}\<rparr>"
  have ev: "e_SubmissionID manual_event = ''manual-run''" "e_TeamName manual_event = ''manual-team''" "e_PodName manual_event = []"
    by (simp_all add: manual_event_def with_defaults_def Let_def)
  have "runHandler True (Some ?body) new_server = (202, ?srv)"
    by (simp add: runHandler_def admit_def new_server_def manual_event_def[symmetric] ev)
  from platform_reachable.step[OF platform_reachable.start, OF platform_step.run[of True "Some ?body" platform_start 202 ?srv]] this
  have "platform_reachable ?s" by (simp add: platform_start_def manual_event_def[symmetric] api_start_def)
  moreover have "runTest demo_cfg good_test manual_event = (None, snd (runTest demo_cfg good_test manual_event))"
    by (simp add: runTest_def good_test_def done_by_def waitForJob_def Let_def)
  then have "test_reports open_broker 3 (Handle_test demo_cfg good_test manual_event) = [manual_report]"
    by (simp add: Handle_test_def ev runTest_def good_test_def done_by_def waitForJob_def deleteJob_def deleteSandboxPod_def
        PublishTestComplete_call_def test_reports_def List.map_filter_def publish_test_complete_def publish_def open_broker_def
        manual_report_def Let_def)
  moreover have "test_done manual_event ?srv = new_server" by (simp add: test_done_def ev new_server_def)
  ultimately show ?thesis
    using platform_reachable.step[OF _ platform_step.finish[of manual_event ?s open_broker 3 demo_cfg good_test]]
    by (simp add: manual_platform_def api_start_def)
qed

theorem lifecycle_causal_witness:
  "platform_reachable built_platform \<and> caused {} {demo_created} demo_built \<and>
   platform_reachable manual_platform \<and> caused {manual_event} {} manual_report"
proof -
  have "started_before (by_hand built_platform) 2 = {}" "started_before (by_hand manual_platform) 0 = {manual_event}"
    by (auto simp: started_before_def built_platform_def platform_start_def manual_platform_def)
  then show ?thesis
    using lifecycle_causal[OF built_platform_run, of "[]" demo_built "[demo_created, demo_created]"]
      lifecycle_causal[OF manual_platform_run, of "[]" manual_report "[]"] built_platform_run manual_platform_run
    by (simp add: built_platform_def manual_platform_def numeral_2_eq_2)
qed

text \<open>C26: The checks of the later services never fire. The language of every submission on the topic has
  an image and a build command; the path of every binary passes the expression that keeps it out of the
  shell command of the sandbox; and every test of the orchestrator that was not started by hand has an
  id, a team, an address and the port 8080, because every event that the sandbox orchestrator publishes
  has, so that none of the defaults for runs by hand would change it.\<close>

theorem later_checks_never_fire:
  assumes "platform_reachable s"
  shows "(SubmissionCreated u lang team path t \<in> set (topic (front s)) \<longrightarrow> buildImages lang \<noteq> None \<and> buildCommands lang \<noteq> None) \<and>
    (BuildComplete u path lang team t \<in> set (topic (front s)) \<longrightarrow> (\<exists>p. createSandboxPod cfg endpoint name path = Inr p)) \<and>
    (ev \<in> set (tests (server s)) \<and> ev \<notin> snd ` by_hand s \<longrightarrow>
       uuid_text (e_SubmissionID ev) \<and> teamNameRe (e_TeamName ev) \<and> e_PodIP ev \<noteq> [] \<and> e_WSPort ev = 8080 \<and>
       with_defaults ev = ev)"
proof (intro conjI impI)
  have ok: "causal (by_hand s) (topic (front s))" using platform_reachable_ok[OF assms] by (simp add: platform_ok_def)
  { assume "SubmissionCreated u lang team path t \<in> set (topic (front s))"
    from causal_all[OF ok this] have "allowedLanguages lang" by (simp add: caused_def valid_created_def valid_pending_def)
    then show "buildImages lang \<noteq> None" "buildCommands lang \<noteq> None" by (auto simp: languages allowedLanguages_def) }
  { assume "BuildComplete u path lang team t \<in> set (topic (front s))"
    from causal_all[OF ok this] have "path = binary_path u" "was_created (set (topic (front s))) u lang team"
      by (simp_all add: caused_def)
    then show "\<exists>p. createSandboxPod cfg endpoint name path = Inr p"
      using created_valid[OF ok] uuid_path createSandboxPod_ok by (simp add: valid_pending_def) }
  assume "ev \<in> set (tests (server s)) \<and> ev \<notin> snd ` by_hand s"
  with platform_reachable_ok[OF assms] obtain x where "x \<in> set (topic (front s))" "to_ready x = Some ev"
    by (auto simp: platform_ok_def list_all_iff test_for_def)
  note r = test_from_topic[OF ok this]
  obtain lang where "was_created (set (topic (front s))) (e_SubmissionID ev) lang (e_TeamName ev)"
    using built_valid[OF ok ready_valid[OF ok]] r by blast
  then show i: "uuid_text (e_SubmissionID ev)" "teamNameRe (e_TeamName ev)"
    using created_valid[OF ok] by (simp_all add: valid_pending_def)
  show p: "e_PodIP ev \<noteq> []" "e_WSPort ev = 8080" using r by (simp_all add: was_ready_def)
  show "with_defaults ev = ev"
    using i p by (auto simp: with_defaults_def Let_def uuid_text_def teamNameRe_def)
qed

text \<open>A run as far as a test: the sandbox of the binary becomes ready, and the orchestrator admits it.\<close>

definition demo_sandbox_ready :: LifecycleEvent where
  "demo_sandbox_ready = SandboxReady demo_uuid (''sandbox-'' @ demo_uuid) ''10.0.0.7'' 8080 8080 ''team'' 8"

definition tested_platform :: platform where
  "tested_platform = built_platform
     \<lparr>front := demo_api\<lparr>topic := [demo_sandbox_ready, demo_built, demo_created, demo_created]\<rparr>,
      server := \<lparr>activeTests = {demo_uuid}, tests = [the (to_ready demo_sandbox_ready)]\<rparr>\<rparr>"

lemma tested_platform_run: "platform_reachable tested_platform"
proof -
  have "uuid_text demo_uuid" by code_simp
  then have b: "binaryPathRegex (binary_path demo_uuid)" by (rule uuid_path)
  obtain p where p: "createSandboxPod demo_sandbox ''http://s3'' (''sandbox-'' @ demo_uuid) (binary_path demo_uuid) = Inr p"
    using createSandboxPod_ok[OF b] by blast
  have "Deploy demo_sandbox ''http://s3'' ready_world demo_uuid (binary_path demo_uuid) =
      (Inr \<lparr>d_PodName = ''sandbox-'' @ demo_uuid, d_PodIP = ''10.0.0.7''\<rparr>, [CreatePod p])"
    unfolding Deploy_def Let_def p by (simp add: ready_world_def waitForPodRunning_def)
  then have "handle_build_complete demo_sandbox ''http://s3'' open_broker 8 ready_world (Some demo_built) =
      (handled.Published demo_sandbox_ready, [CreatePod p])"
    by (simp add: handle_build_complete_def demo_built_def PublishSandboxReady_def publish_def open_broker_def
        demo_sandbox_ready_def Let_def)
  from platform_reachable.step[OF built_platform_run platform_step.sandbox[OF _ this]]
  have "platform_reachable (built_platform\<lparr>front := demo_api\<lparr>topic := [demo_sandbox_ready, demo_built, demo_created, demo_created]\<rparr>\<rparr>)"
    by (simp add: built_platform_def platform_start_def published_def)
  from platform_reachable.step[OF this platform_step.test[where e = demo_sandbox_ready]]
  show ?thesis
    by (simp add: tested_platform_def built_platform_def platform_start_def on_record_def admit_def new_server_def
        to_ready_def demo_sandbox_ready_def)
qed

theorem later_checks_never_fire_witness:
  "platform_reachable tested_platform \<and> buildImages ''go'' \<noteq> None \<and>
   with_defaults (the (to_ready demo_sandbox_ready)) = the (to_ready demo_sandbox_ready)"
proof -
  have "demo_created \<in> set (topic (front tested_platform))" "the (to_ready demo_sandbox_ready) \<in> set (tests (server tested_platform))"
    "by_hand tested_platform = {}"
    by (simp_all add: tested_platform_def built_platform_def platform_start_def)
  then show ?thesis
    using later_checks_never_fire[OF tested_platform_run, of demo_uuid "''go''" "''team''" "artifact_key demo_uuid" 0
        demo_sandbox "''http://s3''" "[]" "the (to_ready demo_sandbox_ready)"] tested_platform_run
    by (simp add: demo_created_def)
qed

section \<open>The hardening of the pods\<close>

text \<open>C30: The hardening of the pods. Every container of a build pod runs without root, new privileges,
  capabilities and a writable root, under a seccomp and an AppArmor profile. Of the sandbox pod, which
  gets no service account token, that holds of the container that runs the submission, whatever the
  configuration, but not of the container that downloads it.\<close>

theorem pods_hardened:
  "list_all restricted (p_InitContainers (createBuildPod name img cmd src upl) @ p_Containers (createBuildPod name img cmd src upl)) \<and>
   (createSandboxPod cfg endpoint name path = Inr p \<longrightarrow>
      p_Automount p = Some False \<and> list_all restricted (p_Containers p) \<and> p_InitContainers p \<noteq> [] \<and>
      \<not> list_ex restricted (p_InitContainers p))"
  by (auto simp: createBuildPod_def createSandboxPod_def restricted_def build_secctx_def download_source_def build_container_def
      upload_binary_def container0_def init_download_def init_secctx_def sandbox_container_def Let_def split: if_splits)

theorem pods_hardened_witness:
  "p_Automount (projr (createSandboxPod demo_sandbox ''http://s3'' ''sandbox-s1'' ''builds/s1/binary'')) = Some False"
proof -
  have "binaryPathRegex ''builds/s1/binary''" by code_simp
  then obtain p where p: "createSandboxPod demo_sandbox ''http://s3'' ''sandbox-s1'' ''builds/s1/binary'' = Inr p"
    using createSandboxPod_ok by blast
  with pods_hardened[where cfg = demo_sandbox and endpoint = "''http://s3''" and name = "''sandbox-s1''" and
    path = "''builds/s1/binary''" and p = p]
  show ?thesis by simp
qed

section \<open>From a run to the leaderboard\<close>

text \<open>C25: What a bot runner publishes at the end of a run reaches the leaderboard. When the run has a
  submission, took a positive time and its histograms hold 64-bit numbers, the record has the submission
  as its key; with the correctness of any exam and a configuration whose limits are numbers, its score is a
  number between 0 and 1, the entry marshals, and with Redis up the leaderboard has the submission at
  1000 times the score.\<close>

theorem run_reaches_leaderboard:
  assumes "finish_run lib False elapsed bots cfg (Score (fst (Run reads t exam))) emitted True encodes produces =
      Inr (publish_result.Published key msg)"
    "0 < elapsed" "elapsed < 2 ^ 63" "int64_range (ordersSent (merge lib bots))"
    "\<forall>q. int64_range (ValueAtQuantile lib q (ackLatency (merge lib bots)))"
    "maxAcceptableLatencyUS icfg \<noteq> NaN" "\<not> config_refused icfg" "maxAcceptableTPS icfg = Fin m" "0 < m"
  shows "key = rc_submissionID cfg \<and> (\<exists>r b'. computeScore icfg (BotMetricsEvent.truncate msg) = Fin r \<and> 0 \<le> r \<and> r \<le> 1 \<and>
    updateLeaderboard stamp True (BotMetricsEvent.truncate msg) (Fin r) b = (None, b') \<and>
    leaderboard b' (rc_submissionID cfg) = Some (fmul (Fin r) (Fin 1000)))"
proof -
  let ?e = "BotMetricsEvent.truncate msg"
  have msg: "key = rc_submissionID cfg"
    "msg = metrics_event lib (merge lib bots) elapsed (rc_teamName cfg) (rc_submissionID cfg) (rc_submissionID cfg)
      (Score (fst (Run reads t exam))) emitted"
    using assms(1) by (auto simp: finish_run_def publishMetrics_def Let_def split: if_splits)
  then have e: "SubmissionId ?e = rc_submissionID cfg" "Tps ?e = metrics_tps (merge lib bots) elapsed"
    "CorrectnessScore ?e = Score (fst (Run reads t exam))"
    "int64_range (AckP50Us ?e)" "int64_range (AckP90Us ?e)" "int64_range (AckP99Us ?e)"
    using assms(5) by (simp_all add: metrics_event_def BotMetricsEvent.truncate_def)
  have tps: "is_fin (Tps ?e)" unfolding e(2) by (rule metrics_tps_fin[OF assms(4,2,3)])
  obtain c where c: "CorrectnessScore ?e = Fin c" "0 \<le> c" "c \<le> 1"
    using Run_score_unit[of reads t exam] unfolding e(3) by (auto simp: unit_float_def)
  then have nan: "CorrectnessScore ?e \<noteq> NaN" by simp
  from computeScore_unit[OF e(4-6) assms(6,7) tps assms(8,9) nan]
  obtain r where r: "computeScore icfg ?e = Fin r" "0 \<le> r" "r \<le> 1" by (auto simp: unit_float_def)
  have "marshals (entry_of stamp ?e (Fin r))"
    using tps c by (simp add: marshals_def entry_of_def fmin_def fmax_def)
  then show ?thesis using msg(1) r e(1) by (simp add: updateLeaderboard_def Let_def)
qed

definition sample_lib :: "int list histogram_lib" where
  "sample_lib = \<lparr>new_histogram = [], RecordValue = (\<lambda>v h. v # h), MergeInto = (\<lambda>a b. (a @ b, 0)),
     ValueAtQuantile = (\<lambda>q h. foldr max h 0), MaxValue = (\<lambda>h. foldr max h 0)\<rparr>"

definition sample_bot :: "int list BotMetrics" where
  "sample_bot = \<lparr>ackLatency = [120, 80], fillLatency = [], ordersSent = 2, acksRecv = 2, fillsRecv = 0, rejectsRecv = 0,
     staleOrders = 0\<rparr>"

definition sample_settings :: runner_settings where
  "sample_settings = runner_config ((\<lambda>_. [])(''TEST_RUN_ID'' := ''s1'', ''TEAM_NAME'' := ''team''))"

theorem run_reaches_leaderboard_witness:
  "\<exists>key msg r b'. finish_run sample_lib False (10 ^ 9) [sample_bot] sample_settings
       (Score (fst (Run (\<lambda>_ _. 3) spec_target spec_start))) 7 True (\<lambda>_. True) True = Inr (publish_result.Published key msg) \<and>
     computeScore demo_config (BotMetricsEvent.truncate msg) = Fin r \<and> 0 \<le> r \<and> r \<le> 1 \<and>
     leaderboard b' ''s1'' = Some (fmul (Fin r) (Fin 1000)) \<and>
     updateLeaderboard [] True (BotMetricsEvent.truncate msg) (Fin r)
       \<lparr>leaderboard = Map.empty, leaderboard_details = Map.empty, leaderboard_updates = []\<rparr> = (None, b')"
proof -
  let ?score = "Score (fst (Run (\<lambda>_ _. 3) spec_target spec_start))"
  have id: "rc_submissionID sample_settings = ''s1''"
    by (simp add: sample_settings_def runner_config_def envStr_def)
  have ranges: "int64_range (ordersSent (merge sample_lib [sample_bot]))"
    "\<forall>q. int64_range (ValueAtQuantile sample_lib q (ackLatency (merge sample_lib [sample_bot])))"
    by (simp_all add: merge_def merge_start_def merge_one_def sample_lib_def sample_bot_def int64_range_def)
  have cfg: "maxAcceptableLatencyUS demo_config \<noteq> NaN" "\<not> config_refused demo_config"
    "maxAcceptableTPS demo_config = Fin 1000"
    by (simp_all add: demo_config_def config_refused_def fle_def feq_def)
  obtain msg where f: "finish_run sample_lib False (10 ^ 9) [sample_bot] sample_settings ?score 7 True (\<lambda>_. True) True =
      Inr (publish_result.Published ''s1'' msg)"
    by (simp add: finish_run_def publishMetrics_def Let_def id)
  show ?thesis
    using run_reaches_leaderboard[OF f _ _ ranges cfg, of "[]"
        "\<lparr>leaderboard = Map.empty, leaderboard_details = Map.empty, leaderboard_updates = []\<rparr>"] f id by auto
qed

end
