(* ===== verification/RunnerStart.thy ===== *)
theory RunnerStart
  imports ServiceSettings ProcessStart Pipeline
begin

text \<open>
  The bot runner as a whole (\<open>services/bot-runner/main.go\<close>): its start, the URL that \<open>NewCorrectnessBot\<close> makes for
  the book, \<open>queryOrderbook\<close>, and \<open>run\<close> from the environment to the published event.
\<close>

section \<open>The correctness bot's client\<close>

text \<open>\<open>strings.Replace\<close> of the first occurrence of a text that is not empty, and \<open>strings.TrimSuffix\<close>.\<close>

fun Replace1 :: "string \<Rightarrow> string \<Rightarrow> string \<Rightarrow> string" where
  "Replace1 old new [] = []"
| "Replace1 old new (c # cs) =
     (if take (length old) (c # cs) = old then new @ drop (length old) (c # cs) else c # Replace1 old new cs)"

definition TrimSuffix :: "string \<Rightarrow> string \<Rightarrow> string" where
  "TrimSuffix s suf =
     (if length suf \<le> length s \<and> drop (length s - length suf) s = suf then take (length s - length suf) s else s)"

record correctness_bot =
  cb_endpoint :: string
  cb_httpBase :: string

definition NewCorrectnessBot :: "string \<Rightarrow> correctness_bot" where
  "NewCorrectnessBot wsEndpoint =
     \<lparr>cb_endpoint = wsEndpoint, cb_httpBase = TrimSuffix (Replace1 ''ws://'' ''http://'' wsEndpoint) ''/stream''\<rparr>"

text \<open>
  \<open>get\<close> is the HTTP client: an error, or a status and a body, which is \<open>None\<close> when it is no snapshot and
  otherwise the number of levels on each side.
\<close>

definition queryOrderbook :: "(string \<Rightarrow> string + int \<times> (nat \<times> nat) option) \<Rightarrow> correctness_bot \<Rightarrow> string + nat \<times> nat" where
  "queryOrderbook get cb =
     (case get (cb_httpBase cb @ ''/orderbook'') of
        Inl e \<Rightarrow> Inl e
      | Inr (status, body) \<Rightarrow>
          if status \<noteq> 200 then Inl (''status '' @ show_int status)
          else (case body of None \<Rightarrow> Inl ''decode'' | Some counts \<Rightarrow> Inr counts))"

section \<open>The program\<close>

datatype runner_error = StartFailed string | RunFailed run_error

text \<open>
  \<open>correctness\<close> is the first phase with the bot for the endpoint, \<open>run_bot i seq\<close> what load bot \<open>i\<close> has measured
  with its sequence when it returns. A negative number of bots makes \<open>run\<close> panic, after the first phase.
\<close>

definition runner_main :: "environment \<Rightarrow> (string \<Rightarrow> string option) \<Rightarrow> (correctness_bot \<Rightarrow> CorrectnessResult) \<Rightarrow>
    (nat \<Rightarrow> Sequence \<Rightarrow> 'h BotMetrics) \<Rightarrow> 'h histogram_lib \<Rightarrow> bool \<Rightarrow> int \<Rightarrow> int64 \<Rightarrow>
    (metrics_message \<Rightarrow> bool) \<Rightarrow> bool \<Rightarrow> runner_error + publish_result" where
  "runner_main env fails correctness run_bot lib test_over elapsed emitted encodes produces =
     (let cfg = runner_config env in
      case fst (bot_runner_run env fails None) of
        Some e \<Rightarrow> Inl (StartFailed e)
      | None \<Rightarrow>
          let result = correctness (NewCorrectnessBot (rc_endpoint cfg)) in
          (case plan_bots (rc_numBots cfg) of
             None \<Rightarrow> Inl (RunFailed BotsPanic)
           | Some bots \<Rightarrow>
               (case finish_run lib test_over elapsed (map (\<lambda>(i, seq). run_bot i seq) (List.enumerate 0 bots)) cfg (Score result)
                   emitted (rc_brokers cfg \<noteq> []) encodes produces of
                  Inl e \<Rightarrow> Inl (RunFailed e) | Inr r \<Rightarrow> Inr r)))"

section \<open>What they show\<close>

lemma TrimSuffix_append: "TrimSuffix (s @ t) t = s"
  by (simp add: TrimSuffix_def)

text \<open>The book is asked for at the host and port of the stream.\<close>

lemma correctness_url: "cb_httpBase (NewCorrectnessBot (''ws://'' @ host @ ''/stream'')) = ''http://'' @ host"
proof -
  have "Replace1 ''ws://'' ''http://'' (''ws://'' @ host @ ''/stream'') = (''http://'' @ host) @ ''/stream''" by simp
  then show ?thesis by (simp only: NewCorrectnessBot_def correctness_bot.select_convs TrimSuffix_append)
qed

text \<open>What the planned bots measure, bot by bot.\<close>

lemma planned_metrics:
  "map (\<lambda>(i, seq). run_bot i seq) (List.enumerate 0 (map (\<lambda>i. sequences i ! nat (i mod 3)) [0..n - 1])) =
   map (\<lambda>i. run_bot i (sequences (int i) ! (i mod 3))) [0..<nat n]"
  by (rule nth_equalityI) (simp_all add: nth_enumerate_eq nat_mod_as_int)

section \<open>Property\<close>

text \<open>C38: From the Job to the topic. The bot runner that the orchestrator starts for a sandbox with an id and a
  team, for any environment of the orchestrator, asks for the book at the address of the pod. When its
  start succeeds and its time is not up, it panics for a negative number of bots, publishes nothing when
  the orchestrator has no brokers, and otherwise publishes one event under the submission's id, if the
  event can be encoded and sent, with the team of the event and the score of the first phase. The orders
  it reports are those of as many bots as the settings of the orchestrator say, each with the sequence
  of its number.\<close>

theorem job_publishes_metrics:
  fixes env :: environment and event :: SandboxReadyEvent and correctness :: "correctness_bot \<Rightarrow> CorrectnessResult"
    and run_bot :: "nat \<Rightarrow> Sequence \<Rightarrow> 'h BotMetrics" and lib :: "'h histogram_lib" and elapsed :: int and emitted :: int64
  defines "os \<equiv> orchestrator_settings_of env"
  defines "jenv \<equiv> container_env (job_env (os_cfg os) event)"
  defines "result \<equiv> correctness \<lparr>cb_endpoint = ''ws://'' @ e_PodIP event @ '':'' @ show_int (e_WSPort event) @ ''/stream'',
      cb_httpBase = ''http://'' @ e_PodIP event @ '':'' @ show_int (e_WSPort event)\<rparr>"
  defines "bots \<equiv> map (\<lambda>i. run_bot i (sequences (int i) ! (i mod 3))) [0..<nat (NumBots (os_cfg os))]"
  defines "msg \<equiv> metrics_event lib (LoadBot.merge lib bots) elapsed (e_TeamName event) (e_SubmissionID event)
      (e_SubmissionID event) (Score result) emitted"
  assumes "e_TeamName event \<noteq> []" "e_SubmissionID event \<noteq> []"
  shows "runner_main jenv (\<lambda>_. None) correctness run_bot lib False elapsed emitted encodes produces =
      (if NumBots (os_cfg os) < 0 then Inl (RunFailed BotsPanic)
       else Inr (if os_brokers os = [] then NotPublished
         else if \<not> encodes msg then EncodeFailed
         else if \<not> produces then ProduceFailed
         else publish_result.Published (e_SubmissionID event) msg)) \<and>
    OrdersSent msg = (\<Sum>i\<leftarrow>[0..<nat (NumBots (os_cfg os))]. ordersSent (run_bot i (sequences (int i) ! (i mod 3))))"
proof -
  let ?rc = "runner_config jenv"
  have cfg: "NumBots (os_cfg os) = envInt env ''NUM_BOTS'' 50" by (simp add: os_def orchestrator_settings_of_def Let_def)
  have rc: "rc_numBots ?rc = NumBots (os_cfg os)" "rc_brokers ?rc = os_brokers os" "rc_submissionID ?rc = e_SubmissionID event"
    "rc_teamName ?rc = e_TeamName event"
    "rc_endpoint ?rc = ''ws://'' @ (e_PodIP event @ '':'' @ show_int (e_WSPort event)) @ ''/stream''"
    using runner_reads_settings[OF assms(6), of env] unfolding Let_def os_def[symmetric] jenv_def[symmetric] cfg by simp_all
  have start: "fst (bot_runner_run jenv (\<lambda>_. None) None) = None" by (simp add: bot_runner_run_def Let_def)
  have url: "NewCorrectnessBot (rc_endpoint ?rc) = \<lparr>cb_endpoint = ''ws://'' @ e_PodIP event @ '':'' @ show_int (e_WSPort event) @ ''/stream'',
      cb_httpBase = ''http://'' @ e_PodIP event @ '':'' @ show_int (e_WSPort event)\<rparr>"
    unfolding rc(5) using correctness_url[of "e_PodIP event @ '':'' @ show_int (e_WSPort event)"]
    by (intro correctness_bot.equality) (simp_all add: NewCorrectnessBot_def)
  have fin: "finish_run lib False elapsed bots ?rc (Score result) emitted has encodes produces =
      Inr (publishMetrics has encodes produces (e_SubmissionID event) msg)" for has
    using assms(7) by (simp add: finish_run_def rc msg_def Let_def)
  have sum: "OrdersSent msg = sum_list (map ordersSent bots)"
    by (simp add: msg_def metrics_event_def LoadBot.merge_def merge_start_def merge_sums)
  have "runner_main jenv (\<lambda>_. None) correctness run_bot lib False elapsed emitted encodes produces =
      (if NumBots (os_cfg os) < 0 then Inl (RunFailed BotsPanic)
       else Inr (publishMetrics (os_brokers os \<noteq> []) encodes produces (e_SubmissionID event) msg))"
    unfolding runner_main_def Let_def start url result_def[symmetric] rc(1,2) plan_bots_def
    by (simp add: planned_metrics bots_def[symmetric] fin)
  with sum show ?thesis by (simp add: publishMetrics_def bots_def comp_def)
qed

text \<open>Three bots of two orders each.\<close>

theorem job_publishes_metrics_witness:
  "\<exists>msg. runner_main (container_env (job_env (os_cfg (orchestrator_settings_of ((\<lambda>_. [])(''NUM_BOTS'' := ''3'')))) (demo_ready ''s'')))
      (\<lambda>_. None) (\<lambda>_. fst (Run (\<lambda>_ _. 3) spec_target spec_start)) (\<lambda>_ _. sample_bot) sample_lib False (10 ^ 9) 7
      (\<lambda>_. True) True = Inr (publish_result.Published ''s'' msg) \<and> OrdersSent msg = 6"
proof -
  let ?env = "(\<lambda>_. [])(''NUM_BOTS'' := ''3'')"
  have b: "os_brokers (orchestrator_settings_of ?env) \<noteq> []" by code_simp
  have n: "NumBots (os_cfg (orchestrator_settings_of ?env)) = 3" by code_simp
  have e: "e_SubmissionID (demo_ready ''s'') = ''s''" "e_TeamName (demo_ready ''s'') = ''team''" by (simp_all add: demo_ready_def)
  show ?thesis
    using job_publishes_metrics[of "demo_ready ''s''" ?env "\<lambda>_. fst (Run (\<lambda>_ _. 3) spec_target spec_start)"
        "\<lambda>_ _. sample_bot" sample_lib "10 ^ 9" 7 "\<lambda>_. True" True] b
    unfolding n e by (simp add: sample_bot_def numeral_3_eq_3)
qed

end
